(* ===== verification/Prelude.thy ===== *)
theory Prelude
  imports Main "HOL-Library.Word" "HOL-Library.Signed_Division"
begin

text \<open>
  What every component shares: the machine integer types of the C code, the limits of
  \<open>include/common.h\<close>, the memory primitives (\<open>memset\<close>, \<open>memcpy\<close>, a counted loop that
  updates an array in place), the loop that may stop early, and the contract of a state
  machine with an invariant.
\<close>

unbundle bit_operations_syntax

section \<open>Machine integers and limits\<close>

type_synonym u8 = "8 word"
type_synonym u16 = "16 word"
type_synonym u32 = "32 word"
type_synonym u64 = "64 word"
type_synonym bytes = "u8 list"

definition MAX_PATHS :: nat where "MAX_PATHS = 8"
definition MAX_K :: nat where "MAX_K = 16"
definition MAX_N :: nat where "MAX_N = 32"
definition MAX_PAYLOAD :: nat where "MAX_PAYLOAD = 1400"
definition MAX_WINDOW :: nat where "MAX_WINDOW = 16"

lemmas limits = MAX_PATHS_def MAX_K_def MAX_N_def MAX_PAYLOAD_def MAX_WINDOW_def

lemma unat_u8_less [simp]: "unat (a :: u8) < 256"
  using unsigned_less [of a] by simp

text \<open>A signed 32-bit C \<open>int\<close> can hold exactly these values.\<close>

definition INT_MIN :: int where "INT_MIN = - (2 ^ 31)"
definition INT_MAX :: int where "INT_MAX = 2 ^ 31 - 1"

section \<open>Time\<close>

text \<open>\<open>struct timeval\<close>: seconds and microseconds; the microseconds since the epoch; and the
  elapsed milliseconds as the program computes them, with the division of C.\<close>

type_synonym timeval = "int \<times> int"

definition now_us :: "timeval \<Rightarrow> u64" where
  "now_us tv = word_of_int (fst tv) * 1000000 + word_of_int (snd tv)"

definition elapsed_ms :: "timeval \<Rightarrow> timeval \<Rightarrow> int" where
  "elapsed_ms now t = (fst now - fst t) * 1000 + (snd now - snd t) sdiv 1000"

section \<open>Memory primitives\<close>

text \<open>
  \<open>mem\<close> collects the facts about lengths and elements after a memory primitive.
\<close>

named_theorems mem

definition memset :: "'a list \<Rightarrow> 'a \<Rightarrow> nat \<Rightarrow> 'a list" where
  "memset dst v n = replicate n v @ drop n dst"

definition memcpy :: "'a list \<Rightarrow> 'a list \<Rightarrow> nat \<Rightarrow> 'a list" where
  "memcpy dst src n = take n src @ drop n dst"

definition for_upd :: "nat \<Rightarrow> (nat \<Rightarrow> 'a \<Rightarrow> 'a) \<Rightarrow> 'a list \<Rightarrow> 'a list" where
  "for_upd n f xs = fold (\<lambda>i ys. ys[i := f i (ys ! i)]) [0..<n] xs"

lemma length_memset [mem]: "n \<le> length dst \<Longrightarrow> length (memset dst v n) = length dst"
  by (simp add: memset_def)

lemma nth_memset [mem]:
  "n \<le> length dst \<Longrightarrow> i < length dst \<Longrightarrow> memset dst v n ! i = (if i < n then v else dst ! i)"
  by (simp add: memset_def nth_append)

lemma length_memcpy [mem]:
  "n \<le> length src \<Longrightarrow> n \<le> length dst \<Longrightarrow> length (memcpy dst src n) = length dst"
  by (simp add: memcpy_def)

lemma nth_memcpy [mem]:
  "n \<le> length src \<Longrightarrow> n \<le> length dst \<Longrightarrow> i < length dst \<Longrightarrow>
     memcpy dst src n ! i = (if i < n then src ! i else dst ! i)"
  by (simp add: memcpy_def nth_append)

text \<open>The \<open>n\<close> elements of the array \<open>a\<close> from index \<open>off\<close> on exist. An access outside an array is undefined behaviour: the
  operations that may be asked for one guard it with this test, and the other branch is the undefined result.\<close>

definition inside :: "'a list \<Rightarrow> nat \<Rightarrow> nat \<Rightarrow> bool" where
  "inside a off n \<longleftrightarrow> off + n \<le> length a"

lemma memcpy_all: "length src = length dst \<Longrightarrow> length src \<le> n \<Longrightarrow> memcpy dst src n = src"
  by (simp add: memcpy_def)

lemma for_upd_0 [simp]: "for_upd 0 f xs = xs"
  by (simp add: for_upd_def)

lemma for_upd_Suc:
  "for_upd (Suc n) f xs = (for_upd n f xs)[n := f n (for_upd n f xs ! n)]"
  by (simp add: for_upd_def)

lemma length_for_upd [simp, mem]: "length (for_upd n f xs) = length xs"
  by (induction n) (simp_all add: for_upd_Suc)

lemma nth_for_upd [mem]:
  "i < length xs \<Longrightarrow> for_upd n f xs ! i = (if i < n then f i (xs ! i) else xs ! i)"
proof (induction n)
  case 0
  show ?case by simp
next
  case (Suc n)
  then show ?case by (auto simp: for_upd_Suc nth_list_update less_Suc_eq)
qed

lemma for_upd_cong:
  "(\<And>i x. i < n \<Longrightarrow> f i x = g i x) \<Longrightarrow> for_upd n f xs = for_upd n g xs"
  by (induction n) (simp_all add: for_upd_Suc)

lemma nth_upd: "xs[i := x] ! j = (if i = j \<and> i < length xs then x else xs ! j)"
  by (cases "i < length xs") (simp_all add: nth_list_update list_update_beyond)

lemma all_less_2: "(\<forall>i < (2 :: nat). P i) \<longleftrightarrow> P 0 \<and> P 1"
  by (auto simp: less_Suc_eq numeral_2_eq_2)

lemma all_less_3: "(\<forall>i < (3 :: nat). P i) \<longleftrightarrow> P 0 \<and> P 1 \<and> P 2"
  by (auto simp: less_Suc_eq numeral_3_eq_3 numeral_2_eq_2)

section \<open>Loops with an early exit\<close>

text \<open>
  \<open>for_opt f is s\<close> runs the body \<open>f\<close> for the indices \<open>is\<close> in order and stops with
  \<open>None\<close> at the first body that returns \<open>None\<close> (an early \<open>return -1\<close>).
\<close>

fun for_opt :: "(nat \<Rightarrow> 's \<Rightarrow> 's option) \<Rightarrow> nat list \<Rightarrow> 's \<Rightarrow> 's option" where
  "for_opt f [] s = Some s"
| "for_opt f (i # is) s = (case f i s of None \<Rightarrow> None | Some s' \<Rightarrow> for_opt f is s')"

lemma for_opt_append:
  "for_opt f (xs @ ys) s = (case for_opt f xs s of None \<Rightarrow> None | Some s' \<Rightarrow> for_opt f ys s')"
  by (induction xs arbitrary: s) (auto split: option.splits)

text \<open>The invariant rule of a counted loop: \<open>P i\<close> holds before iteration \<open>i\<close>.\<close>

lemma for_opt_invariant:
  assumes "P lo s" and "lo \<le> hi" and "for_opt f [lo..<hi] s = Some t"
    and step: "\<And>i s s'. lo \<le> i \<Longrightarrow> i < hi \<Longrightarrow> P i s \<Longrightarrow> f i s = Some s' \<Longrightarrow> P (Suc i) s'"
  shows "P hi t"
  using assms(2,1,3) step
proof (induction arbitrary: s rule: inc_induct)
  case base
  then show ?case by simp
next
  case (step i)
  from step.prems(2) step.hyps obtain s' where s': "f i s = Some s'"
    and rest: "for_opt f [Suc i..<hi] s' = Some t"
    by (auto simp: upt_conv_Cons split: option.splits)
  have "P (Suc i) s'" using step.prems(1,3) step.hyps s' by auto
  then show ?case
    using rest step.prems(3) by (intro step.IH) (auto simp: Suc_le_eq)
qed

text \<open>The same for a loop whose body succeeds whenever the invariant holds.\<close>

lemma for_opt_total:
  assumes "P lo s" and "lo \<le> hi"
    and step: "\<And>i s. lo \<le> i \<Longrightarrow> i < hi \<Longrightarrow> P i s \<Longrightarrow> \<exists>s'. f i s = Some s' \<and> P (Suc i) s'"
  shows "\<exists>t. for_opt f [lo..<hi] s = Some t \<and> P hi t"
  using assms(2,1) step
proof (induction arbitrary: s rule: inc_induct)
  case base
  then show ?case by simp
next
  case (step i)
  from step.prems(2)[of i s] step.prems(1) step.hyps obtain s' where s': "f i s = Some s'" "P (Suc i) s'"
    by auto
  have "\<exists>t. for_opt f [Suc i..<hi] s' = Some t \<and> P hi t"
    by (rule step.IH) (use s'(2) step.prems(2) in \<open>auto simp: Suc_le_eq\<close>)
  then show ?case using s'(1) step.hyps by (auto simp: upt_conv_Cons)
qed

lemma fold_invariant_upt:
  assumes "P lo s" and "lo \<le> hi"
    and step: "\<And>i s. lo \<le> i \<Longrightarrow> i < hi \<Longrightarrow> P i s \<Longrightarrow> P (Suc i) (f i s)"
  shows "P hi (fold f [lo..<hi] s)"
  using assms(2,1) step
proof (induction arbitrary: s rule: inc_induct)
  case base
  then show ?case by simp
next
  case (step i)
  have "P (Suc i) (f i s)" using step.prems(1,2) step.hyps by auto
  then have "P hi (fold f [Suc i..<hi] (f i s))"
    using step.prems(2) by (intro step.IH) (auto simp: Suc_le_eq)
  then show ?case using step.hyps by (simp add: upt_conv_Cons)
qed

section \<open>State machines with an invariant\<close>

text \<open>
  The contract of a component that is driven by a sequence of events: the invariant holds
  at the start and every admissible event keeps it. The client's fact is that it holds
  after any run of admissible events.
\<close>

locale state_machine =
  fixes start :: "'s \<Rightarrow> bool"
    and step :: "'e \<Rightarrow> 's \<Rightarrow> 's"
    and admissible :: "'e \<Rightarrow> bool"
    and inv :: "'s \<Rightarrow> bool"
  assumes inv_start: "start s \<Longrightarrow> inv s"
    and inv_step: "admissible e \<Longrightarrow> inv s \<Longrightarrow> inv (step e s)"
begin

lemma inv_run_from: "\<forall>e \<in> set es. admissible e \<Longrightarrow> inv s \<Longrightarrow> inv (fold step es s)"
  by (induction es arbitrary: s) (auto intro: inv_step)

lemma inv_run: "\<forall>e \<in> set es. admissible e \<Longrightarrow> start s \<Longrightarrow> inv (fold step es s)"
  by (rule inv_run_from) (auto intro: inv_start)

end

section \<open>Forward simulation\<close>

text \<open>
  The contract between a system and its specification: every step of the system is a sequence of steps of the
  specification that keeps the two states related. The client's fact is the same for whole runs.
\<close>

locale simulation =
  fixes cstep :: "'c \<Rightarrow> 'c \<Rightarrow> bool"
    and astep :: "'a \<Rightarrow> 'a \<Rightarrow> bool"
    and related :: "'c \<Rightarrow> 'a \<Rightarrow> bool"
  assumes sim: "cstep c c' \<Longrightarrow> related c a \<Longrightarrow> \<exists>a'. astep\<^sup>*\<^sup>* a a' \<and> related c' a'"
begin

lemma runs:
  assumes "cstep\<^sup>*\<^sup>* c c'" "related c a"
  shows "\<exists>a'. astep\<^sup>*\<^sup>* a a' \<and> related c' a'"
  using assms(1)
proof induction
  case base
  show ?case using assms(2) by blast
next
  case (step c1 c2)
  then show ?case using sim by (meson rtranclp_trans)
qed

lemma invariant: "cstep\<^sup>*\<^sup>* c c' \<Longrightarrow> related c a \<Longrightarrow> (\<And>a'. astep\<^sup>*\<^sup>* a a' \<Longrightarrow> P a') \<Longrightarrow> \<exists>a'. P a' \<and> related c' a'"
  using runs by blast

end

end
