(* ===== verification/GF256.thy ===== *)
theory GF256
  imports Prelude
begin

text \<open>
  \<open>src/gf256.c\<close>: the multiplication and inverse tables of GF(2^8) with the polynomial
  0x11d, built by \<open>gf256_init\<close> and read by \<open>gf256_mul\<close>, \<open>gf256_inv\<close> and \<open>gf256_div\<close>.
\<close>

section \<open>The code\<close>

text \<open>The body of the innermost loop of \<open>gf256_init\<close>, on the variables \<open>p\<close>, \<open>aa\<close>, \<open>bb\<close>.\<close>

definition xtime :: "u8 \<Rightarrow> u8" where
  "xtime aa = (if aa AND 0x80 \<noteq> 0 then push_bit 1 aa XOR 0x1d else push_bit 1 aa)"

fun gf_step :: "u8 \<times> u8 \<times> u8 \<Rightarrow> u8 \<times> u8 \<times> u8" where
  "gf_step (p, aa, bb) = (if bb AND 1 \<noteq> 0 then p XOR aa else p, xtime aa, drop_bit 1 bb)"

definition peasant :: "u8 \<Rightarrow> u8 \<Rightarrow> u8" where
  "peasant a b = fst ((gf_step ^^ 8) (0, a, b))"

definition mul_table :: "u8 list list" where
  "mul_table = map (\<lambda>a. map (\<lambda>b. peasant (of_nat a) (of_nat b)) [0..<256]) [0..<256]"

definition inv_table :: "u8 list" where
  "inv_table = 0 # map (\<lambda>a. case find (\<lambda>b. mul_table ! a ! b = 1) [1..<256] of
                              Some b \<Rightarrow> of_nat b | None \<Rightarrow> 0) [1..<256]"

definition gf256_add :: "u8 \<Rightarrow> u8 \<Rightarrow> u8" where
  "gf256_add a b = a XOR b"

definition gf256_mul :: "u8 \<Rightarrow> u8 \<Rightarrow> u8" where
  "gf256_mul a b = mul_table ! unat a ! unat b"

definition gf256_inv :: "u8 \<Rightarrow> u8" where
  "gf256_inv a = inv_table ! unat a"

text \<open>\<open>assert(b != 0)\<close> aborts the process: \<open>None\<close>.\<close>

definition gf256_div :: "u8 \<Rightarrow> u8 \<Rightarrow> u8 option" where
  "gf256_div a b = (if b \<noteq> 0 then Some (mul_table ! unat a ! unat (inv_table ! unat b)) else None)"

section \<open>The tables hold the products of the loop\<close>

lemma gf256_mul_peasant: "gf256_mul a b = peasant a b"
  by (simp add: gf256_mul_def mul_table_def)


text \<open>The loop, unrolled: bit \<open>i\<close> of \<open>b\<close> adds \<open>a\<close> doubled \<open>i\<close> times.\<close>

fun psum :: "nat \<Rightarrow> u8 \<Rightarrow> u8 \<Rightarrow> u8" where
  "psum 0 a b = 0"
| "psum (Suc n) a b = psum n a b XOR (if bit b n then (xtime ^^ n) a else 0)"

lemma gf_step_funpow:
  "(gf_step ^^ n) (p, a, b) = (p XOR psum n a b, (xtime ^^ n) a, drop_bit n b)"
proof (induction n)
  case 0
  show ?case by simp
next
  case (Suc n)
  have "(drop_bit n b AND 1 \<noteq> 0) = bit b n"
    by (simp add: and_one_eq bit_iff_odd_drop_bit odd_iff_mod_2_eq_one)
  with Suc show ?case by (simp add: xor.assoc drop_bit_drop_bit)
qed

lemma peasant_psum: "peasant a b = psum 8 a b"
  by (simp add: peasant_def gf_step_funpow)

lemma xtime_alt: "xtime a = push_bit 1 a XOR (if bit a 7 then 0x1d else 0)"
proof -
  have "(a AND 0x80 \<noteq> 0) = bit a 7"
    by (simp add: bit_iff_and_push_bit_not_eq_0)
  then show ?thesis by (simp add: xtime_def)
qed

lemma xtime_xor: "xtime (a XOR b) = xtime a XOR xtime b"
  by (simp add: xtime_alt bit_xor_iff xor.assoc xor.commute xor.left_commute push_bit_xor)

lemma xtime_funpow_xor: "(xtime ^^ n) (a XOR b) = (xtime ^^ n) a XOR (xtime ^^ n) b"
  by (induction n) (simp_all add: xtime_xor)

lemma xtime_0 [simp]: "xtime 0 = 0"
  by (simp add: xtime_def)

lemma xtime_funpow_0 [simp]: "(xtime ^^ n) 0 = 0"
  by (induction n) simp_all

lemma psum_xor_left: "psum n (a XOR a') b = psum n a b XOR psum n a' b"
  by (induction n) (simp_all add: xtime_funpow_xor xor.assoc xor.commute xor.left_commute)

lemma psum_xor_right: "psum n a (b XOR b') = psum n a b XOR psum n a b'"
  by (induction n) (auto simp: bit_xor_iff xor.assoc xor.commute xor.left_commute)

lemma psum_0_left [simp]: "psum n 0 b = 0"
  by (induction n) simp_all

lemma psum_0_right [simp]: "psum n a 0 = 0"
  by (induction n) simp_all

lemma psum_xtime: "psum n ((xtime ^^ m) a) b = (xtime ^^ m) (psum n a b)"
proof (induction n)
  case 0
  show ?case by simp
next
  case (Suc n)
  have "(xtime ^^ n) ((xtime ^^ m) a) = (xtime ^^ m) ((xtime ^^ n) a)"
    by (metis add.commute comp_apply funpow_add)
  with Suc show ?case by (simp add: xtime_funpow_xor)
qed

lemma psum_psum: "psum n (psum m a b) c = psum m (psum n a c) b"
proof (induction m)
  case 0
  show ?case by simp
next
  case (Suc m)
  then show ?case by (simp add: psum_xor_left psum_xtime)
qed

text \<open>Two additive functions on bytes that agree on the eight powers of two are equal.\<close>

lemma u8_xor_bits:
  "(a :: u8) = (if bit a 0 then 1 else 0) XOR (if bit a 1 then 2 else 0) XOR
     (if bit a 2 then 4 else 0) XOR (if bit a 3 then 8 else 0) XOR (if bit a 4 then 16 else 0) XOR
     (if bit a 5 then 32 else 0) XOR (if bit a 6 then 64 else 0) XOR (if bit a 7 then 128 else 0)"
proof (rule bit_word_eqI)
  fix n assume "n < LENGTH(8)"
  then have "n = 0 \<or> n = 1 \<or> n = 2 \<or> n = 3 \<or> n = 4 \<or> n = 5 \<or> n = 6 \<or> n = 7" by auto
  then show "bit a n = bit ((if bit a 0 then (1 :: u8) else 0) XOR (if bit a 1 then 2 else 0) XOR
     (if bit a 2 then 4 else 0) XOR (if bit a 3 then 8 else 0) XOR (if bit a 4 then 16 else 0) XOR
     (if bit a 5 then 32 else 0) XOR (if bit a 6 then 64 else 0) XOR
     (if bit a 7 then 128 else 0)) n"
    by (elim disjE) (simp_all add: bit_xor_iff)
qed

definition additive8 :: "(u8 \<Rightarrow> u8) \<Rightarrow> bool" where
  "additive8 f \<longleftrightarrow> (\<forall>x y. f (x XOR y) = f x XOR f y)"

lemma additive8_0: "additive8 f \<Longrightarrow> f 0 = 0"
  unfolding additive8_def by (metis xor_self_eq)

lemma additive8_if:
  "additive8 f \<Longrightarrow> f (if P then x else 0) = (if P then f x else 0)"
  by (simp add: additive8_0)

definition basis8 :: "u8 list" where
  "basis8 = [1, 2, 4, 8, 16, 32, 64, 128]"

lemma additive8_ext:
  assumes f: "additive8 f" and g: "additive8 g"
    and basis: "\<And>e. e \<in> set basis8 \<Longrightarrow> f e = g e"
  shows "f a = g a"
proof -
  note fx = f[unfolded additive8_def, rule_format] and gx = g[unfolded additive8_def, rule_format]
  have "f 1 = g 1" "f 2 = g 2" "f 4 = g 4" "f 8 = g 8"
    "f 16 = g 16" "f 32 = g 32" "f 64 = g 64" "f 128 = g 128"
    by (rule basis, simp add: basis8_def)+
  then show ?thesis
    by (subst (1 2) u8_xor_bits)
       (simp only: fx gx additive8_if[OF f] additive8_if[OF g])
qed

lemma additive8_ext2:
  assumes f1: "\<And>b. additive8 (\<lambda>a. f a b)" and f2: "\<And>a. additive8 (f a)"
    and g1: "\<And>b. additive8 (\<lambda>a. g a b)" and g2: "\<And>a. additive8 (g a)"
    and basis: "\<And>d e. d \<in> set basis8 \<Longrightarrow> e \<in> set basis8 \<Longrightarrow> f d e = g d e"
  shows "f a b = g a b"
proof (rule additive8_ext[where f = "\<lambda>a. f a b" and g = "\<lambda>a. g a b"])
  show "additive8 (\<lambda>a. f a b)" by (rule f1)
  show "additive8 (\<lambda>a. g a b)" by (rule g1)
  fix d assume d: "d \<in> set basis8"
  show "f d b = g d b"
  proof (rule additive8_ext[where f = "f d" and g = "g d"])
    show "additive8 (f d)" by (rule f2)
    show "additive8 (g d)" by (rule g2)
    show "f d e = g d e" if "e \<in> set basis8" for e using d that by (rule basis)
  qed
qed

lemma additive8_psum_left: "additive8 (\<lambda>a. psum n a b)"
  by (simp add: additive8_def psum_xor_left)

lemma additive8_psum_right: "additive8 (psum n a)"
  by (simp add: additive8_def psum_xor_right)

lemma psum_1_right: "psum 8 a 1 = a"
  by (simp add: numeral_eq_Suc)

lemma funpow_comm: "(f ^^ m) ((f ^^ n) x) = (f ^^ n) ((f ^^ m) x)"
  by (metis add.commute comp_apply funpow_add)

lemma xtime_evals: "xtime 1 = 2" "xtime 2 = 4" "xtime 4 = 8" "xtime 8 = 16" "xtime 16 = 32"
  "xtime 32 = 64" "xtime 64 = 128" "xtime 128 = 29" "xtime 29 = 58" "xtime 58 = 116"
  "xtime 116 = 232" "xtime 232 = 205" "xtime 205 = 135" "xtime 135 = 19"
  by (simp_all add: xtime_def)

lemma xtime_powers:
  "map (\<lambda>s. (xtime ^^ s) 1) [0..<15] = [1, 2, 4, 8, 16, 32, 64, 128, 29, 58, 116, 232, 205, 135, 19]"
  by (simp add: eval_nat_numeral xtime_evals)

lemma basis8_xtime: "basis8 = map (\<lambda>n. (xtime ^^ n) 1) [0..<8]"
  by (simp add: basis8_def eval_nat_numeral xtime_evals)

lemma basis8_pow2: "basis8 = map (\<lambda>n. 2 ^ n) [0..<8]"
  by (simp add: basis8_def eval_nat_numeral)

lemma basis8_pow: "e \<in> set basis8 \<Longrightarrow> \<exists>n<8. e = (xtime ^^ n) 1 \<and> e = 2 ^ n"
proof -
  assume "e \<in> set basis8"
  then obtain n where n: "n < 8" "e = basis8 ! n"
    by (auto simp: in_set_conv_nth basis8_pow2)
  then have "e = (xtime ^^ n) 1" "e = 2 ^ n" by (simp add: basis8_xtime, simp add: basis8_pow2)
  with n show ?thesis by blast
qed

lemma psum_pow2:
  "n < 8 \<Longrightarrow> m \<le> 8 \<Longrightarrow> psum m a (2 ^ n) = (if n < m then (xtime ^^ n) a else 0)"
  by (induction m) (auto simp: bit_exp_iff less_Suc_eq)

lemma psum_1_left: "psum 8 1 a = a"
proof (rule additive8_ext[where f = "psum 8 1" and g = "\<lambda>a. a"])
  show "additive8 (psum 8 1)" by (rule additive8_psum_right)
  show "additive8 (\<lambda>a. a)" by (simp add: additive8_def)
  show "psum 8 1 e = e" if "e \<in> set basis8" for e
    using basis8_pow[OF that] by (metis order_refl psum_pow2)
qed

lemma psum_pow_left: "psum 8 ((xtime ^^ n) 1) b = (xtime ^^ n) b"
  by (simp add: psum_xtime psum_1_left)

lemma psum_commute: "psum 8 a b = psum 8 b a"
proof (rule additive8_ext2[where f = "psum 8" and g = "\<lambda>a b. psum 8 b a"])
  show "additive8 (\<lambda>a. psum 8 a b)" "additive8 (\<lambda>b. psum 8 b a)" for a b
    by (fact additive8_psum_left)+
  show "additive8 (psum 8 a)" for a by (fact additive8_psum_right)
  show "additive8 (\<lambda>a. psum 8 b a)" for b by (fact additive8_psum_right)
  fix d e assume "d \<in> set basis8" "e \<in> set basis8"
  then obtain m n where "d = (xtime ^^ m) 1" "e = (xtime ^^ n) 1"
    using basis8_pow by blast
  then show "psum 8 d e = psum 8 e d"
    by (simp add: psum_pow_left) (rule funpow_comm)
qed

section \<open>The product is the polynomial product modulo 0x11d\<close>

text \<open>
  The specification of a product in GF(2^8), independent of the loop: the carry-less
  product of two polynomials of degree 7 (15 bits), then long division by
  \<open>x^8 + x^4 + x^3 + x^2 + 1\<close>, one leading bit at a time.
\<close>

fun clmul :: "nat \<Rightarrow> u16 \<Rightarrow> u8 \<Rightarrow> u16" where
  "clmul 0 a b = 0"
| "clmul (Suc n) a b = clmul n a b XOR (if bit b n then push_bit n a else 0)"

definition poly_step :: "nat \<Rightarrow> u16 \<Rightarrow> u16" where
  "poly_step i x = (if bit x (i + 8) then x XOR push_bit i 0x11d else x)"

definition poly_mod :: "u16 \<Rightarrow> u16" where
  "poly_mod x = fold poly_step [6, 5, 4, 3, 2, 1, 0] x"

definition gf_product :: "u8 \<Rightarrow> u8 \<Rightarrow> u8" where
  "gf_product a b = ucast (poly_mod (clmul 8 (ucast a) b))"

lemma clmul_xor_left: "clmul n (x XOR y) b = clmul n x b XOR clmul n y b"
  by (induction n) (simp_all add: push_bit_xor xor.assoc xor.commute xor.left_commute)

lemma clmul_xor_right: "clmul n x (b XOR c) = clmul n x b XOR clmul n x c"
  by (induction n) (auto simp: bit_xor_iff xor.assoc xor.commute xor.left_commute)

lemma poly_step_xor: "poly_step n (x XOR y) = poly_step n x XOR poly_step n y"
  by (simp add: poly_step_def bit_xor_iff xor.assoc xor.commute xor.left_commute)

lemma poly_mod_xor: "poly_mod (x XOR y) = poly_mod x XOR poly_mod y"
  by (simp add: poly_mod_def poly_step_xor)

lemma ucast_xor: "ucast (x XOR y) = ucast x XOR ucast y"
  by (simp add: unsigned_xor_eq)

lemma additive8_gf_product_left: "additive8 (\<lambda>a. gf_product a b)"
  by (simp add: additive8_def gf_product_def unsigned_xor_eq clmul_xor_left poly_mod_xor)

lemma additive8_gf_product_right: "additive8 (gf_product a)"
  by (simp add: additive8_def gf_product_def unsigned_xor_eq clmul_xor_right poly_mod_xor)

lemma clmul_shift: "n < 8 \<Longrightarrow> m \<le> 8 \<Longrightarrow> clmul m x (2 ^ n) = (if n < m then push_bit n x else 0)"
  by (induction m) (auto simp: bit_exp_iff less_Suc_eq)

lemma pow2_list:
  "map (\<lambda>s. 2 ^ s) [0..<15] =
     [1, 2, 4, 8, 16, 32, 64, 128, 256, 512, 1024, 2048, 4096, 8192, 16384 :: u16]"
  by (simp add: eval_nat_numeral)

lemma poly_mod_powers:
  "map (\<lambda>x. ucast (poly_mod x) :: u8)
     [1, 2, 4, 8, 16, 32, 64, 128, 256, 512, 1024, 2048, 4096, 8192, 16384] =
     [1, 2, 4, 8, 16, 32, 64, 128, 29, 58, 116, 232, 205, 135, 19]"
  by (simp add: poly_mod_def poly_step_def)

lemma poly_mod_power: "s < 15 \<Longrightarrow> ucast (poly_mod (2 ^ s)) = (xtime ^^ s) 1"
proof -
  have "map (\<lambda>x. ucast (poly_mod x)) (map (\<lambda>s. 2 ^ s) [0..<15]) = map (\<lambda>s. (xtime ^^ s) 1) [0..<15]"
    by (simp only: poly_mod_powers xtime_powers pow2_list)
  then show "s < 15 \<Longrightarrow> ucast (poly_mod (2 ^ s)) = (xtime ^^ s) 1"
    by (auto simp only: map_map o_def map_eq_conv set_upt atLeastLessThan_iff)
qed

lemma psum_basis: "psum 8 ((xtime ^^ m) 1) ((xtime ^^ n) 1) = (xtime ^^ (m + n)) 1"
  by (simp add: psum_pow_left funpow_add)

lemma gf_product_basis:
  assumes "d \<in> set basis8" "e \<in> set basis8"
  shows "psum 8 d e = gf_product d e"
proof -
  obtain m n where m: "m < 8" "d = (xtime ^^ m) 1" "d = 2 ^ m"
    and n: "n < 8" "e = (xtime ^^ n) 1" "e = 2 ^ n"
    using assms basis8_pow by metis
  have "(ucast ((2 :: u8) ^ m) :: u16) = 2 ^ m"
    using m(1) by (intro bit_word_eqI) (auto simp: bit_simps)
  then have "gf_product d e = ucast (poly_mod (2 ^ (m + n)))"
    using m(1) n(1) by (simp add: gf_product_def m(3) n(3) clmul_shift push_bit_eq_mult power_add)
  also have "\<dots> = (xtime ^^ (m + n)) 1" using m(1) n(1) by (simp add: poly_mod_power)
  finally show ?thesis by (simp add: m(2) n(2) psum_basis)
qed

theorem gf256_mul_is_product: "gf256_mul a b = gf_product a b"
proof -
  have "psum 8 a b = gf_product a b"
  proof (rule additive8_ext2[where f = "psum 8" and g = gf_product])
    show "additive8 (\<lambda>a. psum 8 a b)" "additive8 (\<lambda>a. gf_product a b)" for b
      by (fact additive8_psum_left additive8_gf_product_left)+
    show "additive8 (psum 8 a)" "additive8 (gf_product a)" for a
      by (fact additive8_psum_right additive8_gf_product_right)+
  qed (rule gf_product_basis)
  then show ?thesis by (simp add: gf256_mul_peasant peasant_psum)
qed

section \<open>Every non-zero byte is a power of \<open>x\<close>\<close>

fun order_check :: "nat \<Rightarrow> u8 \<Rightarrow> bool" where
  "order_check 0 x = (x = 1)"
| "order_check (Suc n) x = (x \<noteq> 1 \<and> order_check n (xtime x))"

lemma order_check_numeral:
  "order_check (numeral n) x = (x \<noteq> 1 \<and> order_check (pred_numeral n) (xtime x))"
  by (simp add: numeral_eq_Suc)

lemma order_check_255: "order_check 254 (xtime 1)"
  by (simp add: order_check_numeral xtime_def)

lemma order_check_neq:
  "order_check n x \<Longrightarrow> i < n \<Longrightarrow> (xtime ^^ i) x \<noteq> 1"
proof (induction n arbitrary: x i)
  case (Suc n)
  then show ?case by (cases i) (auto simp: funpow_Suc_right simp del: funpow.simps(2))
qed simp

lemma order_check_end: "order_check n x \<Longrightarrow> (xtime ^^ n) x = 1"
  by (induction n arbitrary: x) (auto simp: funpow_Suc_right simp del: funpow.simps(2))


lemma xtime_order: "(xtime ^^ 255) a = a"
proof -
  have "(xtime ^^ 254) (xtime 1) = 1" by (rule order_check_end) (rule order_check_255)
  then have "(xtime ^^ Suc 254) 1 = 1" by (simp only: funpow_Suc_right o_apply)
  then have "(xtime ^^ 255) 1 = 1" by simp
  then show ?thesis using psum_pow_left[of 255 a] by (simp add: psum_1_left)
qed

lemma xtime_no_smaller_order: "0 < i \<Longrightarrow> i < 255 \<Longrightarrow> (xtime ^^ i) 1 \<noteq> 1"
  using order_check_neq[OF order_check_255, of "i - 1"]
  by (cases i) (simp_all add: funpow_Suc_right del: funpow.simps(2))

lemma xtime_powers_distinct: "inj_on (\<lambda>i. (xtime ^^ i) 1) {..<255}"
proof (rule linorder_inj_onI')
  fix i j :: nat
  assume "j \<in> {..<255}" "i < j"
  have "(xtime ^^ (255 - i)) ((xtime ^^ i) 1) = 1"
    using \<open>i < j\<close> \<open>j \<in> _\<close> xtime_order[of 1] by (simp flip: funpow_add[unfolded o_def, THEN fun_cong])
  moreover have "(xtime ^^ (255 - i)) ((xtime ^^ j) 1) = (xtime ^^ 255) ((xtime ^^ (j - i)) 1)"
    using \<open>i < j\<close> \<open>j \<in> _\<close> by (simp flip: funpow_add[unfolded o_def, THEN fun_cong])
  ultimately show "(xtime ^^ i) 1 \<noteq> (xtime ^^ j) 1"
    using xtime_no_smaller_order[of "j - i"] \<open>i < j\<close> \<open>j \<in> _\<close> by (auto simp: xtime_order)
qed

lemma xtime_power_nonzero:
  assumes "i < 255"
  shows "(xtime ^^ i) 1 \<noteq> 0"
proof
  assume "(xtime ^^ i) 1 = 0"
  then have "(xtime ^^ (255 - i)) ((xtime ^^ i) 1) = 0" by simp
  moreover have "(xtime ^^ (255 - i)) ((xtime ^^ i) 1) = 1"
    using assms xtime_order[of 1] by (simp flip: funpow_add[unfolded o_def, THEN fun_cong])
  ultimately show False by simp
qed

lemma nonzero_is_power:
  assumes "(a :: u8) \<noteq> 0"
  shows "\<exists>i<255. a = (xtime ^^ i) 1"
proof -
  let ?S = "(\<lambda>i. (xtime ^^ i) 1) ` {..<255}"
  have "card ?S = 255" by (simp add: card_image xtime_powers_distinct)
  moreover have "card (UNIV - {0 :: u8}) = 255" by (simp add: card_Diff_singleton card_word)
  moreover have "?S \<subseteq> UNIV - {0}" using xtime_power_nonzero by auto
  ultimately have "?S = UNIV - {0}" by (intro card_subset_eq) auto
  with assms show ?thesis by blast
qed

lemma mul_inverse_exists:
  assumes "a \<noteq> 0"
  shows "\<exists>b. b \<noteq> 0 \<and> gf256_mul a b = 1"
proof -
  obtain i where i: "i < 255" "a = (xtime ^^ i) 1" using nonzero_is_power[OF assms] by blast
  have "gf256_mul a ((xtime ^^ (255 - i)) 1) = (xtime ^^ (i + (255 - i))) 1"
    by (simp add: i(2) gf256_mul_peasant peasant_psum psum_basis)
  also have "\<dots> = 1" using i(1) xtime_order[of 1] by simp
  finally show ?thesis by (metis gf256_mul_peasant peasant_psum psum_0_right zero_neq_one)
qed


section \<open>Field laws of the table operations\<close>

lemma gf256_mul_psum: "gf256_mul a b = psum 8 a b"
  by (simp add: gf256_mul_peasant peasant_psum)

lemma gf256_mul_commute: "gf256_mul a b = gf256_mul b a"
  by (simp add: gf256_mul_psum) (rule psum_commute)

lemma gf256_mul_assoc: "gf256_mul (gf256_mul a b) c = gf256_mul a (gf256_mul b c)"
proof -
  have "psum 8 (psum 8 a b) c = psum 8 (psum 8 b a) c" by (simp add: psum_commute)
  also have "\<dots> = psum 8 (psum 8 b c) a" by (rule psum_psum)
  also have "\<dots> = psum 8 a (psum 8 b c)" by (rule psum_commute)
  finally show ?thesis by (simp add: gf256_mul_psum)
qed

lemma gf256_mul_xor_left: "gf256_mul (a XOR b) c = gf256_mul a c XOR gf256_mul b c"
  by (simp add: gf256_mul_psum psum_xor_left)

lemma gf256_mul_xor_right: "gf256_mul a (b XOR c) = gf256_mul a b XOR gf256_mul a c"
  by (simp add: gf256_mul_psum psum_xor_right)

lemma gf256_mul_simps [simp]:
  "gf256_mul 0 a = 0" "gf256_mul a 0 = 0" "gf256_mul 1 a = a" "gf256_mul a 1 = a"
  by (simp_all add: gf256_mul_psum psum_1_left psum_1_right)

lemma gf256_inv_0 [simp]: "gf256_inv 0 = 0"
  by (simp add: gf256_inv_def inv_table_def)

text \<open>The search of \<open>gf256_init\<close> finds an inverse for every non-zero byte.\<close>

lemma gf256_mul_inv:
  assumes "a \<noteq> 0"
  shows "gf256_mul a (gf256_inv a) = 1"
proof -
  let ?P = "\<lambda>b. mul_table ! unat a ! b = 1"
  obtain b where b: "b \<noteq> 0" "gf256_mul a b = 1" using mul_inverse_exists[OF assms] by blast
  then have "unat b \<in> set [1..<256]" "?P (unat b)"
    by (simp_all add: gf256_mul_def Suc_le_eq unat_gt_0)
  then obtain m where m: "find ?P [1..<256] = Some m"
    using find_None_iff[of ?P "[1..<256]"] by blast
  then have m': "m < 256" "?P m" by (auto simp: find_Some_iff)
  have pos: "0 < unat a" using assms by (simp add: unat_gt_0)
  moreover have "unat a - 1 < 255" using pos unat_u8_less[of a] by arith
  ultimately have "gf256_inv a = of_nat m"
    using m by (simp add: gf256_inv_def inv_table_def nth_Cons')
  then show ?thesis using m' by (simp add: gf256_mul_def unat_of_nat)
qed

lemma gf256_div_eq: "gf256_div a b = (if b = 0 then None else Some (gf256_mul a (gf256_inv b)))"
  by (simp add: gf256_div_def gf256_mul_def gf256_inv_def)

section \<open>GF(2^8) as a field of the library\<close>

text \<open>
  A copy of the bytes with the table operations as its arithmetic, so that sums and
  linear equations over shards are the library's.
\<close>

typedef gf = "UNIV :: u8 set"
  morphisms byte_of gf_of ..

setup_lifting type_definition_gf

instantiation gf :: field
begin

lift_definition zero_gf :: gf is 0 .
lift_definition one_gf :: gf is 1 .
lift_definition plus_gf :: "gf \<Rightarrow> gf \<Rightarrow> gf" is gf256_add .
lift_definition minus_gf :: "gf \<Rightarrow> gf \<Rightarrow> gf" is gf256_add .
lift_definition uminus_gf :: "gf \<Rightarrow> gf" is "\<lambda>a. a" .
lift_definition times_gf :: "gf \<Rightarrow> gf \<Rightarrow> gf" is gf256_mul .
lift_definition inverse_gf :: "gf \<Rightarrow> gf" is gf256_inv .
lift_definition divide_gf :: "gf \<Rightarrow> gf \<Rightarrow> gf" is "\<lambda>a b. gf256_mul a (gf256_inv b)" .

instance
proof
  fix a b c :: gf
  show "a * b * c = a * (b * c)" by transfer (rule gf256_mul_assoc)
  show "a * b = b * a" by transfer (rule gf256_mul_commute)
  show "1 * a = a" by transfer simp
  show "a + b + c = a + (b + c)" by transfer (simp add: gf256_add_def xor.assoc)
  show "a + b = b + a" by transfer (simp add: gf256_add_def xor.commute)
  show "0 + a = a" by transfer (simp add: gf256_add_def)
  show "- a + a = 0" by transfer (simp add: gf256_add_def)
  show "a - b = a + - b" by transfer simp
  show "(a + b) * c = a * c + b * c" by transfer (simp add: gf256_add_def gf256_mul_xor_left)
  show "(0 :: gf) \<noteq> 1" by transfer simp
  show "a \<noteq> 0 \<Longrightarrow> inverse a * a = 1"
    by transfer (metis gf256_mul_inv gf256_mul_commute)
  show "a div b = a * inverse b" by transfer simp
  show "inverse (0 :: gf) = 0" by transfer simp
qed

end

section \<open>The interface the codec relies on\<close>

text \<open>
  Byte arithmetic that represents a field: \<open>val\<close> reads a byte as a field element, \<open>XOR\<close> is
  its addition. The client is the row arithmetic of \<open>src/codec.c\<close>: scaling a row of
  coefficients and adding a multiple of one row to another act on the linear form the row
  stands for as they should.
\<close>

locale byte_field =
  fixes mul :: "u8 \<Rightarrow> u8 \<Rightarrow> u8"
    and inv :: "u8 \<Rightarrow> u8"
    and val :: "u8 \<Rightarrow> 'f :: field"
  assumes val_eq_iff: "val a = val b \<longleftrightarrow> a = b"
    and val_0: "val 0 = 0"
    and val_1: "val 1 = 1"
    and val_xor: "val (a XOR b) = val a + val b"
    and val_mul: "val (mul a b) = val a * val b"
    and val_inv: "val (inv a) = inverse (val a)"
begin

lemma val_eq_0_iff: "val a = 0 \<longleftrightarrow> a = 0"
  using val_eq_iff[of a 0] by (simp add: val_0)

lemma val_add_self: "val a + val a = 0"
  by (simp add: val_0 flip: val_xor)

lemma val_sum_0_iff: "val a + val b = 0 \<longleftrightarrow> a = b"
  using val_add_self[of b] val_eq_iff[of a b] by (metis add_right_cancel)

lemma linear_scale:
  assumes "k \<le> length c"
  shows "(\<Sum>i<k. val (for_upd k (\<lambda>_. mul s) c ! i) * x i) = val s * (\<Sum>i<k. val (c ! i) * x i)"
  using assms by (simp add: nth_for_upd val_mul sum_distrib_left mult.assoc)

lemma linear_axpy:
  assumes "k \<le> length c"
  shows "(\<Sum>i<k. val (for_upd k (\<lambda>j y. y XOR mul f (p ! j)) c ! i) * x i) =
     (\<Sum>i<k. val (c ! i) * x i) + val f * (\<Sum>i<k. val (p ! i) * x i)"
  using assms
  by (simp add: nth_for_upd val_xor val_mul sum_distrib_left sum.distrib distrib_right mult.assoc)

lemma mul_inv_self: "a \<noteq> 0 \<Longrightarrow> mul (inv a) a = 1"
  using val_eq_iff[of "mul (inv a) a" 1] by (simp add: val_mul val_inv val_1 val_eq_0_iff)

end

interpretation gf: byte_field gf256_mul gf256_inv gf_of
  by unfold_locales
    (simp_all add: gf_of_inject zero_gf_def one_gf_def plus_gf.abs_eq times_gf.abs_eq
      inverse_gf.abs_eq gf256_add_def)

section \<open>Properties\<close>

text \<open>C19: The multiplication table is the multiplication of GF(2^8): the carry-less product of the two
  polynomials, reduced modulo \<open>x^8 + x^4 + x^3 + x^2 + 1\<close>.\<close>

theorem multiplication_is_the_field_product: "gf256_mul a b = gf_product a b"
  by (rule gf256_mul_is_product)

text \<open>The operations satisfy the laws of a field: multiplication is commutative, associative and
  distributes over \<open>gf256_add\<close>, \<open>gf256_inv\<close> inverts it, and \<open>gf256_div\<close> undoes it unless the
  divisor is 0, where the assertion fails.\<close>

lemma division_undoes_multiplication:
  "gf256_div (gf256_mul a b) b = (if b = 0 then None else Some a) \<and>
   gf256_mul a (gf256_inv a) = (if a = 0 then 0 else 1) \<and>
   gf256_mul a (gf256_add b c) = gf256_add (gf256_mul a b) (gf256_mul a c) \<and>
   gf256_mul a b = gf256_mul b a \<and> gf256_mul (gf256_mul a b) c = gf256_mul a (gf256_mul b c)"
  by (auto simp: gf256_div_eq gf256_mul_inv gf256_mul_assoc gf256_add_def gf256_mul_xor_right
      intro: gf256_mul_commute)

end
