(* ===== verification/Codec.thy ===== *)
theory Codec
  imports GF256
begin

text \<open>
  \<open>src/codec.c\<close>: random linear network coding over GF(2^8). \<open>encode_block\<close> turns \<open>k\<close>
  source packets into \<open>n\<close> shards, \<open>decode_block\<close> recovers the packets from \<open>k\<close> shards by
  Gauss-Jordan elimination. Arrays that the C code leaves uninitialised are arguments: every
  theorem holds whatever they contain.
\<close>

section \<open>The code\<close>

record shard =
  coeffs :: bytes
  data :: bytes
  len :: u16

definition gf_vec_axpy :: "bytes \<Rightarrow> u8 \<Rightarrow> bytes \<Rightarrow> nat \<Rightarrow> bytes" where
  "gf_vec_axpy dst a src n = for_upd n (\<lambda>i d. d XOR gf256_mul a (src ! i)) dst"

definition max_src_len :: "u16 list \<Rightarrow> nat \<Rightarrow> u16" where
  "max_src_len src_len k =
     fold (\<lambda>i max_len. if src_len ! i > max_len then src_len ! i else max_len) [0..<k] 0"

text \<open>
  \<open>rand()\<close> is the stream \<open>rnd\<close>: its \<open>c\<close>-th call returns \<open>rnd c\<close>. The counter \<open>c\<close> is
  threaded through the calls.
\<close>

definition rand_coeff :: "nat \<Rightarrow> u8" where
  "rand_coeff r = (let b = (of_nat (r AND 0xFF) :: u8) in if b = 0 then 1 else b)"

definition encode_combine ::
    "bytes list \<Rightarrow> nat \<Rightarrow> (nat \<Rightarrow> nat) \<Rightarrow> nat \<Rightarrow> shard \<times> nat \<Rightarrow> shard \<times> nat" where
  "encode_combine src max_len rnd i oc = (case oc of (s, c) \<Rightarrow>
     (let b = rand_coeff (rnd c) in
      (s\<lparr>coeffs := (coeffs s)[i := b], data := gf_vec_axpy (data s) b (src ! i) max_len\<rparr>, Suc c)))"

definition encode_shard ::
    "bytes list \<Rightarrow> u16 list \<Rightarrow> nat \<Rightarrow> u16 \<Rightarrow> (nat \<Rightarrow> nat) \<Rightarrow> nat \<Rightarrow> shard \<Rightarrow> nat \<Rightarrow> shard \<times> nat" where
  "encode_shard src src_len k max_len rnd s out c =
     (let out0 = out\<lparr>data := memset (data out) 0 (unat max_len), len := max_len,
                     coeffs := memset (coeffs out) 0 k\<rparr>
      in if s < k
         then (out0\<lparr>coeffs := (coeffs out0)[s := 1],
                    data := memcpy (data out0) (src ! s) (unat (src_len ! s))\<rparr>, c)
         else fold (encode_combine src (unat max_len) rnd) [0..<k] (out0, c))"

definition encode_block ::
    "bytes list \<Rightarrow> u16 list \<Rightarrow> nat \<Rightarrow> nat \<Rightarrow> (nat \<Rightarrow> nat) \<Rightarrow> shard list \<Rightarrow> nat \<Rightarrow> shard list \<times> nat" where
  "encode_block src src_len k n rnd out c =
     (let max_len = max_src_len src_len k in
      fold (\<lambda>s (out, c). case encode_shard src src_len k max_len rnd s (out ! s) c of
                             (sh, c') \<Rightarrow> (out[s := sh], c'))
        [0..<n] (out, c))"

text \<open>The local arrays \<open>mat\<close>, \<open>dat\<close> and \<open>dlen\<close> of \<open>decode_block\<close>.\<close>

record gj =
  mat :: "bytes list"
  dat :: "bytes list"
  dlen :: "u16 list"

definition load_row :: "shard list \<Rightarrow> nat \<Rightarrow> nat \<Rightarrow> gj \<Rightarrow> gj" where
  "load_row shards k i g =
     g\<lparr>mat := (mat g)[i := memcpy (mat g ! i) (coeffs (shards ! i)) k],
       dat := (dat g)[i := memcpy (dat g ! i) (data (shards ! i)) (unat (len (shards ! i)))],
       dlen := (dlen g)[i := len (shards ! i)]\<rparr>"

definition find_pivot :: "bytes list \<Rightarrow> nat \<Rightarrow> nat \<Rightarrow> nat option" where
  "find_pivot m k col = find (\<lambda>row. m ! row ! col \<noteq> 0) [col..<k]"

definition swap_rows :: "nat \<Rightarrow> nat \<Rightarrow> nat \<Rightarrow> gj \<Rightarrow> gj" where
  "swap_rows k col pivot g =
     (if pivot \<noteq> col then
        let tmp_coeff = take k (mat g ! col);
            m1 = (mat g)[col := memcpy (mat g ! col) (mat g ! pivot) k];
            m2 = m1[pivot := memcpy (m1 ! pivot) tmp_coeff k];
            tmp_data = take MAX_PAYLOAD (dat g ! col);
            d1 = (dat g)[col := memcpy (dat g ! col) (dat g ! pivot) MAX_PAYLOAD];
            d2 = d1[pivot := memcpy (d1 ! pivot) tmp_data MAX_PAYLOAD];
            tmp_len = dlen g ! col;
            l1 = (dlen g)[col := dlen g ! pivot];
            l2 = l1[pivot := tmp_len]
        in g\<lparr>mat := m2, dat := d2, dlen := l2\<rparr>
      else g)"

definition scale_row :: "nat \<Rightarrow> nat \<Rightarrow> gj \<Rightarrow> gj" where
  "scale_row k col g =
     (let inv = gf256_inv (mat g ! col ! col) in
      g\<lparr>mat := (mat g)[col := for_upd k (\<lambda>_. gf256_mul inv) (mat g ! col)],
        dat := (dat g)[col := for_upd (unat (dlen g ! col)) (\<lambda>_. gf256_mul inv) (dat g ! col)]\<rparr>)"

definition eliminate_row :: "nat \<Rightarrow> nat \<Rightarrow> nat \<Rightarrow> gj \<Rightarrow> gj" where
  "eliminate_row k col row g =
     (if row = col \<or> mat g ! row ! col = 0 then g
      else
        let factor = mat g ! row ! col;
            data_len = (if dlen g ! row > dlen g ! col then unat (dlen g ! row)
                        else unat (dlen g ! col))
        in g\<lparr>mat := (mat g)[row := for_upd k (\<lambda>j y. y XOR gf256_mul factor (mat g ! col ! j))
                                          (mat g ! row)],
             dat := (dat g)[row := gf_vec_axpy (dat g ! row) factor (dat g ! col) data_len]\<rparr>)"

definition gauss_col :: "nat \<Rightarrow> nat \<Rightarrow> gj \<Rightarrow> gj option" where
  "gauss_col k col g =
     (case find_pivot (mat g) k col of
        None \<Rightarrow> None
      | Some pivot \<Rightarrow>
          Some (fold (eliminate_row k col) [0..<k] (scale_row k col (swap_rows k col pivot g))))"

definition store_row :: "gj \<Rightarrow> nat \<Rightarrow> bytes list \<times> u16 list \<Rightarrow> bytes list \<times> u16 list" where
  "store_row g i out = (case out of (ob, ol) \<Rightarrow>
     (ob[i := memcpy (ob ! i) (dat g ! i) (unat (dlen g ! i))], ol[i := dlen g ! i]))"

text \<open>\<open>None\<close> is the return value -1; the output arrays are then not written.\<close>

definition decode_block ::
    "gj \<Rightarrow> shard list \<Rightarrow> nat \<Rightarrow> bytes list \<times> u16 list \<Rightarrow> (bytes list \<times> u16 list) option" where
  "decode_block junk shards k out =
     (case for_opt (gauss_col k) [0..<k] (fold (load_row shards k) [0..<k] junk) of
        None \<Rightarrow> None
      | Some g \<Rightarrow> Some (fold (store_row g) [0..<k] out))"

section \<open>Rows as linear forms\<close>

text \<open>
  Row \<open>r\<close> of the matrix, applied to a vector of unknowns, and the residual of the equation
  "row \<open>r\<close> applied to \<open>x\<close> is byte \<open>j\<close> of the row's data".
\<close>

definition row_form :: "nat \<Rightarrow> gj \<Rightarrow> (nat \<Rightarrow> gf) \<Rightarrow> nat \<Rightarrow> gf" where
  "row_form k g x r = (\<Sum>i<k. gf_of (mat g ! r ! i) * x i)"

definition residual :: "nat \<Rightarrow> gj \<Rightarrow> (nat \<Rightarrow> gf) \<Rightarrow> nat \<Rightarrow> nat \<Rightarrow> gf" where
  "residual k g x j r = row_form k g x r + gf_of (dat g ! r ! j)"

text \<open>The arrays are large enough and every row carries \<open>L\<close> bytes of data.\<close>

definition gj_ok :: "nat \<Rightarrow> nat \<Rightarrow> gj \<Rightarrow> bool" where
  "gj_ok k L g \<longleftrightarrow> k \<le> length (mat g) \<and> k \<le> length (dat g) \<and> k \<le> length (dlen g) \<and>
     (\<forall>r<k. k \<le> length (mat g ! r) \<and> L \<le> length (dat g ! r) \<and> unat (dlen g ! r) = L)"

lemma gj_okD:
  assumes "gj_ok k L g"
  shows "k \<le> length (mat g)" "k \<le> length (dat g)" "k \<le> length (dlen g)"
    and "r < k \<Longrightarrow> k \<le> length (mat g ! r)" "r < k \<Longrightarrow> L \<le> length (dat g ! r)"
    and "r < k \<Longrightarrow> unat (dlen g ! r) = L"
  using assms by (auto simp: gj_ok_def)

lemma nth_memcpy_front: "i < n \<Longrightarrow> i < length src \<Longrightarrow> memcpy dst src n ! i = src ! i"
  by (simp add: memcpy_def nth_append)

lemma length_memcpy_ge: "m \<le> length src \<Longrightarrow> m \<le> n \<Longrightarrow> m \<le> length (memcpy dst src n)"
  by (simp add: memcpy_def)

lemma swap_rows_ok:
  assumes "gj_ok k L g" "col < k" "p < k" "L \<le> MAX_PAYLOAD"
  shows "gj_ok k L (swap_rows k col p g)"
  using assms
  by (auto simp: gj_ok_def swap_rows_def Let_def nth_list_update intro!: length_memcpy_ge)

lemma scale_row_ok: "gj_ok k L g \<Longrightarrow> col < k \<Longrightarrow> gj_ok k L (scale_row k col g)"
  by (auto simp: gj_ok_def scale_row_def Let_def nth_list_update)

lemma eliminate_row_ok: "gj_ok k L g \<Longrightarrow> row < k \<Longrightarrow> gj_ok k L (eliminate_row k col row g)"
  by (auto simp: gj_ok_def eliminate_row_def gf_vec_axpy_def Let_def nth_list_update)

text \<open>What each elementary operation does to the entries of the matrix and of the data.\<close>

definition transpose_idx :: "nat \<Rightarrow> nat \<Rightarrow> nat \<Rightarrow> nat" where
  "transpose_idx a b r = (if r = a then b else if r = b then a else r)"

lemma swap_rows_entries:
  assumes "gj_ok k L g" "col < k" "p < k" "L \<le> MAX_PAYLOAD" "r < k"
  shows "i < k \<Longrightarrow> mat (swap_rows k col p g) ! r ! i = mat g ! transpose_idx col p r ! i"
    and "j < L \<Longrightarrow> dat (swap_rows k col p g) ! r ! j = dat g ! transpose_idx col p r ! j"
  using assms gj_okD[OF assms(1)]
  by (auto simp: swap_rows_def Let_def transpose_idx_def nth_list_update nth_memcpy_front
      less_le_trans)

lemma scale_row_entries:
  assumes "gj_ok k L g" "col < k" "r < k"
  shows "i < k \<Longrightarrow> mat (scale_row k col g) ! r ! i =
      (if r = col then gf256_mul (gf256_inv (mat g ! col ! col)) (mat g ! col ! i) else mat g ! r ! i)"
    and "j < L \<Longrightarrow> dat (scale_row k col g) ! r ! j =
      (if r = col then gf256_mul (gf256_inv (mat g ! col ! col)) (dat g ! col ! j) else dat g ! r ! j)"
  using assms gj_okD[OF assms(1)]
  by (auto simp: scale_row_def Let_def nth_list_update nth_for_upd less_le_trans)

lemma eliminate_row_entries:
  assumes "gj_ok k L g" "col < k" "row < k" "r < k" "row \<noteq> col"
  shows "i < k \<Longrightarrow> mat (eliminate_row k col row g) ! r ! i =
      (if r = row then mat g ! row ! i XOR gf256_mul (mat g ! row ! col) (mat g ! col ! i)
       else mat g ! r ! i)"
    and "j < L \<Longrightarrow> dat (eliminate_row k col row g) ! r ! j =
      (if r = row then dat g ! row ! j XOR gf256_mul (mat g ! row ! col) (dat g ! col ! j)
       else dat g ! r ! j)"
  using assms gj_okD[OF assms(1)]
  by (auto simp: eliminate_row_def gf_vec_axpy_def Let_def nth_list_update nth_for_upd less_le_trans)

section \<open>Elementary operations keep the solutions\<close>

text \<open>
  Each operation replaces the equations by equivalent ones: the equations hold after it
  exactly when they held before, for the homogeneous system (\<open>row_form\<close>) and for every byte
  position of the data (\<open>residual\<close>).
\<close>

lemma zeros_transpose:
  assumes "a < k" "b < k"
  shows "(\<forall>r<k. F (transpose_idx a b r) = 0) \<longleftrightarrow> (\<forall>r<k. F r = (0 :: 'a :: zero))"
  using assms unfolding transpose_idx_def by metis

lemma zeros_axpy:
  assumes "row < k" "c < k" "row \<noteq> c"
  shows "(\<forall>r<k. (if r = row then F row + f * F c else F r) = 0) \<longleftrightarrow> (\<forall>r<k. F r = (0 :: gf))"
  using assms by (metis add_0_right mult_zero_right)

lemma row_form_swap:
  assumes "gj_ok k L g" "col < k" "p < k" "L \<le> MAX_PAYLOAD" "r < k"
  shows "row_form k (swap_rows k col p g) x r = row_form k g x (transpose_idx col p r)"
  unfolding row_form_def using swap_rows_entries(1)[OF assms] by (intro sum.cong) simp_all

lemma row_form_scale:
  assumes "gj_ok k L g" "col < k" "r < k"
  shows "row_form k (scale_row k col g) x r =
    (if r = col then inverse (gf_of (mat g ! col ! col)) * row_form k g x r else row_form k g x r)"
  using assms gj_okD(1,4)[OF assms(1)]
  by (auto simp: row_form_def scale_row_def Let_def gf.linear_scale gf.val_inv)

lemma row_form_eliminate:
  assumes "gj_ok k L g" "col < k" "row < k" "r < k" "row \<noteq> col"
  shows "row_form k (eliminate_row k col row g) x r =
    (if r = row then row_form k g x row + gf_of (mat g ! row ! col) * row_form k g x col
     else row_form k g x r)"
  using assms gj_okD(1,4)[OF assms(1)]
  by (auto simp: row_form_def eliminate_row_def Let_def gf.linear_axpy gf.val_0)

lemma residual_swap:
  assumes "gj_ok k L g" "col < k" "p < k" "L \<le> MAX_PAYLOAD" "r < k" "j < L"
  shows "residual k (swap_rows k col p g) x j r = residual k g x j (transpose_idx col p r)"
  using assms by (simp add: residual_def row_form_swap swap_rows_entries(2))

lemma residual_scale:
  assumes "gj_ok k L g" "col < k" "r < k" "j < L"
  shows "residual k (scale_row k col g) x j r =
    (if r = col then inverse (gf_of (mat g ! col ! col)) * residual k g x j r
     else residual k g x j r)"
  using assms
  by (simp add: residual_def row_form_scale scale_row_entries(2) gf.val_mul gf.val_inv
      distrib_left)

lemma residual_eliminate:
  assumes "gj_ok k L g" "col < k" "row < k" "r < k" "row \<noteq> col" "j < L"
  shows "residual k (eliminate_row k col row g) x j r =
    (if r = row then residual k g x j row + gf_of (mat g ! row ! col) * residual k g x j col
     else residual k g x j r)"
  using assms
  by (simp add: residual_def row_form_eliminate eliminate_row_entries(2) gf.val_mul gf.val_xor
      distrib_left)

text \<open>Two systems of \<open>k\<close> rows with \<open>L\<close> bytes of data that have the same solutions.\<close>

definition same_solutions :: "nat \<Rightarrow> nat \<Rightarrow> gj \<Rightarrow> gj \<Rightarrow> bool" where
  "same_solutions k L g h \<longleftrightarrow>
     (\<forall>x. (\<forall>r<k. row_form k h x r = 0) \<longleftrightarrow> (\<forall>r<k. row_form k g x r = 0)) \<and>
     (\<forall>x. \<forall>j<L. (\<forall>r<k. residual k h x j r = 0) \<longleftrightarrow> (\<forall>r<k. residual k g x j r = 0))"

lemma same_solutions_refl: "same_solutions k L g g"
  by (simp add: same_solutions_def)

lemma same_solutions_trans:
  "same_solutions k L g h \<Longrightarrow> same_solutions k L h i \<Longrightarrow> same_solutions k L g i"
  by (simp add: same_solutions_def)

lemma same_solutionsD:
  assumes "same_solutions k L g h"
  shows "(\<forall>r<k. row_form k h x r = 0) \<longleftrightarrow> (\<forall>r<k. row_form k g x r = 0)"
    and "j < L \<Longrightarrow> (\<forall>r<k. residual k h x j r = 0) \<longleftrightarrow> (\<forall>r<k. residual k g x j r = 0)"
  using assms unfolding same_solutions_def by blast+

lemma swap_rows_solutions:
  assumes "gj_ok k L g" "col < k" "p < k" "L \<le> MAX_PAYLOAD"
  shows "same_solutions k L g (swap_rows k col p g)"
  using assms
  by (simp add: same_solutions_def row_form_swap residual_swap
      zeros_transpose[where F = "row_form k g x" for x]
      zeros_transpose[where F = "residual k g x j" for x j])

lemma scale_row_solutions:
  assumes "gj_ok k L g" "col < k" "mat g ! col ! col \<noteq> 0"
  shows "same_solutions k L g (scale_row k col g)"
  using assms
  by (auto simp: same_solutions_def row_form_scale residual_scale gf.val_eq_0_iff
      split: if_splits)

lemma eliminate_row_solutions:
  assumes "gj_ok k L g" "col < k" "row < k"
  shows "same_solutions k L g (eliminate_row k col row g)"
proof (cases "row = col")
  case True
  then show ?thesis by (simp add: eliminate_row_def same_solutions_refl)
next
  case False
  with assms show ?thesis
    by (simp add: same_solutions_def row_form_eliminate residual_eliminate
        zeros_axpy[where F = "row_form k g x" for x]
        zeros_axpy[where F = "residual k g x j" for x j] cong: if_cong)
qed

section \<open>The columns already processed\<close>

text \<open>After column \<open>c\<close> is processed the first \<open>c\<close> columns are unit vectors.\<close>

definition unit_cols :: "nat \<Rightarrow> nat \<Rightarrow> gj \<Rightarrow> bool" where
  "unit_cols k c g \<longleftrightarrow> (\<forall>i<c. \<forall>r<k. mat g ! r ! i = (if r = i then 1 else 0))"

lemma swap_rows_unit:
  assumes "gj_ok k L g" "unit_cols k col g" "col < k" "col \<le> p" "p < k" "L \<le> MAX_PAYLOAD"
  shows "unit_cols k col (swap_rows k col p g)"
  using assms by (auto simp: unit_cols_def swap_rows_entries(1) transpose_idx_def)

lemma scale_row_unit:
  assumes "gj_ok k L g" "unit_cols k col g" "col < k" "mat g ! col ! col \<noteq> 0"
  shows "unit_cols k col (scale_row k col g)" "mat (scale_row k col g) ! col ! col = 1"
  using assms by (auto simp: unit_cols_def scale_row_entries(1) gf.mul_inv_self)

lemma eliminate_fold_unit:
  assumes "gj_ok k L g" "unit_cols k col g" "col < k" "mat g ! col ! col = 1"
  defines "h \<equiv> fold (eliminate_row k col) [0..<k] g"
  shows "gj_ok k L h \<and> unit_cols k (Suc col) h \<and> same_solutions k L g h"
proof -
  let ?P = "\<lambda>t h. gj_ok k L h \<and> unit_cols k col h \<and> mat h ! col ! col = 1 \<and>
              (\<forall>r<t. r \<noteq> col \<longrightarrow> mat h ! r ! col = 0) \<and> same_solutions k L g h"
  have "?P k h"
    unfolding h_def
  proof (rule fold_invariant_upt[where P = ?P])
    show "?P 0 g" using assms by (simp add: same_solutions_refl)
  next
    fix row h assume row: "row < k" and h: "?P row h"
    then have ok: "gj_ok k L (eliminate_row k col row h)"
      and sols: "same_solutions k L g (eliminate_row k col row h)"
      using assms(3) eliminate_row_ok eliminate_row_solutions same_solutions_trans by blast+
    have "unit_cols k col (eliminate_row k col row h) \<and> mat (eliminate_row k col row h) ! col ! col = 1 \<and>
        (\<forall>r<Suc row. r \<noteq> col \<longrightarrow> mat (eliminate_row k col row h) ! r ! col = 0)"
    proof (cases "row = col")
      case True
      then show ?thesis using h by (auto simp: eliminate_row_def less_Suc_eq)
    next
      case False
      with h row assms(3) show ?thesis
        by (auto simp: unit_cols_def eliminate_row_entries(1) less_Suc_eq)
    qed
    with ok sols show "?P (Suc row) (eliminate_row k col row h)" by blast
  qed simp
  then show ?thesis by (auto simp: unit_cols_def less_Suc_eq)
qed

lemma find_pivot_Some:
  assumes "find_pivot m k col = Some p"
  shows "col \<le> p" "p < k" "m ! p ! col \<noteq> 0"
  using assms by (auto simp: find_pivot_def find_Some_iff)

lemma find_pivot_None: "find_pivot m k col = None \<longleftrightarrow> (\<forall>r. col \<le> r \<and> r < k \<longrightarrow> m ! r ! col = 0)"
  by (auto simp: find_pivot_def find_None_iff)

lemma gauss_col_step:
  assumes "gauss_col k col g = Some h" "gj_ok k L g" "unit_cols k col g" "col < k" "L \<le> MAX_PAYLOAD"
  shows "gj_ok k L h \<and> unit_cols k (Suc col) h \<and> same_solutions k L g h"
proof -
  obtain p where p: "find_pivot (mat g) k col = Some p"
    and h: "h = fold (eliminate_row k col) [0..<k] (scale_row k col (swap_rows k col p g))"
    using assms(1) by (auto simp: gauss_col_def split: option.splits)
  note piv = find_pivot_Some[OF p]
  let ?s = "swap_rows k col p g" and ?c = "scale_row k col (swap_rows k col p g)"
  have s: "gj_ok k L ?s" "unit_cols k col ?s" "mat ?s ! col ! col \<noteq> 0" "same_solutions k L g ?s"
    using assms piv swap_rows_ok swap_rows_unit swap_rows_solutions
    by (auto simp: swap_rows_entries(1) transpose_idx_def)
  have c: "gj_ok k L ?c" "unit_cols k col ?c" "mat ?c ! col ! col = 1" "same_solutions k L ?s ?c"
    using s assms(4) scale_row_ok scale_row_unit scale_row_solutions by auto
  show ?thesis
    using eliminate_fold_unit[OF c(1,2) assms(4) c(3)] c(4) s(4) same_solutions_trans
    unfolding h by blast
qed

lemma gauss_cols:
  assumes "for_opt (gauss_col k) [0..<c] g = Some h" "c \<le> k" "gj_ok k L g" "L \<le> MAX_PAYLOAD"
  shows "gj_ok k L h \<and> unit_cols k c h \<and> same_solutions k L g h"
proof (rule for_opt_invariant[where P = "\<lambda>c h. gj_ok k L h \<and> unit_cols k c h \<and> same_solutions k L g h",
      OF _ _ assms(1)])
  show "gj_ok k L g \<and> unit_cols k 0 g \<and> same_solutions k L g g"
    using assms by (simp add: unit_cols_def same_solutions_refl)
next
  fix i s s' assume "i < c" "gj_ok k L s \<and> unit_cols k i s \<and> same_solutions k L g s"
    "gauss_col k i s = Some s'"
  then show "gj_ok k L s' \<and> unit_cols k (Suc i) s' \<and> same_solutions k L g s'"
    using gauss_col_step assms(2,4) same_solutions_trans by (meson order_less_le_trans)
qed simp

text \<open>With all columns processed the matrix is the identity and the data is the solution.\<close>

lemma row_form_identity:
  assumes "unit_cols k k g" "r < k"
  shows "row_form k g x r = x r"
proof -
  have "row_form k g x r = (\<Sum>i<k. if i = r then x i else 0)"
    unfolding row_form_def using assms
    by (intro sum.cong) (auto simp: unit_cols_def gf.val_0 gf.val_1)
  also have "\<dots> = x r" using assms(2) by simp
  finally show ?thesis .
qed

text \<open>A column without a pivot: its entries above give a non-zero solution of the homogeneous system.\<close>

lemma stuck_kernel:
  assumes "unit_cols k col g" "col < k" "find_pivot (mat g) k col = None"
  defines "x \<equiv> \<lambda>i. if i < col then gf_of (mat g ! i ! col) else if i = col then 1 else 0"
  shows "\<forall>r<k. row_form k g x r = 0" "x col \<noteq> 0"
proof -
  show "x col \<noteq> 0" by (simp add: x_def)
  show "\<forall>r<k. row_form k g x r = 0"
  proof (intro allI impI)
    fix r assume r: "r < k"
    have "row_form k g x r = (\<Sum>i<k. (if i = col then gf_of (mat g ! r ! col) else 0) +
        (if i = r then (if r < col then gf_of (mat g ! r ! col) else 0) else 0))"
      unfolding row_form_def using assms(1) r
      by (intro sum.cong) (auto simp: x_def unit_cols_def gf.val_0 gf.val_1)
    also have "\<dots> = gf_of (mat g ! r ! col) + (if r < col then gf_of (mat g ! r ! col) else 0)"
      using assms(2) r by (simp add: sum.distrib)
    also have "\<dots> = 0"
      using assms(3) r by (simp add: find_pivot_None gf.val_add_self gf.val_0)
    finally show "row_form k g x r = 0" .
  qed
qed

section \<open>Decoding is sound, and fails exactly when the shards do not determine the source\<close>

text \<open>
  \<open>carries k L src sh\<close>: the shard is the linear combination of the \<open>L\<close>-byte source packets
  that its coefficients say. \<open>determines k shards\<close>: the coefficients of the first \<open>k\<close> shards
  have no non-zero source in their kernel, so at most one source fits them.
\<close>

definition carries :: "nat \<Rightarrow> nat \<Rightarrow> bytes list \<Rightarrow> shard \<Rightarrow> bool" where
  "carries k L src sh \<longleftrightarrow> k \<le> length (coeffs sh) \<and> L \<le> length (data sh) \<and> unat (len sh) = L \<and>
     (\<forall>j<L. (\<Sum>i<k. gf_of (coeffs sh ! i) * gf_of (src ! i ! j)) = gf_of (data sh ! j))"

definition determines :: "nat \<Rightarrow> shard list \<Rightarrow> bool" where
  "determines k shards \<longleftrightarrow>
     (\<forall>x. (\<forall>r<k. (\<Sum>i<k. gf_of (coeffs (shards ! r) ! i) * x i) = 0) \<longrightarrow> (\<forall>i<k. x i = 0))"

text \<open>Shards as received: enough coefficients, \<open>L\<close> bytes of data each.\<close>

definition shard_ok :: "nat \<Rightarrow> nat \<Rightarrow> shard \<Rightarrow> bool" where
  "shard_ok k L sh \<longleftrightarrow> k \<le> length (coeffs sh) \<and> L \<le> length (data sh) \<and> unat (len sh) = L"

lemma carries_shard_ok: "carries k L src sh \<Longrightarrow> shard_ok k L sh"
  by (simp add: carries_def shard_ok_def)

text \<open>The local arrays of \<open>decode_block\<close> are large enough for \<open>k\<close> rows of \<open>L\<close> bytes.\<close>

definition room :: "nat \<Rightarrow> nat \<Rightarrow> gj \<Rightarrow> bool" where
  "room k L g \<longleftrightarrow> k \<le> length (mat g) \<and> k \<le> length (dat g) \<and> k \<le> length (dlen g) \<and>
     (\<forall>r<k. k \<le> length (mat g ! r) \<and> L \<le> length (dat g ! r))"

abbreviation loaded :: "gj \<Rightarrow> shard list \<Rightarrow> nat \<Rightarrow> gj" where
  "loaded junk shards k \<equiv> fold (load_row shards k) [0..<k] junk"

lemma load_rows:
  assumes "room k L junk" "\<And>r. r < k \<Longrightarrow> shard_ok k L (shards ! r)"
  defines "g \<equiv> loaded junk shards k"
  shows "gj_ok k L g \<and> (\<forall>r<k. (\<forall>i<k. mat g ! r ! i = coeffs (shards ! r) ! i) \<and>
           (\<forall>j<L. dat g ! r ! j = data (shards ! r) ! j))"
proof -
  let ?P = "\<lambda>t g. room k L g \<and> (\<forall>r<t. unat (dlen g ! r) = L \<and>
      (\<forall>i<k. mat g ! r ! i = coeffs (shards ! r) ! i) \<and> (\<forall>j<L. dat g ! r ! j = data (shards ! r) ! j))"
  have "?P k g"
    unfolding g_def
  proof (rule fold_invariant_upt[where P = ?P])
    fix t h assume t: "t < k" and h: "?P t h"
    have "room k L (load_row shards k t h)"
      using h t assms(2)[OF t]
      by (auto simp: room_def load_row_def shard_ok_def nth_list_update intro!: length_memcpy_ge)
    then show "?P (Suc t) (load_row shards k t h)"
      using h t assms(2)[OF t]
      by (auto simp: room_def load_row_def shard_ok_def less_Suc_eq nth_memcpy_front)
  qed (use assms(1) in auto)
  then show ?thesis by (auto simp: gj_ok_def room_def)
qed

lemma loaded_row_form:
  assumes "room k L junk" "\<And>r. r < k \<Longrightarrow> shard_ok k L (shards ! r)" "r < k"
  shows "row_form k (loaded junk shards k) x r = (\<Sum>i<k. gf_of (coeffs (shards ! r) ! i) * x i)"
  using load_rows[OF assms(1,2)] assms(3) by (simp add: row_form_def)

lemma store_rows:
  assumes "k \<le> length ob" "k \<le> length ol" "gj_ok k L g"
  defines "out \<equiv> fold (store_row g) [0..<k] (ob, ol)"
  shows "\<forall>r<k. snd out ! r = dlen g ! r \<and> (\<forall>j<L. fst out ! r ! j = dat g ! r ! j) \<and>
           L \<le> length (fst out ! r)"
proof -
  let ?P = "\<lambda>t (out :: bytes list \<times> u16 list). k \<le> length (fst out) \<and> k \<le> length (snd out) \<and>
      (\<forall>r<t. snd out ! r = dlen g ! r \<and> (\<forall>j<L. fst out ! r ! j = dat g ! r ! j) \<and>
           L \<le> length (fst out ! r))"
  have "?P k out"
    unfolding out_def
  proof (rule fold_invariant_upt[where P = ?P])
    fix t out assume "t < k" "?P t out"
    then show "?P (Suc t) (store_row g t out)"
      using gj_okD(5,6)[OF assms(3), of t]
      by (cases out)
         (auto simp: store_row_def less_Suc_eq nth_memcpy_front intro!: length_memcpy_ge)
  qed (use assms in auto)
  then show ?thesis by simp
qed

lemma for_opt_None:
  "for_opt f [0..<n] s = None \<Longrightarrow>
     \<exists>c<n. \<exists>t. for_opt f [0..<c] s = Some t \<and> f c t = None"
proof (induction n)
  case (Suc n)
  show ?case
  proof (cases "for_opt f [0..<n] s")
    case None
    then show ?thesis using Suc.IH less_SucI by metis
  next
    case (Some t)
    then show ?thesis using Suc.prems by (auto simp: for_opt_append split: option.splits)
  qed
qed simp

lemma decode_Some:
  assumes "decode_block junk shards k (ob0, ol0) = Some (ob, ol)"
    and "room k L junk" "\<And>r. r < k \<Longrightarrow> shard_ok k L (shards ! r)" "L \<le> MAX_PAYLOAD"
    and "k \<le> length ob0" "k \<le> length ol0"
  obtains h where "gj_ok k L h" "unit_cols k k h" "same_solutions k L (loaded junk shards k) h"
    "\<And>r. r < k \<Longrightarrow> ol ! r = dlen h ! r \<and> (\<forall>j<L. ob ! r ! j = dat h ! r ! j) \<and> L \<le> length (ob ! r)"
proof -
  obtain h where h: "for_opt (gauss_col k) [0..<k] (loaded junk shards k) = Some h"
    and out: "(ob, ol) = fold (store_row h) [0..<k] (ob0, ol0)"
    using assms(1) by (auto simp: decode_block_def split: option.splits)
  have "gj_ok k L (loaded junk shards k)" using load_rows[OF assms(2,3)] by blast
  from gauss_cols[OF h _ this assms(4)]
  have g: "gj_ok k L h" "unit_cols k k h" "same_solutions k L (loaded junk shards k) h" by auto
  show ?thesis
    using store_rows[OF assms(5,6) g(1)] out[symmetric] by (intro that[OF g]) auto
qed

theorem decode_recovers:
  assumes "decode_block junk shards k (ob0, ol0) = Some (ob, ol)"
    and "room k L junk" "L \<le> MAX_PAYLOAD" "k \<le> length ob0" "k \<le> length ol0"
    and carry: "\<And>r. r < k \<Longrightarrow> carries k L src (shards ! r)"
    and "i < k"
  shows "unat (ol ! i) = L" "L \<le> length (ob ! i)" "j < L \<Longrightarrow> ob ! i ! j = src ! i ! j"
proof -
  have ok: "\<And>r. r < k \<Longrightarrow> shard_ok k L (shards ! r)" using carry carries_shard_ok by blast
  obtain h where h: "gj_ok k L h" "unit_cols k k h" "same_solutions k L (loaded junk shards k) h"
    and out: "\<And>r. r < k \<Longrightarrow> ol ! r = dlen h ! r \<and> (\<forall>j<L. ob ! r ! j = dat h ! r ! j) \<and> L \<le> length (ob ! r)"
    using decode_Some[OF assms(1,2) ok assms(3-5)] by metis
  show "unat (ol ! i) = L" "L \<le> length (ob ! i)"
    using out[OF assms(7)] gj_okD(6)[OF h(1) assms(7)] by auto
  show "ob ! i ! j = src ! i ! j" if j: "j < L"
  proof -
    let ?x = "\<lambda>i. gf_of (src ! i ! j)"
    have "\<forall>r<k. residual k (loaded junk shards k) ?x j r = 0"
      using load_rows[OF assms(2) ok] carry j
      by (simp add: residual_def loaded_row_form[OF assms(2) ok] carries_def gf.val_add_self)
    then have "residual k h ?x j i = 0"
      using same_solutionsD(2)[OF h(3) j] assms(7) by blast
    then have "gf_of (src ! i ! j) + gf_of (dat h ! i ! j) = 0"
      using row_form_identity[OF h(2) assms(7)] by (simp add: residual_def)
    then have "src ! i ! j = dat h ! i ! j" by (simp only: gf.val_sum_0_iff)
    then show ?thesis using out[OF assms(7)] j by simp
  qed
qed

theorem decode_succeeds_iff:
  assumes "room k L junk" "L \<le> MAX_PAYLOAD" "\<And>r. r < k \<Longrightarrow> shard_ok k L (shards ! r)"
    and "k \<le> length ob0" "k \<le> length ol0"
  shows "decode_block junk shards k (ob0, ol0) \<noteq> None \<longleftrightarrow> determines k shards"
proof
  assume "decode_block junk shards k (ob0, ol0) \<noteq> None"
  then obtain ob ol where "decode_block junk shards k (ob0, ol0) = Some (ob, ol)" by auto
  from decode_Some[OF this assms(1,3,2,4,5)] obtain h where
    h: "unit_cols k k h" "same_solutions k L (loaded junk shards k) h" by metis
  show "determines k shards"
    unfolding determines_def
  proof (intro allI impI)
    fix x i assume x: "\<forall>r<k. (\<Sum>i<k. gf_of (coeffs (shards ! r) ! i) * x i) = 0" and i: "i < k"
    then have "\<forall>r<k. row_form k (loaded junk shards k) x r = 0"
      by (simp add: loaded_row_form[OF assms(1,3)])
    then have "\<forall>r<k. row_form k h x r = 0" using same_solutionsD(1)[OF h(2)] by blast
    then show "x i = 0" using row_form_identity[OF h(1) i] i by metis
  qed
next
  assume det: "determines k shards"
  show "decode_block junk shards k (ob0, ol0) \<noteq> None"
  proof
    assume "decode_block junk shards k (ob0, ol0) = None"
    then have "for_opt (gauss_col k) [0..<k] (loaded junk shards k) = None"
      by (auto simp: decode_block_def split: option.splits)
    from for_opt_None[OF this] obtain c g where c: "c < k"
      "for_opt (gauss_col k) [0..<c] (loaded junk shards k) = Some g" "gauss_col k c g = None"
      by auto
    have "gj_ok k L (loaded junk shards k)" using load_rows[OF assms(1,3)] by blast
    from gauss_cols[OF c(2) _ this assms(2)] c(1)
    have g: "unit_cols k c g" "same_solutions k L (loaded junk shards k) g" by auto
    have "find_pivot (mat g) k c = None"
      using c(3) by (auto simp: gauss_col_def split: option.splits)
    from stuck_kernel[OF g(1) c(1) this] obtain x :: "nat \<Rightarrow> gf"
      where x: "\<forall>r<k. row_form k g x r = 0" "x c \<noteq> 0" by blast
    have "\<forall>r<k. row_form k (loaded junk shards k) x r = 0"
      using x(1) same_solutionsD(1)[OF g(2)] by blast
    then have "\<forall>r<k. (\<Sum>i<k. gf_of (coeffs (shards ! r) ! i) * x i) = 0"
      by (simp add: loaded_row_form[OF assms(1,3)])
    then show False using det x(2) c(1) unfolding determines_def by blast
  qed
qed

section \<open>What the encoder produces\<close>

lemma rand_coeff_nonzero: "rand_coeff r \<noteq> 0"
  by (simp add: rand_coeff_def Let_def)

lemma max_src_len_upper: "i < k \<Longrightarrow> src_len ! i \<le> max_src_len src_len k"
proof -
  have "\<forall>i<k. src_len ! i \<le> max_src_len src_len k"
    unfolding max_src_len_def
    by (rule fold_invariant_upt[where P = "\<lambda>t m. \<forall>i<t. src_len ! i \<le> m"])
       (auto simp: less_Suc_eq intro: order_trans less_imp_le)
  then show "i < k \<Longrightarrow> src_len ! i \<le> max_src_len src_len k" by blast
qed

text \<open>
  The arrays of a block as the caller passes them: rows of at least \<open>L\<close> bytes, the bytes
  past a packet's length zero up to the longest length \<open>L\<close>.
\<close>

definition padded :: "nat \<Rightarrow> bytes list \<Rightarrow> u16 list \<Rightarrow> bool" where
  "padded k src src_len \<longleftrightarrow>
     (\<forall>i<k. unat (max_src_len src_len k) \<le> length (src ! i) \<and>
       (\<forall>j. unat (src_len ! i) \<le> j \<and> j < unat (max_src_len src_len k) \<longrightarrow> src ! i ! j = 0))"

definition shard_room :: "nat \<Rightarrow> nat \<Rightarrow> shard \<Rightarrow> bool" where
  "shard_room k L sh \<longleftrightarrow> k \<le> length (coeffs sh) \<and> L \<le> length (data sh)"

definition coded :: "nat \<Rightarrow> nat \<Rightarrow> bytes list \<Rightarrow> nat \<Rightarrow> shard \<Rightarrow> bool" where
  "coded k L src s sh \<longleftrightarrow> carries k L src sh \<and>
     (if s < k then \<forall>i<k. coeffs sh ! i = (if i = s then 1 else 0)
      else \<forall>i<k. coeffs sh ! i \<noteq> 0)"

lemma encode_combine_loop:
  assumes "shard_room k L s0" "unat (len s0) = L" "\<And>j. j < L \<Longrightarrow> data s0 ! j = 0"
  shows "case fold (encode_combine src L rnd) [0..<k] (s0, c) of (sh, c') \<Rightarrow>
    carries k L src sh \<and> (\<forall>i<k. coeffs sh ! i \<noteq> 0) \<and> c' = c + k"
proof -
  let ?P = "\<lambda>t (sh, c'). shard_room k L sh \<and> unat (len sh) = L \<and> (\<forall>i<t. coeffs sh ! i \<noteq> 0) \<and>
    c' = c + t \<and> (\<forall>j<L. (\<Sum>i<t. gf_of (coeffs sh ! i) * gf_of (src ! i ! j)) = gf_of (data sh ! j))"
  have "?P k (fold (encode_combine src L rnd) [0..<k] (s0, c))"
  proof (rule fold_invariant_upt[where P = ?P])
    show "?P 0 (s0, c)" using assms by (simp add: gf.val_0)
  next
    fix t :: nat and sc assume t: "t < k" and inv: "?P t sc"
    then show "?P (Suc t) (encode_combine src L rnd t sc)"
      by (cases sc)
         (auto simp: encode_combine_def Let_def shard_room_def gf_vec_axpy_def nth_list_update
           rand_coeff_nonzero less_Suc_eq nth_for_upd gf.val_xor gf.val_mul add.commute)
  qed simp
  then show ?thesis by (auto simp: carries_def shard_room_def)
qed

lemma encode_shard_coded:
  assumes "padded k src src_len" "s < n" "k \<le> n"
    and "L = unat (max_src_len src_len k)" "shard_room k L out"
  shows "coded k L src s (fst (encode_shard src src_len k (max_src_len src_len k) rnd s out c))"
proof (cases "s < k")
  case True
  let ?sh = "fst (encode_shard src src_len k (max_src_len src_len k) rnd s out c)"
  have le: "unat (src_len ! s) \<le> L"
    using max_src_len_upper[OF True] assms(4) by (simp add: word_le_nat_alt)
  have pad: "L \<le> length (src ! s)" "\<And>j. unat (src_len ! s) \<le> j \<Longrightarrow> j < L \<Longrightarrow> src ! s ! j = 0"
    using assms(1,4) True by (auto simp: padded_def)
  have coef: "coeffs ?sh ! i = (if i = s then 1 else 0)" if "i < k" for i
    using that True assms(5)
    by (simp add: encode_shard_def Let_def shard_room_def nth_list_update mem)
  have dat: "data ?sh ! j = src ! s ! j" if "j < L" for j
    using that True assms(4,5) le pad
    by (simp add: encode_shard_def Let_def shard_room_def mem)
  have "carries k L src ?sh"
  proof -
    have "(\<Sum>i<k. gf_of (coeffs ?sh ! i) * gf_of (src ! i ! j)) = gf_of (data ?sh ! j)" if "j < L" for j
    proof -
      have "(\<Sum>i<k. gf_of (coeffs ?sh ! i) * gf_of (src ! i ! j)) =
          (\<Sum>i<k. if i = s then gf_of (src ! i ! j) else 0)"
        by (intro sum.cong) (auto simp: coef gf.val_0 gf.val_1)
      then show ?thesis using True dat[OF that] by simp
    qed
    then show ?thesis
      using True assms(4,5) le pad
      by (simp add: carries_def encode_shard_def Let_def shard_room_def mem)
  qed
  then show ?thesis using True coef by (simp add: coded_def)
next
  case False
  let ?o = "out\<lparr>data := memset (data out) 0 L, len := max_src_len src_len k, coeffs := memset (coeffs out) 0 k\<rparr>"
  have "shard_room k L ?o" "unat (len ?o) = L" "\<And>j. j < L \<Longrightarrow> data ?o ! j = 0"
    using assms(4,5) by (auto simp: shard_room_def mem)
  from encode_combine_loop[OF this, where src = src and rnd = rnd and c = c] show ?thesis
    using False assms(4) by (auto simp: coded_def encode_shard_def Let_def split: prod.splits)
qed

theorem encode_block_coded:
  assumes "padded k src src_len" "k \<le> n" "n \<le> length out"
    and "\<And>s. s < n \<Longrightarrow> shard_room k (unat (max_src_len src_len k)) (out ! s)"
    and "s < n"
  shows "coded k (unat (max_src_len src_len k)) src s (fst (encode_block src src_len k n rnd out c) ! s)"
proof -
  let ?L = "unat (max_src_len src_len k)"
  let ?P = "\<lambda>t (o', c'). length o' = length out \<and> (\<forall>s. t \<le> s \<and> s < n \<longrightarrow> o' ! s = out ! s) \<and>
      (\<forall>s<t. coded k ?L src s (o' ! s))"
  have "?P n (encode_block src src_len k n rnd out c)"
    unfolding encode_block_def Let_def
  proof (rule fold_invariant_upt[where P = ?P])
    fix t :: nat and oc :: "shard list \<times> nat"
    assume t: "t < n" and inv: "?P t oc"
    obtain o' c' where oc: "oc = (o', c')" by (cases oc)
    have "coded k ?L src t (fst (encode_shard src src_len k (max_src_len src_len k) rnd t (out ! t) c'))"
      using assms t by (intro encode_shard_coded[where n = n]) auto
    then show "?P (Suc t) ((\<lambda>(out, c). case encode_shard src src_len k (max_src_len src_len k) rnd t (out ! t) c of
        (sh, c') \<Rightarrow> (out[t := sh], c')) oc)"
      using inv t assms(3) unfolding oc
      by (auto simp: less_Suc_eq nth_list_update split: prod.splits)
  qed auto
  then show ?thesis using assms(5) by (auto split: prod.splits)
qed

section \<open>From the encoder to the decoder\<close>

text \<open>
  \<open>block_ok\<close> collects what the callers of \<open>encode_block\<close> and \<open>decode_block\<close> provide: padded
  packets, \<open>k \<le> n\<close>, and arrays large enough for \<open>k\<close> rows of the longest packet's length.
\<close>

definition block_ok ::
    "nat \<Rightarrow> nat \<Rightarrow> bytes list \<Rightarrow> u16 list \<Rightarrow> shard list \<Rightarrow> gj \<Rightarrow> bytes list \<times> u16 list \<Rightarrow> bool" where
  "block_ok k n src src_len out junk o0 \<longleftrightarrow>
     padded k src src_len \<and> k \<le> n \<and> n \<le> length out \<and>
     unat (max_src_len src_len k) \<le> MAX_PAYLOAD \<and>
     (\<forall>s<n. shard_room k (unat (max_src_len src_len k)) (out ! s)) \<and>
     room k (unat (max_src_len src_len k)) junk \<and>
     k \<le> length (fst o0) \<and> k \<le> length (snd o0)"

text \<open>The shards with the indices \<open>sel\<close>, in the order of \<open>sel\<close>: what arrived of a block.\<close>

definition arrived :: "shard list \<Rightarrow> nat list \<Rightarrow> shard list" where
  "arrived out sel = map (\<lambda>i. out ! i) sel"

lemma arrived_coded:
  assumes "block_ok k n src src_len out junk o0" "length sel = k" "\<forall>s\<in>set sel. s < n" "r < k"
  shows "coded k (unat (max_src_len src_len k)) src (sel ! r)
           (arrived (fst (encode_block src src_len k n rnd out c)) sel ! r)"
  using assms by (simp add: arrived_def block_ok_def encode_block_coded)

lemma block_roundtrip:
  assumes ok: "block_ok k n src src_len out junk o0"
    and sel: "length sel = k" "\<forall>s\<in>set sel. s < n"
    and dec: "decode_block junk (arrived (fst (encode_block src src_len k n rnd out c)) sel) k o0 = Some (ob, ol)"
    and i: "i < k"
  shows "ol ! i = max_src_len src_len k \<and>
    take (unat (max_src_len src_len k)) (ob ! i) = take (unat (max_src_len src_len k)) (src ! i)"
proof -
  let ?L = "unat (max_src_len src_len k)"
  obtain ob0 ol0 where o0: "o0 = (ob0, ol0)" by (cases o0)
  have carry: "carries k ?L src (arrived (fst (encode_block src src_len k n rnd out c)) sel ! r)" if "r < k" for r
    using arrived_coded[OF ok sel that] by (simp add: coded_def)
  note rec = decode_recovers[OF dec[unfolded o0] _ _ _ _ carry i]
  have bounds: "room k ?L junk" "?L \<le> MAX_PAYLOAD" "k \<le> length ob0" "k \<le> length ol0"
    and src: "?L \<le> length (src ! i)"
    using ok i by (auto simp: block_ok_def o0 padded_def)
  have "ol ! i = max_src_len src_len k"
    using rec(1)[OF bounds] by (simp only: word_unat_eq_iff)
  moreover have "take ?L (ob ! i) = take ?L (src ! i)"
    using rec(2,3)[OF bounds] src by (intro nth_equalityI) auto
  ultimately show ?thesis by blast
qed

lemma systematic_form:
  assumes "coded k L src s sh" "s < k"
  shows "(\<Sum>i<k. gf_of (coeffs sh ! i) * x i) = x s"
proof -
  have "(\<Sum>i<k. gf_of (coeffs sh ! i) * x i) = (\<Sum>i<k. if i = s then x i else 0)"
    using assms by (intro sum.cong) (auto simp: coded_def gf.val_0 gf.val_1)
  then show ?thesis using assms(2) by simp
qed

lemma missing_systematic:
  assumes "distinct sel" "length sel = (k :: nat)" "length (filter (\<lambda>s. k \<le> s) sel) \<le> 1"
    and "i < k" "i \<notin> set sel"
  shows "{..<k} - set sel = {i}" "\<exists>r<k. k \<le> sel ! r"
proof -
  let ?S = "set (filter (\<lambda>s. s < k) sel)"
  have "length (filter (\<lambda>s. s < k) sel) + length (filter (\<lambda>s. k \<le> s) sel) = k"
    using sum_length_filter_compl[of "\<lambda>s. s < k" sel] assms(2) by (simp add: not_less)
  moreover have "card ?S = length (filter (\<lambda>s. s < k) sel)"
    by (rule distinct_card) (simp add: assms(1))
  ultimately have "k - 1 \<le> card ?S" using assms(3) by linarith
  moreover have "card ({..<k} - ?S) = k - card ?S" by (subst card_Diff_subset) auto
  moreover have "{..<k} - set sel = {..<k} - ?S" by auto
  ultimately have "card ({..<k} - set sel) \<le> 1" by simp
  then show one: "{..<k} - set sel = {i}"
    using assms(4,5) by (auto simp: card_le_Suc0_iff_eq)
  show "\<exists>r<k. k \<le> sel ! r"
  proof (rule ccontr)
    assume "\<not> (\<exists>r<k. k \<le> sel ! r)"
    then have "set sel \<subseteq> {..<k}" using assms(2) by (auto simp: in_set_conv_nth not_le)
    moreover have "card (set sel) = k" using assms(1,2) by (simp add: distinct_card)
    ultimately have "set sel = {..<k}" by (intro card_subset_eq) auto
    then show False using assms(4,5) by simp
  qed
qed

text \<open>Distinct shards of a block, at most one of them a coded one, determine the block.\<close>

lemma one_loss_determines:
  assumes "\<And>r. r < k \<Longrightarrow> coded k L src (sel ! r) (shs ! r)"
    and sel: "length sel = k" "distinct sel" "length (filter (\<lambda>s. k \<le> s) sel) \<le> 1"
  shows "determines k shs"
  unfolding determines_def
proof (intro allI impI)
  fix x :: "nat \<Rightarrow> gf" and i
  assume ker: "\<forall>r<k. (\<Sum>i<k. gf_of (coeffs (shs ! r) ! i) * x i) = 0" and i: "i < k"
  have sys: "x s = 0" if "s \<in> set sel" "s < k" for s
    using that sel(1) ker assms(1) systematic_form by (metis in_set_conv_nth)
  show "x i = 0"
  proof (cases "i \<in> set sel")
    case True
    then show ?thesis using sys i by blast
  next
    case False
    from missing_systematic[OF sel(2,1,3) i False] obtain r where
      only: "{..<k} - set sel = {i}" and r: "r < k" "k \<le> sel ! r" by blast
    have "(\<Sum>j<k. gf_of (coeffs (shs ! r) ! j) * x j) =
        (\<Sum>j<k. if j = i then gf_of (coeffs (shs ! r) ! j) * x j else 0)"
      using only sys by (intro sum.cong) auto
    then have "gf_of (coeffs (shs ! r) ! i) * x i = 0"
      using ker r(1) i by simp
    moreover have "coeffs (shs ! r) ! i \<noteq> 0"
      using assms(1)[OF r(1)] r(2) i by (auto simp: coded_def)
    ultimately show ?thesis by (simp add: gf.val_eq_0_iff)
  qed
qed

lemma block_one_loss:
  assumes ok: "block_ok k n src src_len out junk o0"
    and sel: "length sel = k" "\<forall>s\<in>set sel. s < n" "distinct sel"
      "length (filter (\<lambda>s. k \<le> s) sel) \<le> 1"
  shows "\<exists>ob ol. decode_block junk (arrived (fst (encode_block src src_len k n rnd out c)) sel) k o0
           = Some (ob, ol)"
proof -
  let ?shs = "arrived (fst (encode_block src src_len k n rnd out c)) sel"
  have cod: "coded k (unat (max_src_len src_len k)) src (sel ! r) (?shs ! r)" if "r < k" for r
    by (rule arrived_coded[OF ok sel(1,2) that])
  have "shard_ok k (unat (max_src_len src_len k)) (?shs ! r)" if "r < k" for r
    using cod[OF that] by (auto simp: coded_def intro: carries_shard_ok)
  then have "decode_block junk ?shs k (fst o0, snd o0) \<noteq> None"
    using ok one_loss_determines[OF cod sel(1,3,4)]
    by (subst decode_succeeds_iff[where L = "unat (max_src_len src_len k)"]) (auto simp: block_ok_def)
  then show ?thesis by auto
qed

section \<open>Properties\<close>

text \<open>C10: \<open>decode_block\<close> returns -1 exactly when the coefficient vectors of the \<open>k\<close> shards are linearly
  dependent, that is, when some non-zero vector is annihilated by all of them.\<close>

theorem decode_fails_iff_dependent:
  assumes "room k L junk" "L \<le> MAX_PAYLOAD" "\<And>r. r < k \<Longrightarrow> shard_ok k L (shards ! r)"
    and "k \<le> length ob" "k \<le> length ol"
  shows "decode_block junk shards k (ob, ol) = None \<longleftrightarrow>
    (\<exists>x. (\<exists>i < k. x i \<noteq> 0) \<and> (\<forall>r < k. (\<Sum>i < k. gf_of (coeffs (shards ! r) ! i) * x i) = 0))"
proof -
  have "decode_block junk shards k (ob, ol) = None \<longleftrightarrow> \<not> determines k shards"
    using decode_succeeds_iff[OF assms] by blast
  then show ?thesis unfolding determines_def by blast
qed

theorem decode_fails_iff_dependent_witness:
  "decode_block \<lparr>mat = [[0]], dat = [[0]], dlen = [0]\<rparr> [\<lparr>coeffs = [0], data = [7], len = 1\<rparr>] 1 ([[0]], [0]) = None"
proof -
  have "\<exists>x. (\<exists>i < 1. x i \<noteq> 0) \<and>
      (\<forall>r < 1. (\<Sum>i < 1. gf_of (coeffs ([\<lparr>coeffs = [0], data = [7], len = 1\<rparr>] ! r) ! i) * x i) = (0 :: gf))"
    by (intro exI[of _ "\<lambda>_. 1"]) (simp add: gf.val_0)
  then show ?thesis
    by (subst decode_fails_iff_dependent[where L = 1]) (simp_all add: room_def shard_ok_def limits)
qed

text \<open>C8: Whatever \<open>k\<close> shards of a block arrive, in whatever order, and whatever the random coefficients
  were: when \<open>decode_block\<close> succeeds it returns the source packets that \<open>encode_block\<close> was given, each
  padded to the longest length.\<close>

theorem decoded_block_is_the_source:
  assumes "block_ok k n src src_len out junk o0" and "length sel = k" "\<forall>s \<in> set sel. s < n"
    and "decode_block junk (arrived (fst (encode_block src src_len k n rnd out c)) sel) k o0 = Some (ob, ol)"
    and "i < k"
  shows "ol ! i = max_src_len src_len k \<and>
    take (unat (max_src_len src_len k)) (ob ! i) = take (unat (max_src_len src_len k)) (src ! i)"
  using assms by (rule block_roundtrip)

definition demo_shard :: shard where
  "demo_shard = \<lparr>coeffs = [0, 0], data = [0, 0], len = 0\<rparr>"

definition demo_gj :: gj where
  "demo_gj = \<lparr>mat = [[0, 0], [0, 0]], dat = [[0, 0], [0, 0]], dlen = [0, 0]\<rparr>"

lemma demo_block: "block_ok 2 3 [[5, 6], [7, 0]] [2, 1] (replicate 3 demo_shard) demo_gj ([[], []], [0, 0])"
proof -
  have "max_src_len [2, 1] 2 = 2" by (simp add: max_src_len_def numeral_2_eq_2)
  then show ?thesis
    by (simp add: block_ok_def padded_def room_def shard_room_def demo_shard_def demo_gj_def limits
        all_less_2 all_less_3 nth_Cons')
qed

theorem decoded_block_is_the_source_witness:
  "\<exists>ob ol. decode_block demo_gj
      (arrived (fst (encode_block [[5, 6], [7, 0]] [2, 1] 2 3 (\<lambda>_. 9) (replicate 3 demo_shard) 0)) [2, 1])
      2 ([[], []], [0, 0]) = Some (ob, ol) \<and> ol ! 0 = 2 \<and> take 2 (ob ! 0) = [5, 6]"
proof -
  have m: "max_src_len [2, 1] 2 = 2" by (simp add: max_src_len_def numeral_2_eq_2)
  obtain ob ol where d: "decode_block demo_gj
      (arrived (fst (encode_block [[5, 6], [7, 0]] [2, 1] 2 3 (\<lambda>_. 9) (replicate 3 demo_shard) 0)) [2, 1])
      2 ([[], []], [0, 0]) = Some (ob, ol)"
    using block_one_loss[OF demo_block, of "[2, 1]" "\<lambda>_. 9" 0] by auto
  from decoded_block_is_the_source[OF demo_block _ _ d, of 0] show ?thesis
    using d by (auto simp: m)
qed

text \<open>C9: Any one source packet of a block may be lost: of the \<open>k\<close> shards that arrive all but one are
  systematic, and \<open>decode_block\<close> succeeds, for every value of the random coefficients.\<close>

theorem one_loss_recovered:
  assumes "block_ok k n src src_len out junk o0"
    and "length sel = k" "\<forall>s \<in> set sel. s < n" "distinct sel" "length (filter (\<lambda>s. k \<le> s) sel) \<le> 1"
  shows "\<exists>ob ol. decode_block junk (arrived (fst (encode_block src src_len k n rnd out c)) sel) k o0 = Some (ob, ol) \<and>
    (\<forall>i < k. take (unat (max_src_len src_len k)) (ob ! i) = take (unat (max_src_len src_len k)) (src ! i))"
  using block_one_loss[OF assms, of rnd c] block_roundtrip[OF assms(1-3)] by blast

theorem one_loss_recovered_witness:
  "\<exists>ob ol. decode_block demo_gj
      (arrived (fst (encode_block [[5, 6], [7, 0]] [2, 1] 2 3 (\<lambda>_. 9) (replicate 3 demo_shard) 0)) [0, 2])
      2 ([[], []], [0, 0]) = Some (ob, ol) \<and> take 2 (ob ! 1) = [7, 0]"
proof -
  have m: "max_src_len [2, 1] 2 = 2" by (simp add: max_src_len_def numeral_2_eq_2)
  from one_loss_recovered[OF demo_block, of "[0, 2]" "\<lambda>_. 9" 0] show ?thesis by (auto simp: m)
qed

end
