(* ===== verification/CFloat.thy ===== *)
theory CFloat
  imports Complex_Main Prelude "HOL-Library.Log_Nat"
begin

text \<open>
  The floating-point arithmetic of C that the program uses: IEEE 754 binary32 (\<open>float\<close>) and
  binary64 (\<open>double\<close>), round to nearest, ties to even, with infinities and NaN. A finite
  value is the rational number it denotes; the sign of zero is not represented (no
  operation of the program observes it, apart from the sign \<open>printf\<close> would print).
\<close>

section \<open>Values and rounding\<close>

datatype cfloat = Fin rat | PInf | NInf | NaN

text \<open>The exponent of the leading bit of a positive rational.\<close>

definition ilog2 :: "rat \<Rightarrow> int" where
  "ilog2 x = (case quotient_of x of (p, q) \<Rightarrow>
     let d = bitlen p - bitlen q in if 2 powi d \<le> x then d else d - 1)"

definition round_half_even :: "rat \<Rightarrow> int" where
  "round_half_even x = (let f = \<lfloor>x\<rfloor>; d = x - of_int f in
     if d < 1 / 2 then f else if d > 1 / 2 then f + 1 else if even f then f else f + 1)"

text \<open>
  \<open>quantum prec qmin x\<close>: the exponent of the last place of a number of \<open>x\<close>'s size with
  \<open>prec\<close> significant bits, not below the subnormal limit \<open>qmin\<close>. \<open>rval\<close> rounds to a
  multiple of it, \<open>fround\<close> overflows to an infinity from \<open>2 powi emax\<close> on.
\<close>

definition quantum :: "nat \<Rightarrow> int \<Rightarrow> rat \<Rightarrow> int" where
  "quantum prec qmin x = max qmin (ilog2 \<bar>x\<bar> + 1 - int prec)"

definition rval :: "nat \<Rightarrow> int \<Rightarrow> rat \<Rightarrow> rat" where
  "rval prec qmin x =
     (if x = 0 then 0
      else let u = 2 powi (quantum prec qmin x) in of_int (round_half_even (x / u)) * u)"

definition fround :: "nat \<Rightarrow> int \<Rightarrow> int \<Rightarrow> rat \<Rightarrow> cfloat" where
  "fround prec qmin emax x =
     (let r = rval prec qmin x in
      if 2 powi emax \<le> \<bar>r\<bar> then (if 0 < x then PInf else NInf) else Fin r)"

definition f32 :: "rat \<Rightarrow> cfloat" where "f32 = fround 24 (-149) 128"
definition f64 :: "rat \<Rightarrow> cfloat" where "f64 = fround 53 (-1074) 1024"

section \<open>Operations on \<open>float\<close>\<close>

fun fneg :: "cfloat \<Rightarrow> cfloat" where
  "fneg (Fin x) = Fin (- x)"
| "fneg PInf = NInf"
| "fneg NInf = PInf"
| "fneg NaN = NaN"

fun fadd :: "cfloat \<Rightarrow> cfloat \<Rightarrow> cfloat" where
  "fadd (Fin x) (Fin y) = f32 (x + y)"
| "fadd NaN _ = NaN"
| "fadd _ NaN = NaN"
| "fadd PInf NInf = NaN"
| "fadd NInf PInf = NaN"
| "fadd PInf _ = PInf"
| "fadd _ PInf = PInf"
| "fadd NInf _ = NInf"
| "fadd _ NInf = NInf"

definition fsub :: "cfloat \<Rightarrow> cfloat \<Rightarrow> cfloat" where
  "fsub x y = fadd x (fneg y)"

fun fmul :: "cfloat \<Rightarrow> cfloat \<Rightarrow> cfloat" where
  "fmul (Fin x) (Fin y) = f32 (x * y)"
| "fmul NaN _ = NaN"
| "fmul _ NaN = NaN"
| "fmul (Fin x) PInf = (if x = 0 then NaN else if 0 < x then PInf else NInf)"
| "fmul (Fin x) NInf = (if x = 0 then NaN else if 0 < x then NInf else PInf)"
| "fmul PInf (Fin y) = (if y = 0 then NaN else if 0 < y then PInf else NInf)"
| "fmul NInf (Fin y) = (if y = 0 then NaN else if 0 < y then NInf else PInf)"
| "fmul PInf PInf = PInf"
| "fmul NInf NInf = PInf"
| "fmul _ _ = NInf"

text \<open>Division by a non-zero finite number, all that the program does.\<close>

fun fdiv :: "cfloat \<Rightarrow> rat \<Rightarrow> cfloat" where
  "fdiv (Fin x) y = f32 (x / y)"
| "fdiv PInf y = (if 0 < y then PInf else NInf)"
| "fdiv NInf y = (if 0 < y then NInf else PInf)"
| "fdiv NaN y = NaN"

text \<open>Comparisons; any comparison with NaN is false, and NaN is unequal to everything.\<close>

fun flt :: "cfloat \<Rightarrow> cfloat \<Rightarrow> bool" where
  "flt NaN _ = False"
| "flt _ NaN = False"
| "flt (Fin x) (Fin y) = (x < y)"
| "flt NInf y = (y \<noteq> NInf)"
| "flt x PInf = (x \<noteq> PInf)"
| "flt _ _ = False"

definition feq :: "cfloat \<Rightarrow> cfloat \<Rightarrow> bool" where
  "feq x y \<longleftrightarrow> x \<noteq> NaN \<and> x = y"

definition fle :: "cfloat \<Rightarrow> cfloat \<Rightarrow> bool" where
  "fle x y \<longleftrightarrow> flt x y \<or> feq x y"

text \<open>\<open>roundf\<close> (half away from zero) and \<open>ceilf\<close>; both are exact.\<close>

fun roundf :: "cfloat \<Rightarrow> cfloat" where
  "roundf (Fin x) = Fin (if x < 0 then - of_int \<lfloor>1 / 2 - x\<rfloor> else of_int \<lfloor>x + 1 / 2\<rfloor>)"
| "roundf v = v"

fun ceilf :: "cfloat \<Rightarrow> cfloat" where
  "ceilf (Fin x) = Fin (of_int \<lceil>x\<rceil>)"
| "ceilf v = v"

text \<open>
  The conversion \<open>(int)v\<close> truncates. It is undefined behaviour when the value does not fit
  an \<open>int\<close> (C99 6.3.1.4): \<open>None\<close>.
\<close>

fun to_int :: "cfloat \<Rightarrow> int option" where
  "to_int (Fin x) =
     (let t = (if x < 0 then \<lceil>x\<rceil> else \<lfloor>x\<rfloor>) in if INT_MIN \<le> t \<and> t \<le> INT_MAX then Some t else None)"
| "to_int _ = None"

section \<open>The leading bit\<close>

lemma bitlen_powi:
  assumes "0 < n"
  shows "(2 :: rat) powi (bitlen n - 1) \<le> of_int n" "of_int n < (2 :: rat) powi bitlen n"
proof -
  have "1 \<le> bitlen n" using assms by (simp add: bitlen_alt_def)
  then have e: "(2 :: rat) powi (bitlen n - 1) = of_int (2 ^ nat (bitlen n - 1))"
    "(2 :: rat) powi bitlen n = of_int (2 ^ nat (bitlen n))"
    by (simp_all add: power_int_def)
  show "(2 :: rat) powi (bitlen n - 1) \<le> of_int n" "of_int n < (2 :: rat) powi bitlen n"
    unfolding e of_int_le_iff of_int_less_iff using bitlen_bounds[OF assms] by simp_all
qed

lemma powi_less_iff: "(2 :: rat) powi a < 2 powi b \<longleftrightarrow> a < b"
proof
  show "(2 :: rat) powi a < 2 powi b" if "a < b"
    by (rule power_int_strict_increasing) (use that in simp_all)
  show "a < b" if "(2 :: rat) powi a < 2 powi b"
  proof (rule ccontr)
    assume "\<not> a < b"
    then have "(2 :: rat) powi b \<le> 2 powi a" by (intro power_int_increasing) simp_all
    with that show False by simp
  qed
qed

lemma powi_neg_numeral: "(2 :: rat) powi (- numeral n) = 1 / 2 ^ numeral n"
  by (simp only: power_int_minus power_int_numeral divide_inverse mult_1_left)

lemma powi_le_iff: "(2 :: rat) powi a \<le> 2 powi b \<longleftrightarrow> a \<le> b"
  by (simp add: powi_less_iff flip: not_less)

lemma ilog2_bounds:
  assumes "0 < x"
  shows "2 powi ilog2 x \<le> x" "x < 2 powi (ilog2 x + 1)"
proof -
  obtain p q where pq: "quotient_of x = (p, q)" by (cases "quotient_of x")
  have q: "0 < q" using pq quotient_of_denom_pos by blast
  have x: "x = of_int p / of_int q" using pq quotient_of_div by blast
  have p: "0 < p" using assms x q by (simp add: zero_less_divide_iff)
  let ?d = "bitlen p - bitlen q"
  have pos: "0 < (of_int q :: rat)" using q by simp
  have "(2 :: rat) powi (?d - 1) * of_int q \<le> 2 powi (?d - 1) * 2 powi bitlen q"
    using bitlen_powi(2)[OF q] by (intro mult_left_mono) auto
  also have "\<dots> = 2 powi (bitlen p - 1)" by (simp flip: power_int_add)
  also have "\<dots> \<le> of_int p" by (rule bitlen_powi(1)[OF p])
  finally have low: "2 powi (?d - 1) \<le> x" using pos by (simp add: x pos_le_divide_eq)
  have "of_int p < (2 :: rat) powi bitlen p" by (rule bitlen_powi(2)[OF p])
  also have "\<dots> = 2 powi (?d + 1) * 2 powi (bitlen q - 1)" by (simp flip: power_int_add)
  also have "\<dots> \<le> 2 powi (?d + 1) * of_int q"
    using bitlen_powi(1)[OF q] by (intro mult_left_mono) auto
  finally have high: "x < 2 powi (?d + 1)" using pos by (simp add: x pos_divide_less_eq)
  show "2 powi ilog2 x \<le> x" "x < 2 powi (ilog2 x + 1)"
    using low high by (auto simp: ilog2_def pq Let_def)
qed

lemma ilog2_unique:
  assumes "2 powi e \<le> x" "x < 2 powi (e + 1)"
  shows "ilog2 x = e"
proof -
  have "0 < x" using assms(1) by (meson less_le_trans zero_less_power_int zero_less_numeral)
  note b = ilog2_bounds[OF this]
  have "(2 :: rat) powi ilog2 x < 2 powi (e + 1)" "(2 :: rat) powi e < 2 powi (ilog2 x + 1)"
    using assms b by linarith+
  then show ?thesis unfolding powi_less_iff by simp
qed

lemma ilog2_mono:
  assumes "0 < x" "x \<le> y"
  shows "ilog2 x \<le> ilog2 y"
proof -
  have "(2 :: rat) powi ilog2 x < 2 powi (ilog2 y + 1)"
    using ilog2_bounds[of x] ilog2_bounds[of y] assms by linarith
  then show ?thesis unfolding powi_less_iff by simp
qed

section \<open>Rounding to an integer\<close>

lemma round_half_even_cases:
  "round_half_even x = \<lfloor>x\<rfloor> \<or> round_half_even x = \<lfloor>x\<rfloor> + 1"
  by (auto simp: round_half_even_def Let_def)

lemma round_half_even_error: "\<bar>of_int (round_half_even x) - x\<bar> \<le> 1 / 2"
proof -
  have "of_int \<lfloor>x\<rfloor> \<le> x" "x < of_int \<lfloor>x\<rfloor> + 1" by linarith+
  then show ?thesis unfolding round_half_even_def Let_def by (auto split: if_splits simp: abs_le_iff)
qed

lemma round_half_even_of_int [simp]: "round_half_even (of_int z) = z"
  by (simp add: round_half_even_def)

lemma round_half_even_mono:
  assumes "x \<le> y"
  shows "round_half_even x \<le> round_half_even y"
proof (cases "\<lfloor>x\<rfloor> = \<lfloor>y\<rfloor>")
  case True
  then show ?thesis using assms by (auto simp: round_half_even_def Let_def)
next
  case False
  then have "\<lfloor>x\<rfloor> + 1 \<le> \<lfloor>y\<rfloor>" using assms floor_mono[OF assms] by simp
  then show ?thesis using round_half_even_cases[of x] round_half_even_cases[of y] by auto
qed

lemma round_half_even_le: "x \<le> of_int z \<Longrightarrow> round_half_even x \<le> z"
  using round_half_even_mono[of x "of_int z"] by simp

lemma round_half_even_ge: "of_int z \<le> x \<Longrightarrow> z \<le> round_half_even x"
  using round_half_even_mono[of "of_int z" x] by simp

lemma round_half_even_minus: "round_half_even (- x) = - round_half_even x"
proof (cases "x = of_int \<lfloor>x\<rfloor>")
  case True
  then show ?thesis by (metis of_int_minus round_half_even_of_int)
next
  case False
  let ?f = "\<lfloor>x\<rfloor>"
  have up: "\<lfloor>- x\<rfloor> = - ?f - 1" using False by (simp add: floor_eq_iff) linarith
  have "- x - of_int (- ?f - 1) = 1 - (x - of_int ?f)" by simp
  then show ?thesis unfolding round_half_even_def Let_def up by auto
qed

section \<open>Rounding to a precision\<close>

lemma rval_0 [simp]: "rval p m 0 = 0"
  by (simp add: rval_def)

lemma rval_minus: "rval p m (- x) = - rval p m x"
  by (simp add: rval_def quantum_def Let_def round_half_even_minus)

lemma rval_on_grid:
  assumes "quantum p m x \<le> e"
  shows "x \<le> of_int z * 2 powi e \<Longrightarrow> rval p m x \<le> of_int z * 2 powi e"
    and "of_int z * 2 powi e \<le> x \<Longrightarrow> of_int z * 2 powi e \<le> rval p m x"
proof -
  define q where "q = quantum p m x"
  define w :: int where "w = z * 2 ^ nat (e - q)"
  have "(2 :: rat) powi e = 2 powi (e - q) * 2 powi q" by (simp flip: power_int_add)
  also have "(2 :: rat) powi (e - q) = of_int (2 ^ nat (e - q))"
    using assms by (simp add: power_int_def q_def)
  finally have grid: "of_int z * 2 powi e = of_int w * (2 :: rat) powi q" by (simp add: w_def)
  have pos: "0 < (2 :: rat) powi q" by simp
  show "rval p m x \<le> of_int z * 2 powi e" if "x \<le> of_int z * 2 powi e"
  proof (cases "x = 0")
    case False
    have "x / 2 powi q \<le> of_int w" using that pos unfolding grid by (simp add: pos_divide_le_eq)
    then have "round_half_even (x / 2 powi q) \<le> w" by (rule round_half_even_le)
    then show ?thesis unfolding grid rval_def Let_def using False by (simp add: q_def)
  qed (use that in simp)
  show "of_int z * 2 powi e \<le> rval p m x" if "of_int z * 2 powi e \<le> x"
  proof (cases "x = 0")
    case False
    have "of_int w \<le> x / 2 powi q" using that pos unfolding grid by (simp add: pos_le_divide_eq)
    then have "w \<le> round_half_even (x / 2 powi q)" by (rule round_half_even_ge)
    then show ?thesis unfolding grid rval_def Let_def using False by (simp add: q_def)
  qed (use that in simp)
qed

text \<open>A number with at most \<open>prec\<close> significant bits above the subnormal limit is exact.\<close>

lemma quantum_le:
  assumes "x \<noteq> 0" "\<bar>x\<bar> < 2 powi (e + int p)" "m \<le> e"
  shows "quantum p m x \<le> e"
proof -
  have "(2 :: rat) powi ilog2 \<bar>x\<bar> \<le> \<bar>x\<bar>" using ilog2_bounds(1)[of "\<bar>x\<bar>"] assms(1) by simp
  then have "(2 :: rat) powi ilog2 \<bar>x\<bar> < 2 powi (e + int p)" using assms(2) by linarith
  then show ?thesis using assms(3) by (simp add: powi_less_iff quantum_def)
qed

lemma rval_exact:
  assumes "\<bar>z\<bar> \<le> 2 ^ p" "m \<le> e" "0 < p"
  shows "rval p m (of_int z * 2 powi e) = of_int z * 2 powi e"
proof -
  have small: "rval p m (of_int w * 2 powi c) = of_int w * 2 powi c" if "\<bar>w\<bar> < 2 ^ p" "m \<le> c" for w c
  proof (cases "w = 0")
    case False
    have "\<bar>of_int w\<bar> < (2 :: rat) ^ p" using that(1) by (simp flip: of_int_abs of_int_power)
    then have "\<bar>of_int w * 2 powi c\<bar> < (2 :: rat) powi (c + int p)"
      by (simp add: abs_mult power_int_add mult.commute)
    then have "quantum p m (of_int w * 2 powi c) \<le> c"
      using False that(2) by (intro quantum_le) simp_all
    from rval_on_grid[OF this, of w] show ?thesis by simp
  qed simp
  show ?thesis
  proof (cases "\<bar>z\<bar> = 2 ^ p")
    case False
    then show ?thesis using small assms by simp
  next
    case True
    then have z: "z = sgn z * 2 ^ p" by (metis mult_sgn_abs mult.commute)
    have "\<bar>sgn z\<bar> < 2 ^ p" using assms(3) by (simp add: abs_sgn_eq one_less_power)
    then have "rval p m (of_int (sgn z) * 2 powi (e + int p)) = of_int (sgn z) * 2 powi (e + int p)"
      using assms(2) by (intro small) simp_all
    moreover have "of_int z * (2 :: rat) powi e = of_int (sgn z) * 2 powi (e + int p)"
      by (subst z) (simp add: power_int_add)
    ultimately show ?thesis by simp
  qed
qed

lemma rval_power: "m \<le> e \<Longrightarrow> 0 < p \<Longrightarrow> rval p m (2 powi e) = 2 powi e"
  using rval_exact[of 1 p m e] by simp

lemma quantum_pos: "0 < x \<Longrightarrow> quantum p m x = max m (ilog2 x + 1 - int p)"
  by (simp add: quantum_def)

lemma quantum_mono: "0 < x \<Longrightarrow> x \<le> y \<Longrightarrow> quantum p m x \<le> quantum p m y"
  using ilog2_mono[of x y] by (simp add: quantum_pos)

lemma rval_nonneg: "0 \<le> x \<Longrightarrow> 0 \<le> rval p m x"
  using rval_on_grid(2)[of p m x "quantum p m x" 0] by simp

lemma rval_mono_pos:
  assumes "0 < x" "x \<le> y" "0 < p"
  shows "rval p m x \<le> rval p m y"
proof (cases "quantum p m x = quantum p m y")
  case True
  have "x / 2 powi quantum p m y \<le> y / 2 powi quantum p m y"
    using assms(2) by (intro divide_right_mono) simp_all
  from round_half_even_mono[OF this] have
    "of_int (round_half_even (x / 2 powi quantum p m y)) \<le>
     (of_int (round_half_even (y / 2 powi quantum p m y)) :: rat)" by simp
  then have "of_int (round_half_even (x / 2 powi quantum p m y)) * 2 powi quantum p m y \<le>
     (of_int (round_half_even (y / 2 powi quantum p m y)) :: rat) * 2 powi quantum p m y"
    by (intro mult_right_mono) simp_all
  then show ?thesis using assms True by (simp add: rval_def Let_def)
next
  case False
  then have less: "quantum p m x < quantum p m y" using quantum_mono[OF assms(1,2), of p m] by simp
  then have qy: "quantum p m y = ilog2 y + 1 - int p" and lt: "ilog2 x < ilog2 y"
    using assms(1,2) by (auto simp: quantum_pos max_def split: if_splits)
  have "x < 2 powi (ilog2 x + 1)" by (rule ilog2_bounds(2)[OF assms(1)])
  also have "\<dots> \<le> 2 powi ilog2 y" using lt by (simp add: powi_le_iff)
  finally have x: "x \<le> 2 powi ilog2 y" by simp
  have y: "2 powi ilog2 y \<le> y" using ilog2_bounds(1)[of y] assms by simp
  have e: "quantum p m y \<le> ilog2 y" using qy assms(3) by simp
  have "rval p m x \<le> 2 powi ilog2 y"
    using rval_on_grid(1)[of p m x "ilog2 y" 1] x less e by simp
  also have "\<dots> \<le> rval p m y" using rval_on_grid(2)[of p m y "ilog2 y" 1] y e by simp
  finally show ?thesis .
qed

lemma rval_mono:
  assumes "x \<le> y" "0 < p"
  shows "rval p m x \<le> rval p m y"
proof -
  consider "0 < x" | "x \<le> 0" "0 \<le> y" | "y < 0" by linarith
  then show ?thesis
  proof cases
    case 1
    then show ?thesis using assms by (rule rval_mono_pos)
  next
    case 2
    then show ?thesis using rval_nonneg[of y p m] rval_nonneg[of "- x" p m] by (simp add: rval_minus)
  next
    case 3
    then show ?thesis using rval_mono_pos[of "- y" "- x" p m] assms by (simp add: rval_minus)
  qed
qed

lemma rval_le_power:
  "x \<le> 2 powi e \<Longrightarrow> m \<le> e \<Longrightarrow> 0 < p \<Longrightarrow> rval p m x \<le> 2 powi e"
  using rval_mono[of x "2 powi e" p m] by (simp add: rval_power)

lemma rval_abs_le_power:
  "\<bar>x\<bar> \<le> 2 powi e \<Longrightarrow> m \<le> e \<Longrightarrow> 0 < p \<Longrightarrow> \<bar>rval p m x\<bar> \<le> 2 powi e"
  using rval_le_power[of x e m p] rval_le_power[of "- x" e m p] by (auto simp: rval_minus abs_le_iff)

text \<open>The rounded value is a multiple of the quantum with at most \<open>prec\<close> bits, so rounding twice
  is rounding once.\<close>

lemma rval_digits:
  assumes "x \<noteq> 0"
  shows "\<bar>round_half_even (x / 2 powi quantum p m x)\<bar> \<le> 2 ^ p"
proof -
  define q where "q = quantum p m x"
  have "\<bar>x\<bar> < 2 powi (ilog2 \<bar>x\<bar> + 1)" using ilog2_bounds(2)[of "\<bar>x\<bar>"] assms by simp
  also have "\<dots> \<le> 2 powi (q + int p)" by (simp add: powi_le_iff q_def quantum_def)
  finally have "\<bar>x\<bar> \<le> 2 ^ p * 2 powi q" by (simp add: power_int_add mult.commute)
  then have "\<bar>x / 2 powi q\<bar> \<le> of_int (2 ^ p)" by (simp add: pos_divide_le_eq abs_mult abs_divide)
  then have "x / 2 powi q \<le> of_int (2 ^ p)" "of_int (- (2 ^ p)) \<le> x / 2 powi q"
    unfolding abs_le_iff by simp_all
  then show ?thesis
    unfolding q_def[symmetric] using round_half_even_le round_half_even_ge by (metis abs_le_iff minus_le_iff)
qed

lemma rval_idem:
  assumes "0 < p"
  shows "rval p m (rval p m x) = rval p m x"
proof (cases "x = 0")
  case False
  have "rval p m x = of_int (round_half_even (x / 2 powi quantum p m x)) * 2 powi quantum p m x"
    using False by (simp add: rval_def Let_def)
  moreover have "m \<le> quantum p m x" by (simp add: quantum_def)
  ultimately show ?thesis using rval_exact[OF rval_digits[OF False]] assms by simp
qed simp

text \<open>The rounding error is at most half a unit in the last place.\<close>

lemma rval_error: "\<bar>rval p m x - x\<bar> \<le> 2 powi (quantum p m x - 1)"
proof (cases "x = 0")
  case False
  define q where "q = quantum p m x"
  have "rval p m x - x = (of_int (round_half_even (x / 2 powi q)) - x / 2 powi q) * 2 powi q"
    using False by (simp add: rval_def Let_def q_def left_diff_distrib)
  then have "\<bar>rval p m x - x\<bar> = \<bar>of_int (round_half_even (x / 2 powi q)) - x / 2 powi q\<bar> * 2 powi q"
    by (simp add: abs_mult)
  also have "\<dots> \<le> 1 / 2 * 2 powi q"
    using round_half_even_error by (intro mult_right_mono) simp_all
  also have "\<dots> = 2 powi (q - 1)" by (simp add: power_int_diff)
  finally show ?thesis by (simp add: q_def)
qed simp

section \<open>Facts about \<open>float\<close>\<close>

abbreviation r32 :: "rat \<Rightarrow> rat" where "r32 \<equiv> rval 24 (-149)"

text \<open>A \<open>float\<close> object holds a representable number, an infinity or NaN.\<close>

fun is_float :: "cfloat \<Rightarrow> bool" where
  "is_float (Fin x) = (f32 x = Fin x)"
| "is_float _ = True"

lemma f32_eq: "\<bar>r32 x\<bar> < 2 powi 128 \<Longrightarrow> f32 x = Fin (r32 x)"
  by (simp add: f32_def fround_def Let_def del: power_int_numeral)

lemma f32_bounded:
  assumes "\<bar>x\<bar> \<le> 2 powi e" "- 149 \<le> e" "e < 128"
  shows "f32 x = Fin (r32 x)" "\<bar>r32 x\<bar> \<le> 2 powi e"
proof -
  show le: "\<bar>r32 x\<bar> \<le> 2 powi e" using assms by (intro rval_abs_le_power) simp_all
  also have "\<dots> < 2 powi 128" using assms(3) by (simp only: powi_less_iff)
  finally show "f32 x = Fin (r32 x)" by (rule f32_eq)
qed

declare is_float.simps(1) [simp del]

lemma is_float_Fin: "is_float (Fin x) \<longleftrightarrow> r32 x = x \<and> \<bar>x\<bar> < 2 powi 128"
  by (auto simp: is_float.simps(1) f32_def fround_def Let_def not_le simp del: power_int_numeral split: if_splits)

lemma is_float_f32: "is_float (f32 x)"
  by (cases "f32 x")
    (auto simp: is_float_Fin f32_def fround_def Let_def rval_idem not_le
      simp del: power_int_numeral split: if_splits)

lemma r32_int: "\<bar>z\<bar> \<le> 2 ^ 24 \<Longrightarrow> r32 (of_int z) = of_int z"
  using rval_exact[of z 24 "- 149" 0] by simp

lemma f32_int:
  assumes "\<bar>z\<bar> \<le> 2 ^ 24"
  shows "f32 (of_int z) = Fin (of_int z)"
proof -
  have "\<bar>of_int z\<bar> \<le> (of_int (2 ^ 24) :: rat)"
    using assms by (simp only: of_int_le_iff flip: of_int_abs)
  also have "\<dots> = 2 powi 24" by simp
  finally show ?thesis using f32_bounded(1)[of "of_int z" 24] r32_int[OF assms] by simp
qed

lemma r32_unit: "0 \<le> x \<Longrightarrow> x \<le> 1 \<Longrightarrow> 0 \<le> r32 x \<and> r32 x \<le> 1"
  using rval_nonneg[of x 24 "- 149"] rval_le_power[of x 0 "- 149" 24] by simp

lemma f32_unit: "0 \<le> x \<Longrightarrow> x \<le> 1 \<Longrightarrow> f32 x = Fin (r32 x)"
  using f32_bounded(1)[of x 0] by simp

text \<open>One rounding below 1 is off by at most \<open>2 ^ -25\<close>, and \<open>1 + 2 ^ -25\<close> rounds down to 1.\<close>

lemma r32_error_unit:
  assumes "0 \<le> x" "x \<le> 1"
  shows "\<bar>r32 x - x\<bar> \<le> 1 / 2 ^ 25"
proof (cases "x = 1")
  case True
  then show ?thesis using r32_int[of 1] by simp
next
  case False
  then have "x < 1" using assms by simp
  have "quantum 24 (- 149) x \<le> - 24" if "x \<noteq> 0"
    using that assms \<open>x < 1\<close> by (intro quantum_le) simp_all
  then have "(2 :: rat) powi (quantum 24 (- 149) x - 1) \<le> 2 powi (- 25)" if "x \<noteq> 0"
    using that unfolding powi_le_iff by simp
  also have "(2 :: rat) powi (- 25) = 1 / 2 ^ 25" by (rule powi_neg_numeral)
  finally show ?thesis using rval_error[of 24 "- 149" x] by (cases "x = 0") fastforce+
qed

text \<open>The same below any power of two.\<close>

lemma r32_error_scaled:
  assumes "0 \<le> x" "x \<le> 2 powi e" "0 \<le> e"
  shows "\<bar>r32 x - x\<bar> \<le> 2 powi e / 2 ^ 25"
proof (cases "x = 0 \<or> x = 2 powi e")
  case True
  then show ?thesis using rval_power[of "- 149" e 24] assms(3) by auto
next
  case False
  then have "quantum 24 (- 149) x \<le> e - 24" using assms by (intro quantum_le) simp_all
  then have "(2 :: rat) powi (quantum 24 (- 149) x - 1) \<le> 2 powi (e - 25)" unfolding powi_le_iff by simp
  also have "(2 :: rat) powi (e - 25) = 2 powi e / 2 ^ 25" by (simp add: power_int_diff)
  finally show ?thesis using rval_error[of 24 "- 149" x] by linarith
qed

text \<open>The same one power of two further up; a power of two scales a float exactly.\<close>

lemma r32_just_above:
  assumes "0 \<le> e"
  shows "r32 ((1 + 1 / 2 ^ 25) * 2 powi e) = 2 powi e"
proof -
  let ?x = "(1 + 1 / 2 ^ 25) * (2 :: rat) powi e"
  have pos: "0 < (2 :: rat) powi e" by simp
  have "ilog2 ?x = e" using pos by (intro ilog2_unique) (simp_all add: power_int_add)
  then have q: "quantum 24 (- 149) ?x = e - 23" using assms pos by (simp add: quantum_def)
  have "(2 :: rat) powi (- 23) = 1 / 2 ^ 23" by (rule powi_neg_numeral)
  then have u: "(2 :: rat) powi (e - 23) = 2 powi e / 2 ^ 23" using power_int_add[of "2 :: rat" e "- 23"] by simp
  have "?x / (2 powi e / 2 ^ 23) = (8388608 + 1 / 4 :: rat)" using pos by (simp add: field_simps)
  moreover have "round_half_even (8388608 + 1 / 4) = 8388608"
  proof -
    have "\<lfloor>8388608 + 1 / 4 :: rat\<rfloor> = 8388608" by (simp add: floor_eq_iff)
    then show ?thesis by (simp only: round_half_even_def Let_def) simp
  qed
  ultimately show ?thesis using pos unfolding rval_def Let_def q u by simp
qed

lemma float_grid:
  assumes "r32 a = a"
  obtains z q where "a = of_int z * 2 powi q" "\<bar>z\<bar> \<le> 2 ^ 24" "- 149 \<le> q"
proof (cases "a = 0")
  case True
  then show thesis using that[of 0 0] by simp
next
  case False
  define q where "q = quantum 24 (- 149) a"
  define z where "z = round_half_even (a / 2 powi q)"
  have "a = of_int z * 2 powi q" using assms False by (simp add: rval_def Let_def z_def q_def)
  moreover have "- 149 \<le> q" by (simp add: q_def quantum_def)
  moreover have "\<bar>z\<bar> \<le> 2 ^ 24" using rval_digits[of a 24 "- 149"] False by (simp add: z_def q_def)
  ultimately show thesis using that by blast
qed

lemma r32_scale:
  assumes "r32 a = a" "0 \<le> e"
  shows "r32 (a * 2 powi e) = a * 2 powi e"
proof -
  obtain z q where a: "a = of_int z * 2 powi q" "\<bar>z\<bar> \<le> 2 ^ 24" "- 149 \<le> q"
    using float_grid[OF assms(1)] .
  have "a * 2 powi e = of_int z * 2 powi (q + e)" by (simp add: a(1) power_int_add)
  then show ?thesis using rval_exact[OF a(2), of "- 149" "q + e"] a(3) assms(2) by simp
qed

text \<open>The floats above 1 start at \<open>1 + 2 ^ -23\<close>, so a small integer times one of them rounds to more than the integer.\<close>

lemma float_above_one:
  assumes "r32 b = b" "1 < b"
  shows "1 + 1 / 2 ^ 23 \<le> b"
proof (rule ccontr)
  assume "\<not> 1 + 1 / 2 ^ 23 \<le> b"
  then have b: "b < 1 + 1 / 2 ^ 23" by simp
  have "ilog2 b = 0" using assms(2) b by (intro ilog2_unique) simp_all
  then have q: "quantum 24 (- 149) b = - 23" using assms(2) by (simp add: quantum_pos)
  define z where "z = round_half_even (b / 2 powi - 23)"
  have "of_int z * 2 powi - 23 = b" using assms by (simp add: rval_def Let_def q z_def)
  then have z: "of_int z = b * 2 ^ 23" by (simp add: powi_neg_numeral)
  have "(2 :: rat) ^ 23 < of_int z" "of_int z < (2 :: rat) ^ 23 + 1" using assms(2) b unfolding z by simp_all
  then have "(2 :: int) ^ 23 < z" "z < 2 ^ 23 + 1" by simp_all
  then show False by linarith
qed

lemma product_above:
  assumes "r32 b = b" "1 < b" "1 \<le> k" "k \<le> int MAX_K"
  shows "of_int k < r32 (of_int k * b)"
proof -
  have "k \<in> {1..16}" using assms(3,4) by (simp add: limits)
  then have "\<exists>e \<le> 4. 2 ^ e \<le> k \<and> k < 2 ^ Suc e"
  proof -
    consider "k < 2" | "2 \<le> k \<and> k < 4" | "4 \<le> k \<and> k < 8" | "8 \<le> k \<and> k < 16" | "16 \<le> k" by linarith
    then show ?thesis
      using \<open>k \<in> {1..16}\<close> by cases (auto intro: exI[of _ 0] exI[of _ 1] exI[of _ 2] exI[of _ 3] exI[of _ 4])
  qed
  then obtain e :: nat where e: "e \<le> 4" "2 ^ e \<le> k" "k < 2 ^ Suc e" by blast
  define z where "z = k * 2 ^ (23 - e) + 1"
  have pow: "(2 :: int) ^ e * 2 ^ (23 - e) = 2 ^ 23" using e(1) by (simp flip: power_add)
  have "(k + 1) * 2 ^ (23 - e) \<le> 2 ^ Suc e * 2 ^ (23 - e)" using e(3) by (intro mult_right_mono) simp_all
  also have "\<dots> = 2 ^ 24" using pow by (simp add: mult.assoc)
  finally have "k * 2 ^ (23 - e) + 2 ^ (23 - e) \<le> 2 ^ 24" by (simp add: distrib_right)
  moreover have "(1 :: int) \<le> 2 ^ (23 - e)" by simp
  ultimately have "z \<le> 2 ^ 24" unfolding z_def by linarith
  moreover have "0 \<le> z" using assms(3) by (simp add: z_def)
  ultimately have z: "\<bar>z\<bar> \<le> 2 ^ 24" by simp
  have unit: "(2 :: rat) powi (int e - 23) = 2 ^ e / 2 ^ 23" by (simp add: power_int_diff)
  have "(2 :: rat) ^ e * 2 ^ (23 - e) = 2 ^ 23" using e(1) by (simp flip: power_add)
  then have y: "of_int z * (2 :: rat) powi (int e - 23) = of_int k + 2 ^ e / 2 ^ 23"
    unfolding unit z_def by (simp add: field_simps)
  have "(2 :: rat) ^ e \<le> of_int k" using e(2) by (metis of_int_le_iff of_int_numeral of_int_power)
  then have "of_int k + 2 ^ e / 2 ^ 23 \<le> of_int k * (1 + 1 / 2 ^ 23 :: rat)" by (simp add: field_simps)
  also have "\<dots> \<le> of_int k * b" using float_above_one[OF assms(1,2)] assms(3) by (intro mult_left_mono) simp_all
  finally have "r32 (of_int z * 2 powi (int e - 23)) \<le> r32 (of_int k * b)" unfolding y[symmetric] by (rule rval_mono) simp
  moreover have "r32 (of_int z * 2 powi (int e - 23)) = of_int z * 2 powi (int e - 23)" by (rule rval_exact[OF z]) simp_all
  ultimately have le: "of_int k + 2 ^ e / 2 ^ 23 \<le> r32 (of_int k * b)" unfolding y by simp
  have "(0 :: rat) < 2 ^ e / 2 ^ 23" by simp
  then show ?thesis using le by linarith
qed

end
