(* ===== verification/CString.thy ===== *)
theory CString
  imports Prelude CFloat
begin

text \<open>
  The C library functions on strings that the program calls: \<open>isspace\<close>, \<open>strchr\<close>,
  \<open>fgets\<close>, \<open>strncpy\<close> into a zeroed field, \<open>atoi\<close> and \<open>atof\<close>. A C string is the list of the
  characters before its terminator.
\<close>

section \<open>Characters\<close>

definition isspace :: "char \<Rightarrow> bool" where
  "isspace c \<longleftrightarrow> (let n = (of_char c :: nat) in n = 32 \<or> (9 \<le> n \<and> n \<le> 13))"

definition hex_val :: "char \<Rightarrow> nat option" where
  "hex_val c = (let n = (of_char c :: nat) in
     if 48 \<le> n \<and> n \<le> 57 then Some (n - 48)
     else if 97 \<le> n \<and> n \<le> 102 then Some (n - 87)
     else if 65 \<le> n \<and> n \<le> 70 then Some (n - 55)
     else None)"

definition is_digit :: "nat \<Rightarrow> char \<Rightarrow> bool" where
  "is_digit base c \<longleftrightarrow> (case hex_val c of None \<Rightarrow> False | Some v \<Rightarrow> v < base)"

definition lower :: "char \<Rightarrow> char" where
  "lower c = (let n = (of_char c :: nat) in if 65 \<le> n \<and> n \<le> 90 then char_of (n + 32) else c)"

lemma isspace_NUL [simp]: "\<not> isspace (CHR 0x00)"
  by (simp add: isspace_def)

section \<open>Strings\<close>

definition NUL :: char where "NUL = CHR 0x00"
definition newline :: char where "newline = CHR 0x0A"

text \<open>The string that an array of characters holds.\<close>

definition cstr :: "string \<Rightarrow> string" where
  "cstr s = takeWhile (\<lambda>c. c \<noteq> NUL) s"

text \<open>
  \<open>fgets(line, n + 1, f)\<close>: at most \<open>n\<close> characters, up to and including the first newline.
  The result is the line and what is left of the file; \<open>None\<close> at its end.
\<close>

fun fgets_chars :: "nat \<Rightarrow> string \<Rightarrow> string \<times> string" where
  "fgets_chars (Suc n) (c # s) =
     (if c = newline then ([c], s) else (case fgets_chars n s of (l, r) \<Rightarrow> (c # l, r)))"
| "fgets_chars _ s = ([], s)"

definition fgets :: "nat \<Rightarrow> string \<Rightarrow> (string \<times> string) option" where
  "fgets n s = (if s = [] then None else Some (fgets_chars n s))"

text \<open>\<open>strchr(s, c)\<close>: the text before the first \<open>c\<close> and the text after it.\<close>

fun split_at :: "char \<Rightarrow> string \<Rightarrow> (string \<times> string) option" where
  "split_at c [] = None"
| "split_at c (x # s) =
     (if x = c then Some ([], s) else map_option (\<lambda>(l, r). (x # l, r)) (split_at c s))"

text \<open>
  \<open>strncpy(field, s, n)\<close> where the field has \<open>n + 1\<close> characters and its last one is zero:
  the string that the field then holds.
\<close>

definition strncpy :: "nat \<Rightarrow> string \<Rightarrow> string" where
  "strncpy n s = take n s"

section \<open>Numbers\<close>

definition num_val :: "nat \<Rightarrow> string \<Rightarrow> int" where
  "num_val base ds =
     foldl (\<lambda>a c. a * int base + (case hex_val c of None \<Rightarrow> 0 | Some v \<Rightarrow> int v)) 0 ds"

text \<open>An optional sign: true for a minus.\<close>

fun sign :: "string \<Rightarrow> bool \<times> string" where
  "sign (c # s) = (if c = CHR ''-'' then (True, s) else if c = CHR ''+'' then (False, s) else (False, c # s))"
| "sign [] = (False, [])"

text \<open>
  \<open>atoi\<close>: white space, a sign, decimal digits; the rest is ignored and no digits give 0. A
  value that no \<open>int\<close> holds is undefined behaviour (C99 7.20.1): \<open>None\<close>.
\<close>

definition atoi :: "string \<Rightarrow> int option" where
  "atoi s = (case sign (dropWhile isspace s) of (neg, t) \<Rightarrow>
     let m = num_val 10 (takeWhile (is_digit 10) t); v = (if neg then - m else m) in
     if INT_MIN \<le> v \<and> v \<le> INT_MAX then Some v else None)"

text \<open>
  \<open>atof\<close> is \<open>strtod\<close>: after white space and a sign, a decimal or (after \<open>0x\<close>) hexadecimal
  fraction with an optional exponent, or one of the words for infinity and NaN; the longest
  prefix that is a number counts, and no number gives 0. The value is rounded to \<open>double\<close>.
\<close>

fun exponent :: "char \<Rightarrow> string \<Rightarrow> int" where
  "exponent e (c # s) =
     (if lower c = e then
        (case sign s of (neg, t) \<Rightarrow>
           let m = num_val 10 (takeWhile (is_digit 10) t) in if neg then - m else m)
      else 0)"
| "exponent e [] = 0"

fun fraction :: "nat \<Rightarrow> string \<Rightarrow> string \<times> string" where
  "fraction base (c # s) =
     (if c = CHR ''.'' then (takeWhile (is_digit base) s, dropWhile (is_digit base) s) else ([], c # s))"
| "fraction base [] = ([], [])"

definition numeral_val :: "nat \<Rightarrow> char \<Rightarrow> nat \<Rightarrow> string \<Rightarrow> rat option" where
  "numeral_val base e radix s =
     (let ip = takeWhile (is_digit base) s in
      case fraction base (dropWhile (is_digit base) s) of (fp, r) \<Rightarrow>
        if ip @ fp = [] then None
        else Some (of_int (num_val base (ip @ fp)) / of_nat base ^ length fp
                   * of_nat radix powi exponent e r))"

definition strtod_abs :: "string \<Rightarrow> cfloat" where
  "strtod_abs s =
     (if map lower (take 3 s) = ''inf'' then PInf
      else if map lower (take 3 s) = ''nan'' then NaN
      else case (if map lower (take 2 s) = ''0x'' then numeral_val 16 (CHR ''p'') 2 (drop 2 s) else None) of
        Some x \<Rightarrow> f64 x
      | None \<Rightarrow> (case numeral_val 10 (CHR ''e'') 10 s of Some x \<Rightarrow> f64 x | None \<Rightarrow> Fin 0))"

definition atof :: "string \<Rightarrow> cfloat" where
  "atof s = (case sign (dropWhile isspace s) of (neg, t) \<Rightarrow>
     if neg then fneg (strtod_abs t) else strtod_abs t)"

text \<open>The conversion of a \<open>double\<close> to \<open>float\<close>.\<close>

fun to_float :: "cfloat \<Rightarrow> cfloat" where
  "to_float (Fin x) = f32 x"
| "to_float v = v"

end
