(* ===== verification/Crypto.thy ===== *)
theory Crypto
  imports CString
begin

text \<open>
  \<open>src/crypto.c\<close>: the XOR stream cipher. A 64-bit seed is hashed from the key and the
  packet's nonce, \<open>xorshift64\<close> expands it into the keystream, and \<open>crypto_xor\<close> adds eight
  bytes of it per step to the data in place. \<open>crypto_parse_key\<close> reads the key from hex.
\<close>

section \<open>The code\<close>

definition CRYPTO_KEY_LEN :: nat where "CRYPTO_KEY_LEN = 32"

record crypto_ctx =
  key :: bytes
  enabled :: bool

definition crypto_init :: "bytes option \<Rightarrow> crypto_ctx" where
  "crypto_init k =
     (let ctx = \<lparr>key = replicate CRYPTO_KEY_LEN 0, enabled = False\<rparr> in
      case k of None \<Rightarrow> ctx
      | Some b \<Rightarrow> ctx\<lparr>key := memcpy (key ctx) b CRYPTO_KEY_LEN, enabled := True\<rparr>)"

definition fnv_prime :: u64 where "fnv_prime = 0x100000001b3"

definition hash_key :: "bytes \<Rightarrow> u64" where
  "hash_key k = fold (\<lambda>i s. (s XOR ucast (k ! i)) * fnv_prime) [0..<CRYPTO_KEY_LEN] 0xcbf29ce484222325"

definition seed_from_key_nonce :: "bytes \<Rightarrow> u64 \<Rightarrow> u64" where
  "seed_from_key_nonce k nonce =
     (let s = (hash_key k XOR nonce) * fnv_prime in if s = 0 then 0x5A5A5A5A5A5A5A5A else s)"

text \<open>The value returned is also the new state.\<close>

definition xorshift64 :: "u64 \<Rightarrow> u64" where
  "xorshift64 state =
     (let x = state;
          x = x XOR push_bit 13 x;
          x = x XOR drop_bit 7 x;
          x = x XOR push_bit 17 x
      in x)"

text \<open>\<open>data[i + b] ^= (uint8_t)(ks >> 8 b)\<close> for \<open>b\<close> below \<open>m\<close>.\<close>

definition xor_word :: "bytes \<Rightarrow> nat \<Rightarrow> nat \<Rightarrow> u64 \<Rightarrow> bytes" where
  "xor_word d i m ks = fold (\<lambda>b d. d[i + b := d ! (i + b) XOR ucast (drop_bit (b * 8) ks)]) [0..<m] d"

function xor_blocks :: "nat \<Rightarrow> u64 \<Rightarrow> bytes \<Rightarrow> nat \<Rightarrow> nat \<times> u64 \<times> bytes" where
  "xor_blocks i state d n =
     (if i + 8 \<le> n
      then let ks = xorshift64 state in xor_blocks (i + 8) ks (xor_word d i 8 ks) n
      else (i, state, d))"
  by pat_completeness auto
termination
  by (relation "measure (\<lambda>(i, state, d, n). n - i)") auto

declare xor_blocks.simps [simp del]

definition crypto_xor :: "crypto_ctx \<Rightarrow> bytes \<Rightarrow> nat \<Rightarrow> u64 \<Rightarrow> bytes" where
  "crypto_xor ctx d n nonce =
     (if \<not> enabled ctx then d
      else case xor_blocks 0 (seed_from_key_nonce (key ctx) nonce) d n of
        (i, state, d') \<Rightarrow> if i < n then xor_word d' i (n - i) (xorshift64 state) else d')"

text \<open>
  \<open>sscanf(tmp, "%02x", &byte)\<close> on a string of two characters, as the C standard defines the
  conversion: leading white space is skipped, at most two characters of an optionally signed
  hexadecimal number are matched (\<open>strtoul\<close>, base 16), what follows is left unread; \<open>None\<close>
  is a matching failure.
\<close>

fun match_hex :: "string \<Rightarrow> u32 option" where
  "match_hex [] = None"
| "match_hex [c] = map_option of_nat (hex_val c)"
| "match_hex (c # d # _) =
     (if c = CHR ''+'' then map_option of_nat (hex_val d)
      else if c = CHR ''-'' then map_option (\<lambda>v. - of_nat v) (hex_val d)
      else if c = CHR ''0'' \<and> (d = CHR ''x'' \<or> d = CHR ''X'') then None
      else case hex_val c of
             None \<Rightarrow> None
           | Some v \<Rightarrow> (case hex_val d of None \<Rightarrow> Some (of_nat v) | Some w \<Rightarrow> Some (of_nat (16 * v + w))))"

definition sscanf_02x :: "string \<Rightarrow> u32 option" where
  "sscanf_02x tmp = match_hex (dropWhile isspace tmp)"

text \<open>\<open>None\<close> is the return value -1.\<close>

definition crypto_parse_key :: "string \<Rightarrow> bytes option" where
  "crypto_parse_key hex =
     (if length hex \<noteq> CRYPTO_KEY_LEN * 2 then None
      else for_opt (\<lambda>i out. case sscanf_02x [hex ! (i * 2), hex ! (i * 2 + 1)] of
                              None \<Rightarrow> None
                            | Some byte \<Rightarrow> Some (out @ [ucast byte]))
             [0..<CRYPTO_KEY_LEN] [])"

section \<open>The cipher adds a keystream\<close>

definition keystream :: "u64 \<Rightarrow> nat \<Rightarrow> u8" where
  "keystream seed p = ucast (drop_bit (8 * (p mod 8)) ((xorshift64 ^^ Suc (p div 8)) seed))"

lemma xor_word_Suc:
  "xor_word d i (Suc m) ks =
     (xor_word d i m ks)[i + m := xor_word d i m ks ! (i + m) XOR ucast (drop_bit (m * 8) ks)]"
  by (simp add: xor_word_def)

lemma length_xor_word [simp]: "length (xor_word d i m ks) = length d"
  by (induction m) (simp_all add: xor_word_Suc xor_word_def)

lemma nth_xor_word:
  "p < length d \<Longrightarrow> xor_word d i m ks ! p =
     (if i \<le> p \<and> p < i + m then d ! p XOR ucast (drop_bit (8 * (p - i)) ks) else d ! p)"
proof (induction m)
  case 0
  then show ?case by (auto simp: xor_word_def)
next
  case (Suc m)
  then show ?case
    by (cases "p = i + m") (auto simp: xor_word_Suc nth_list_update mult.commute)
qed

lemma block_pos:
  assumes "i mod 8 = 0" "i \<le> p" "p < i + (8 :: nat)"
  shows "p div 8 = i div 8 \<and> p mod 8 = p - i"
proof -
  obtain q where "i = 8 * q" using assms(1) by (metis mod_0_imp_dvd dvdE)
  moreover obtain r where "p = i + r" using assms(2) le_Suc_ex by blast
  ultimately show ?thesis using assms(3) by simp
qed

lemma xor_blocks_spec:
  assumes "xor_blocks i st d n = (i', st', d')" "i mod 8 = 0" "i \<le> n"
    and "st = (xorshift64 ^^ (i div 8)) seed"
  shows "i' mod 8 = 0 \<and> i' \<le> n \<and> n < i' + 8 \<and> st' = (xorshift64 ^^ (i' div 8)) seed \<and>
    length d' = length d \<and>
    (\<forall>p<length d. d' ! p = (if i \<le> p \<and> p < i' then d ! p XOR keystream seed p else d ! p)) \<and> i \<le> i'"
  using assms
proof (induction i st d n arbitrary: i' st' d' rule: xor_blocks.induct)
  case (1 i state d n)
  show ?case
  proof (cases "i + 8 \<le> n")
    case False
    with "1.prems" show ?thesis by (auto simp: xor_blocks.simps[of i])
  next
    case True
    let ?ks = "xorshift64 state"
    have ks: "?ks = (xorshift64 ^^ Suc (i div 8)) seed" using "1.prems"(4) by simp
    have word: "xor_word d i 8 ?ks ! p =
        (if i \<le> p \<and> p < i + 8 then d ! p XOR keystream seed p else d ! p)" if "p < length d" for p
    proof (cases "i \<le> p \<and> p < i + 8")
      case True
      then have "p div 8 = i div 8 \<and> p mod 8 = p - i" using block_pos[OF "1.prems"(2)] by blast
      then have "keystream seed p = ucast (drop_bit (8 * (p - i)) ?ks)"
        by (simp only: keystream_def ks)
      then show ?thesis using that True by (simp only: nth_xor_word if_True)
    next
      case False
      then show ?thesis using that by (simp only: nth_xor_word if_False)
    qed
    have "(i + 8) div 8 = Suc (i div 8)" by simp
    then have st: "?ks = (xorshift64 ^^ ((i + 8) div 8)) seed" using ks by simp
    have run: "xor_blocks (i + 8) ?ks (xor_word d i 8 ?ks) n = (i', st', d')"
      using "1.prems"(1) True by (simp add: xor_blocks.simps[of i] Let_def)
    have "(i + 8) mod 8 = 0" using "1.prems"(2) by simp
    note IH = "1.IH"[OF True refl run this True st]
    have "d' ! p = (if i \<le> p \<and> p < i' then d ! p XOR keystream seed p else d ! p)" if "p < length d" for p
      using IH word[OF that] that by (cases "p < i + 8") auto
    with IH show ?thesis by auto
  qed
qed

lemma crypto_xor_disabled: "\<not> enabled ctx \<Longrightarrow> crypto_xor ctx d n nonce = d"
  by (simp add: crypto_xor_def)

lemma crypto_xor_spec:
  assumes "enabled ctx"
  shows "length (crypto_xor ctx d n nonce) = length d"
    and "p < length d \<Longrightarrow> crypto_xor ctx d n nonce ! p =
      (if p < n then d ! p XOR keystream (seed_from_key_nonce (key ctx) nonce) p else d ! p)"
proof -
  let ?seed = "seed_from_key_nonce (key ctx) nonce"
  obtain i st d' where run: "xor_blocks 0 ?seed d n = (i, st, d')" by (metis prod_cases3)
  have fin: "i mod 8 = 0 \<and> i \<le> n \<and> n < i + 8 \<and> st = (xorshift64 ^^ (i div 8)) ?seed \<and>
    length d' = length d \<and>
    (\<forall>p<length d. d' ! p = (if 0 \<le> p \<and> p < i then d ! p XOR keystream ?seed p else d ! p)) \<and> 0 \<le> i"
    by (rule xor_blocks_spec[OF run]) auto
  then show "length (crypto_xor ctx d n nonce) = length d"
    using assms by (simp add: crypto_xor_def run)
  show "crypto_xor ctx d n nonce ! p = (if p < n then d ! p XOR keystream ?seed p else d ! p)"
    if p: "p < length d"
  proof (cases "i \<le> p \<and> p < n")
    case False
    then show ?thesis using fin p assms by (auto simp: crypto_xor_def run nth_xor_word)
  next
    case True
    then have "p div 8 = i div 8 \<and> p mod 8 = p - i" using block_pos[of i p] fin by linarith
    then show ?thesis using True fin p assms by (simp add: crypto_xor_def run nth_xor_word keystream_def)
  qed
qed

section \<open>The interface of a stream cipher\<close>

text \<open>
  What the sender and the receiver rely on: the cipher works in place, touches the first
  \<open>n\<close> bytes only, depends on nothing else, and is its own inverse for the same nonce. The
  client's fact: a receiver that holds the \<open>n\<close> enciphered bytes at the front of any buffer
  gets the \<open>n\<close> original bytes back.
\<close>

locale stream_cipher =
  fixes crypt :: "'c \<Rightarrow> bytes \<Rightarrow> nat \<Rightarrow> u64 \<Rightarrow> bytes"
  assumes crypt_length: "length (crypt c d n nonce) = length d"
    and crypt_outside: "p < length d \<Longrightarrow> n \<le> p \<Longrightarrow> crypt c d n nonce ! p = d ! p"
    and crypt_local: "take n d = take n d' \<Longrightarrow> take n (crypt c d n nonce) = take n (crypt c d' n nonce)"
    and crypt_involutive: "crypt c (crypt c d n nonce) n nonce = d"
begin

lemma receiver_decrypts:
  assumes "take n d' = take n (crypt c d n nonce)"
  shows "take n (crypt c d' n nonce) = take n d"
  using crypt_local[OF assms] by (simp add: crypt_involutive)

end

lemma crypto_xor_length: "length (crypto_xor ctx d n nonce) = length d"
  by (cases "enabled ctx") (simp_all add: crypto_xor_disabled crypto_xor_spec(1))

lemma crypto_xor_nth:
  "p < length d \<Longrightarrow> crypto_xor ctx d n nonce ! p =
     (if enabled ctx \<and> p < n then d ! p XOR keystream (seed_from_key_nonce (key ctx) nonce) p
      else d ! p)"
  by (cases "enabled ctx") (simp_all add: crypto_xor_disabled crypto_xor_spec(2))

interpretation xor_cipher: stream_cipher crypto_xor
proof unfold_locales
  fix c d d' n nonce and p :: nat
  show "length (crypto_xor c d n nonce) = length d" by (rule crypto_xor_length)
  show "crypto_xor c d n nonce ! p = d ! p" if "p < length d" "n \<le> p"
    using that by (simp add: crypto_xor_nth)
  show "take n (crypto_xor c d n nonce) = take n (crypto_xor c d' n nonce)" if "take n d = take n d'"
  proof (rule nth_equalityI)
    have len: "min n (length d) = min n (length d')" using arg_cong[OF that, of length] by simp
    then show "length (take n (crypto_xor c d n nonce)) = length (take n (crypto_xor c d' n nonce))"
      by (simp add: crypto_xor_length)
    fix i assume "i < length (take n (crypto_xor c d n nonce))"
    then have i: "i < n" "i < length d" "i < length d'" using len by (auto simp: crypto_xor_length)
    then have "d ! i = d' ! i" using that by (metis nth_take)
    with i show "take n (crypto_xor c d n nonce) ! i = take n (crypto_xor c d' n nonce) ! i"
      by (simp add: crypto_xor_nth)
  qed
  show "crypto_xor c (crypto_xor c d n nonce) n nonce = d"
    by (rule nth_equalityI) (auto simp: crypto_xor_length crypto_xor_nth xor.assoc)
qed

section \<open>The keystream\<close>

lemma xor_eq_0_iff: "a XOR b = 0 \<longleftrightarrow> a = (b :: 'a :: len word)"
  by (auto simp: bit_eq_iff bit_xor_iff)

lemma xor_swap: "(a XOR b = c XOR d) = (a XOR c = b XOR (d :: 'a :: len word))"
proof -
  have "(a XOR b) XOR (c XOR d) = (a XOR c) XOR (b XOR d)"
    by (simp add: xor.assoc xor.left_commute)
  then show ?thesis by (metis xor_eq_0_iff)
qed

lemma push_xor_inj:
  assumes "0 < a" "x XOR push_bit a x = y XOR push_bit a (y :: u64)"
  shows "x = y"
proof -
  let ?z = "x XOR y"
  have z: "?z = push_bit a ?z" using assms(2) unfolding push_bit_xor using xor_swap by blast
  have "\<not> bit ?z i" for i
  proof (induction i rule: less_induct)
    case (less i)
    show ?case
    proof
      assume "bit ?z i"
      then have "a \<le> i \<and> bit ?z (i - a)"
        using arg_cong[OF z, of "\<lambda>w. bit w i"] by (simp only: bit_push_bit_iff)
      then show False using less[of "i - a"] assms(1) by simp
    qed
  qed
  then have "?z = 0" by (intro bit_eqI) simp
  then show ?thesis by (simp only: xor_eq_0_iff)
qed

lemma drop_xor_inj:
  assumes "0 < a" "x XOR drop_bit a x = y XOR drop_bit a (y :: u64)"
  shows "x = y"
proof -
  let ?z = "x XOR y"
  have z: "?z = drop_bit a ?z" using assms(2) unfolding drop_bit_xor using xor_swap by blast
  have "\<not> bit ?z i" for i
  proof (induction "64 - i" arbitrary: i rule: less_induct)
    case less
    show ?case
    proof
      assume b: "bit ?z i"
      then have "i < 64" using bit_imp_le_length[of ?z i] by simp
      moreover have "bit ?z (a + i)"
        using b arg_cong[OF z, of "\<lambda>w. bit w i"] by (simp only: bit_drop_bit_eq o_apply)
      ultimately show False using less[of "a + i"] assms(1) by simp
    qed
  qed
  then have "?z = 0" by (intro bit_eqI) simp
  then show ?thesis by (simp only: xor_eq_0_iff)
qed

lemma xorshift64_inj: "xorshift64 x = xorshift64 y \<longleftrightarrow> x = y"
proof
  assume "xorshift64 x = xorshift64 y"
  then have "(x XOR push_bit 13 x) XOR drop_bit 7 (x XOR push_bit 13 x) =
      (y XOR push_bit 13 y) XOR drop_bit 7 (y XOR push_bit 13 y)"
    unfolding xorshift64_def Let_def by (rule push_xor_inj[rotated]) simp
  then have "x XOR push_bit 13 x = y XOR push_bit 13 y"
    by (rule drop_xor_inj[rotated]) simp
  then show "x = y" by (rule push_xor_inj[rotated]) simp
qed simp

lemma xorshift64_0: "xorshift64 0 = 0"
  by (simp add: xorshift64_def)

lemma xorshift64_funpow_nonzero: "x \<noteq> 0 \<Longrightarrow> (xorshift64 ^^ n) x \<noteq> 0"
  by (induction n) (metis funpow_0, metis funpow.simps(2) o_apply xorshift64_0 xorshift64_inj)

lemma seed_nonzero: "seed_from_key_nonce k nonce \<noteq> 0"
  by (simp add: seed_from_key_nonce_def Let_def)

lemma fnv_prime_cancel: "a * fnv_prime = b * fnv_prime \<longleftrightarrow> a = b"
proof
  assume "a * fnv_prime = b * fnv_prime"
  then have "a * fnv_prime * 0xce965057aff6957b = b * fnv_prime * 0xce965057aff6957b" by simp
  moreover have "fnv_prime * 0xce965057aff6957b = 1" by (simp add: fnv_prime_def)
  ultimately show "a = b" by (simp add: mult.assoc)
qed simp

text \<open>The key's hash is the only nonce for which the fallback seed is used.\<close>

lemma seed_inj_nonce:
  assumes "nonce \<noteq> nonce'" "nonce \<noteq> hash_key k" "nonce' \<noteq> hash_key k"
  shows "seed_from_key_nonce k nonce \<noteq> seed_from_key_nonce k nonce'"
proof -
  have nz: "(hash_key k XOR m) * fnv_prime \<noteq> 0" if "m \<noteq> hash_key k" for m
    using that fnv_prime_cancel[of "hash_key k XOR m" 0] by (simp add: xor_eq_0_iff)
  have "hash_key k XOR nonce \<noteq> hash_key k XOR nonce'"
    using assms(1) by (metis xor_swap xor_eq_0_iff xor_self_eq)
  then show ?thesis
    using nz[OF assms(2)] nz[OF assms(3)]
    by (simp add: seed_from_key_nonce_def Let_def fnv_prime_cancel)
qed

lemma keystream_state_nonzero: "(xorshift64 ^^ n) (seed_from_key_nonce k nonce) \<noteq> 0"
  by (rule xorshift64_funpow_nonzero) (rule seed_nonzero)

lemma u64_of_bytes:
  assumes "\<And>p. p < 8 \<Longrightarrow> (ucast (drop_bit (8 * p) x) :: u8) = ucast (drop_bit (8 * p) (y :: u64))"
  shows "x = y"
proof (rule bit_word_eqI)
  fix n assume n: "n < LENGTH(64)"
  have "bit (ucast (drop_bit (8 * (n div 8)) x) :: u8) (n mod 8) =
      bit (ucast (drop_bit (8 * (n div 8)) y) :: u8) (n mod 8)"
    using assms[of "n div 8"] n by simp
  then show "bit x n = bit y n"
    by (simp add: bit_unsigned_iff bit_drop_bit_eq)
qed

lemma first_word_differs:
  assumes "seed \<noteq> seed'"
  shows "\<exists>p<8. keystream seed p \<noteq> keystream seed' p"
proof (rule ccontr)
  assume eq: "\<not> (\<exists>p<8. keystream seed p \<noteq> keystream seed' p)"
  have "xorshift64 seed = xorshift64 seed'"
  proof (rule u64_of_bytes)
    fix p :: nat assume "p < 8"
    with eq have "keystream seed p = keystream seed' p" by blast
    with \<open>p < 8\<close> show "(ucast (drop_bit (8 * p) (xorshift64 seed)) :: u8) =
        ucast (drop_bit (8 * p) (xorshift64 seed'))"
      by (simp add: keystream_def)
  qed
  with assms show False by (simp add: xorshift64_inj)
qed

lemma distinct_nonces_differ:
  assumes "enabled ctx" "nonce \<noteq> nonce'" "nonce \<noteq> hash_key (key ctx)" "nonce' \<noteq> hash_key (key ctx)"
    and "8 \<le> n" "n \<le> length d"
  shows "crypto_xor ctx d n nonce \<noteq> crypto_xor ctx d n nonce'"
proof
  assume eq: "crypto_xor ctx d n nonce = crypto_xor ctx d n nonce'"
  obtain p where p: "p < 8" "keystream (seed_from_key_nonce (key ctx) nonce) p \<noteq>
      keystream (seed_from_key_nonce (key ctx) nonce') p"
    using first_word_differs[OF seed_inj_nonce[OF assms(2-4)]] by blast
  have "d ! p XOR keystream (seed_from_key_nonce (key ctx) nonce) p =
      d ! p XOR keystream (seed_from_key_nonce (key ctx) nonce') p"
    using arg_cong[OF eq, of "\<lambda>w. w ! p"] p(1) assms by (simp add: crypto_xor_nth)
  then show False using p(2) by (metis xor_swap xor_eq_0_iff xor_self_eq)
qed

text \<open>
  There are \<open>2 ^ 256\<close> keys and \<open>2 ^ 64\<close> seeds: for every nonce some two keys share a seed, so
  they produce the same keystream.
\<close>

lemma keys_collide:
  "\<exists>k k'. length k = CRYPTO_KEY_LEN \<and> length k' = CRYPTO_KEY_LEN \<and> k \<noteq> k' \<and>
     seed_from_key_nonce k nonce = seed_from_key_nonce k' nonce"
proof -
  let ?K = "{k :: bytes. set k \<subseteq> UNIV \<and> length k = CRYPTO_KEY_LEN}"
  have "card ?K = card (UNIV :: u8 set) ^ CRYPTO_KEY_LEN"
    by (rule card_lists_length_eq) simp
  then have cK: "card ?K = 2 ^ 256" by (simp add: card_word CRYPTO_KEY_LEN_def flip: power_mult)
  have "\<not> inj_on (\<lambda>k. seed_from_key_nonce k nonce) ?K"
  proof
    assume "inj_on (\<lambda>k. seed_from_key_nonce k nonce) ?K"
    then have "card ?K \<le> card (UNIV :: u64 set)" by (rule card_inj_on_le) auto
    then show False unfolding cK by (simp add: card_word)
  qed
  then show ?thesis unfolding inj_on_def by auto
qed

section \<open>Reading the key\<close>

lemma hex_val_char:
  assumes "hex_val c = Some v"
  shows "\<not> isspace c" "c \<noteq> CHR ''+''" "c \<noteq> CHR ''-''" "c \<noteq> CHR ''x''" "c \<noteq> CHR ''X''" "v < 16"
  using assms by (auto simp: hex_val_def isspace_def Let_def split: if_splits)

lemma sscanf_hex_pair:
  assumes "hex_val c = Some v" "hex_val d = Some w"
  shows "sscanf_02x [c, d] = Some (of_nat (16 * v + w))"
  using assms hex_val_char[OF assms(1)] hex_val_char[OF assms(2)]
  by (simp add: sscanf_02x_def)

lemma for_opt_append_all:
  assumes "\<And>i. i < n \<Longrightarrow> f i = Some (g i)"
  shows "for_opt (\<lambda>i out. case f i of None \<Rightarrow> None | Some b \<Rightarrow> Some (out @ [h b])) [0..<n] acc =
    Some (acc @ map (\<lambda>i. h (g i)) [0..<n])"
  using assms by (induction n) (simp_all add: for_opt_append)

lemma ucast_of_nat_8: "(ucast (of_nat m :: u32) :: u8) = of_nat m"
  by transfer simp

lemma parse_key_hex:
  assumes "length hex = 64" "\<And>i. i < 64 \<Longrightarrow> hex_val (hex ! i) = Some (v i)"
  shows "crypto_parse_key hex = Some (map (\<lambda>i. of_nat (16 * v (2 * i) + v (2 * i + 1))) [0..<32])"
proof -
  have pair: "sscanf_02x [hex ! (i * 2), hex ! (i * 2 + 1)] = Some (of_nat (16 * v (2 * i) + v (2 * i + 1)))"
    if "i < CRYPTO_KEY_LEN" for i
    using that assms(2)[of "i * 2"] assms(2)[of "i * 2 + 1"]
    by (intro sscanf_hex_pair) (simp_all add: CRYPTO_KEY_LEN_def mult.commute)
  have "for_opt (\<lambda>i out. case sscanf_02x [hex ! (i * 2), hex ! (i * 2 + 1)] of None \<Rightarrow> None
        | Some b \<Rightarrow> Some (out @ [ucast b :: u8])) [0..<CRYPTO_KEY_LEN] [] =
      Some ([] @ map (\<lambda>i. ucast (of_nat (16 * v (2 * i) + v (2 * i + 1)) :: u32)) [0..<CRYPTO_KEY_LEN])"
    using pair by (rule for_opt_append_all)
  from this[unfolded ucast_of_nat_8] show ?thesis
    using assms(1) by (simp add: crypto_parse_key_def CRYPTO_KEY_LEN_def)
qed

lemma parse_key_length: "length hex \<noteq> 64 \<Longrightarrow> crypto_parse_key hex = None"
  by (simp add: crypto_parse_key_def CRYPTO_KEY_LEN_def)

text \<open>The text of a comment is no key, whatever its length.\<close>

lemma comment_is_no_key: "crypto_parse_key (CHR ''#'' # t) = None"
proof (cases "length (CHR ''#'' # t) = 64")
  case True
  have "sscanf_02x [CHR ''#'', c] = None" for c
    by (simp add: sscanf_02x_def isspace_def hex_val_def)
  then show ?thesis using True by (simp add: crypto_parse_key_def CRYPTO_KEY_LEN_def upt_conv_Cons)
qed (simp only: parse_key_length not_False_eq_True)

text \<open>The key written with lower-case digits, as an operator would.\<close>

definition hex_digit :: "nat \<Rightarrow> char" where
  "hex_digit v = ''0123456789abcdef'' ! v"

definition hex_of_key :: "bytes \<Rightarrow> string" where
  "hex_of_key k = concat (map (\<lambda>b. [hex_digit (unat b div 16), hex_digit (unat b mod 16)]) k)"

lemma hex_val_digit: "v < 16 \<Longrightarrow> hex_val (hex_digit v) = Some v"
proof -
  have "\<forall>v\<in>set [0..<16]. hex_val (hex_digit v) = Some v" by code_simp
  then show "v < 16 \<Longrightarrow> hex_val (hex_digit v) = Some v" by simp
qed

lemma nth_concat_pairs:
  "i < length xs \<Longrightarrow> concat (map (\<lambda>b. [f b, g b]) xs) ! (2 * i) = f (xs ! i) \<and>
     concat (map (\<lambda>b. [f b, g b]) xs) ! (2 * i + 1) = g (xs ! i)"
proof (induction xs arbitrary: i)
  case (Cons x xs)
  then show ?case by (cases i) auto
qed simp

lemma length_concat_pairs: "length (concat (map (\<lambda>b. [f b, g b]) xs)) = 2 * length xs"
  by (induction xs) auto

lemma parse_key_roundtrip:
  assumes "length k = CRYPTO_KEY_LEN"
  shows "crypto_parse_key (hex_of_key k) = Some k"
proof -
  let ?v = "\<lambda>i. if even i then unat (k ! (i div 2)) div 16 else unat (k ! (i div 2)) mod 16"
  have dig: "hex_val (hex_of_key k ! i) = Some (?v i)" if "i < 64" for i
  proof -
    obtain j where j: "i = 2 * j \<or> i = 2 * j + 1" by (metis oddE evenE)
    then have "j < length k" using that assms by (auto simp: CRYPTO_KEY_LEN_def)
    note n = nth_concat_pairs[OF this, of "\<lambda>b. hex_digit (unat b div 16)" "\<lambda>b. hex_digit (unat b mod 16)",
        folded hex_of_key_def]
    have "unat (k ! j) div 16 < 16" using unat_u8_less[of "k ! j"] by linarith
    then show ?thesis using n j by (auto simp: hex_val_digit)
  qed
  have "length (hex_of_key k) = 64"
    using assms by (simp add: hex_of_key_def length_concat_pairs CRYPTO_KEY_LEN_def)
  from parse_key_hex[OF this dig] show ?thesis
    using assms by (simp add: CRYPTO_KEY_LEN_def list_eq_iff_nth_eq)
qed

text \<open>
  The conversion stops at the first character that is not a digit, so a pair such as
  \<open>1g\<close> is read as the byte 1: a string with 32 characters that are no hex digits is a key.
\<close>

definition sloppy_key :: string where
  "sloppy_key = concat (replicate 32 ''1g'')"

lemma sloppy_key_accepted: "crypto_parse_key sloppy_key = Some (replicate 32 1)"
proof -
  have key: "sloppy_key = concat (map (\<lambda>_. [CHR ''1'', CHR ''g'']) (replicate 32 ()))"
    by (simp add: sloppy_key_def map_replicate_const)
  have one: "sscanf_02x [CHR ''1'', CHR ''g''] = Some 1" by code_simp
  have "for_opt (\<lambda>i out. case sscanf_02x [sloppy_key ! (i * 2), sloppy_key ! (i * 2 + 1)] of None \<Rightarrow> None
        | Some b \<Rightarrow> Some (out @ [ucast b :: u8])) [0..<CRYPTO_KEY_LEN] [] =
      Some ([] @ map (\<lambda>i. ucast (1 :: u32)) [0..<CRYPTO_KEY_LEN])"
  proof (rule for_opt_append_all)
    fix i assume "i < CRYPTO_KEY_LEN"
    then have "i < length (replicate 32 ())" by (simp add: CRYPTO_KEY_LEN_def)
    note p = nth_concat_pairs[OF this, of "\<lambda>_. CHR ''1''" "\<lambda>_. CHR ''g''"]
    show "sscanf_02x [sloppy_key ! (i * 2), sloppy_key ! (i * 2 + 1)] = Some 1"
      using p one by (simp only: key mult.commute[of i])
  qed
  moreover have "length sloppy_key = CRYPTO_KEY_LEN * 2"
    by (simp only: key length_concat_pairs) (simp add: CRYPTO_KEY_LEN_def)
  ultimately show ?thesis
    by (simp add: crypto_parse_key_def map_replicate_const) (simp add: CRYPTO_KEY_LEN_def)
qed

section \<open>Properties\<close>

text \<open>
  The cipher as it is documented, byte by byte: FNV-1a over the bytes of the key and then the nonce gives the seed, every
  step of xorshift gives eight bytes of the stream, the low byte first.
\<close>

definition fnv1a :: "u64 list \<Rightarrow> u64" where
  "fnv1a xs = foldl (\<lambda>h x. (h XOR x) * 0x100000001b3) 0xcbf29ce484222325 xs"

definition reference_seed :: "bytes \<Rightarrow> u64 \<Rightarrow> u64" where
  "reference_seed k nonce =
     (let h = fnv1a (map ucast k @ [nonce]) in if h = 0 then 0x5A5A5A5A5A5A5A5A else h)"

definition reference_step :: "u64 \<Rightarrow> u64" where
  "reference_step x = (let y = x XOR x * 2 ^ 13; z = y XOR y div 2 ^ 7 in z XOR z * 2 ^ 17)"

definition reference_byte :: "u64 \<Rightarrow> nat \<Rightarrow> u8" where
  "reference_byte seed p = ucast ((reference_step ^^ (p div 8 + 1)) seed div 2 ^ (8 * (p mod 8)))"

definition reference_cipher :: "bytes \<Rightarrow> bytes \<Rightarrow> nat \<Rightarrow> u64 \<Rightarrow> bytes" where
  "reference_cipher k d n nonce =
     map (\<lambda>p. if p < n then d ! p XOR reference_byte (reference_seed k nonce) p else d ! p) [0..<length d]"

lemma reference_step_eq: "reference_step = xorshift64"
  by (simp add: fun_eq_iff reference_step_def xorshift64_def Let_def push_bit_eq_mult drop_bit_eq_div)

lemma reference_byte_eq: "reference_byte seed p = keystream seed p"
  by (simp add: reference_byte_def keystream_def reference_step_eq drop_bit_eq_div)

lemma foldl_bytes:
  "foldl (\<lambda>h x. (h XOR x) * fnv_prime) h (map ucast (take n k)) =
     fold (\<lambda>i s. (s XOR ucast (k ! i)) * fnv_prime) [0..<n] h" if "n \<le> length k" for k :: bytes
  using that by (induction n) (simp_all add: take_Suc_conv_app_nth)

lemma reference_seed_eq: "length k = CRYPTO_KEY_LEN \<Longrightarrow> reference_seed k nonce = seed_from_key_nonce k nonce"
  using foldl_bytes[of CRYPTO_KEY_LEN k "0xcbf29ce484222325"]
  by (simp add: reference_seed_def fnv1a_def seed_from_key_nonce_def hash_key_def fnv_prime_def)

text \<open>C29: The cipher in steps of eight bytes, with its tail, is the documented cipher byte by byte: for every key of 32
  bytes, data, length and nonce the enabled cipher changes exactly the first \<open>n\<close> bytes, adding the stream that the key
  and the nonce seed; applying it again gives the data back; the disabled cipher changes nothing.\<close>

theorem cipher_equals_reference:
  assumes "length k = CRYPTO_KEY_LEN"
  shows "crypto_xor (crypto_init (Some k)) d n nonce = reference_cipher k d n nonce \<and>
    crypto_xor (crypto_init (Some k)) (crypto_xor (crypto_init (Some k)) d n nonce) n nonce = d \<and>
    crypto_xor (crypto_init None) d n nonce = d"
proof (intro conjI)
  have c: "enabled (crypto_init (Some k))" "key (crypto_init (Some k)) = k"
    using assms by (simp_all add: crypto_init_def memcpy_def)
  show "crypto_xor (crypto_init (Some k)) d n nonce = reference_cipher k d n nonce"
    using c by (intro nth_equalityI)
      (simp_all add: reference_cipher_def crypto_xor_length crypto_xor_nth reference_byte_eq reference_seed_eq[OF assms])
  show "crypto_xor (crypto_init (Some k)) (crypto_xor (crypto_init (Some k)) d n nonce) n nonce = d"
    by (rule xor_cipher.crypt_involutive)
  show "crypto_xor (crypto_init None) d n nonce = d" by (rule crypto_xor_disabled) (simp add: crypto_init_def)
qed

theorem cipher_equals_reference_witness:
  "crypto_xor (crypto_init (Some (replicate 32 7))) [1, 2, 3] 2 9 = reference_cipher (replicate 32 7) [1, 2, 3] 2 9"
  using cipher_equals_reference[of "replicate 32 7" "[1, 2, 3]" 2 9] by (simp add: CRYPTO_KEY_LEN_def)

text \<open>C31: \<open>crypto_parse_key\<close> reads back the 64 hexadecimal digits of every key, and rejects every text of
  another length.\<close>

theorem key_text_roundtrip:
  assumes "length k = CRYPTO_KEY_LEN" "length t \<noteq> 64"
  shows "crypto_parse_key (hex_of_key k) = Some k \<and> crypto_parse_key t = None"
  using parse_key_roundtrip[OF assms(1)] parse_key_length[OF assms(2)] by blast

theorem key_text_roundtrip_witness:
  "crypto_parse_key (hex_of_key (replicate 32 0xAB)) = Some (replicate 32 0xAB) \<and> crypto_parse_key ''AB'' = None"
  using key_text_roundtrip[of "replicate 32 0xAB" "''AB''"] by (simp add: CRYPTO_KEY_LEN_def)

text \<open>The seed is 64 bits of a 256-bit key: for every nonce two different keys have the same seed, so
  \<open>crypto_xor\<close> with either of them is the same function (the comment in \<open>crypto.c\<close> says that different
  keys always produce different seeds).\<close>

lemma different_keys_same_cipher:
  "\<exists>k k'. length k = CRYPTO_KEY_LEN \<and> length k' = CRYPTO_KEY_LEN \<and> k \<noteq> k' \<and>
     (\<forall>d n. crypto_xor (crypto_init (Some k)) d n nonce = crypto_xor (crypto_init (Some k')) d n nonce)"
proof -
  obtain k k' where k: "length k = CRYPTO_KEY_LEN" "length k' = CRYPTO_KEY_LEN" "k \<noteq> k'"
    "seed_from_key_nonce k nonce = seed_from_key_nonce k' nonce" using keys_collide by blast
  have "crypto_xor (crypto_init (Some k)) d n nonce = crypto_xor (crypto_init (Some k')) d n nonce" for d n
    using k by (simp add: crypto_init_def crypto_xor_def memcpy_all)
  then show ?thesis using k by blast
qed

end
