(* ===== verification/Config.thy ===== *)
theory Config
  imports CString
begin

text \<open>
  \<open>include/config.h\<close> and \<open>src/config.c\<close>: the configuration and the INI parser. An array of
  characters is the string it holds; \<open>paths\<close> and \<open>forward_routes\<close> are the whole arrays with
  their counters. The file is the list of its characters.
\<close>

section \<open>The data\<close>

record path_config =
  pc_name :: string
  pc_interface :: string
  pc_remote_ip :: string
  pc_remote_port :: u16
  pc_weight :: cfloat
  pc_enabled :: bool

record gateway_config =
  cfg_mode :: string
  cfg_tun_name :: string
  cfg_tun_addr :: string
  cfg_k :: int
  cfg_redundancy_ratio :: cfloat
  cfg_block_timeout_ms :: int
  cfg_max_payload :: int
  cfg_window_size :: int
  cfg_strategy_type :: string
  cfg_probe_interval_ms :: int
  cfg_probe_loss_threshold :: cfloat
  cfg_ewma_alpha :: cfloat
  cfg_listen_port :: int
  cfg_paths :: "path_config list"
  cfg_path_count :: nat
  cfg_metrics_port :: int
  cfg_log_level :: int
  cfg_crypto_key :: string
  cfg_ip_forward :: bool
  cfg_forward_routes :: "string list"
  cfg_forward_route_count :: nat

text \<open>The objects that \<open>memset\<close> leaves.\<close>

definition zero_path :: path_config where
  "zero_path = \<lparr>pc_name = [], pc_interface = [], pc_remote_ip = [], pc_remote_port = 0,
     pc_weight = Fin 0, pc_enabled = False\<rparr>"

text \<open>\<open>1.5f\<close>, \<open>0.3f\<close> and \<open>0.2f\<close> are the nearest floats.\<close>

definition default_config :: gateway_config where
  "default_config =
     \<lparr>cfg_mode = ''tx'', cfg_tun_name = [], cfg_tun_addr = [], cfg_k = 4,
      cfg_redundancy_ratio = f32 (3 / 2), cfg_block_timeout_ms = 5, cfg_max_payload = 1400,
      cfg_window_size = 8, cfg_strategy_type = ''fixed'', cfg_probe_interval_ms = 100,
      cfg_probe_loss_threshold = f32 (3 / 10), cfg_ewma_alpha = f32 (2 / 10),
      cfg_listen_port = 7000, cfg_paths = replicate MAX_PATHS zero_path, cfg_path_count = 0,
      cfg_metrics_port = 0, cfg_log_level = 2, cfg_crypto_key = [], cfg_ip_forward = False,
      cfg_forward_routes = replicate 8 [], cfg_forward_route_count = 0\<rparr>"

section \<open>The parser\<close>

definition trim :: "string \<Rightarrow> string" where
  "trim s = (let t = dropWhile isspace s in
     if t = [] then t else rev (dropWhile isspace (rev t)))"

text \<open>\<open>cur_path\<close> points into the array \<open>paths\<close> or is null.\<close>

record parser =
  ps_cfg :: gateway_config
  ps_section :: string
  ps_cur :: "nat option"

definition open_section :: "string \<Rightarrow> parser \<Rightarrow> parser" where
  "open_section title st =
     (let section = strncpy 63 (trim title); c = ps_cfg st in
      if take 5 section = ''path.'' then
        if cfg_path_count c \<ge> MAX_PATHS then st\<lparr>ps_section := section, ps_cur := None\<rparr>
        else
          let i = cfg_path_count c;
              nlen = length (drop 5 section);
              nlen = (if nlen \<ge> 32 then 31 else nlen);
              path = zero_path\<lparr>pc_weight := Fin 1, pc_enabled := True,
                               pc_name := take nlen (drop 5 section)\<rparr>
          in \<lparr>ps_cfg = c\<lparr>cfg_path_count := i + 1, cfg_paths := (cfg_paths c)[i := path]\<rparr>,
              ps_section = section, ps_cur = Some i\<rparr>
      else st\<lparr>ps_section := section, ps_cur := None\<rparr>)"

text \<open>
  One assignment in each section. \<open>None\<close> is the undefined behaviour of \<open>atoi\<close>.
\<close>

definition set_general :: "string \<Rightarrow> string \<Rightarrow> gateway_config \<Rightarrow> gateway_config option" where
  "set_general key val c =
     (if key = ''mode'' then Some (c\<lparr>cfg_mode := strncpy 7 val\<rparr>)
      else if key = ''tun_name'' then Some (c\<lparr>cfg_tun_name := strncpy 15 val\<rparr>)
      else if key = ''tun_addr'' then Some (c\<lparr>cfg_tun_addr := strncpy 19 val\<rparr>)
      else if key = ''listen_port'' then map_option (\<lambda>v. c\<lparr>cfg_listen_port := v\<rparr>) (atoi val)
      else if key = ''metrics_port'' then map_option (\<lambda>v. c\<lparr>cfg_metrics_port := v\<rparr>) (atoi val)
      else if key = ''log_level'' then map_option (\<lambda>v. c\<lparr>cfg_log_level := v\<rparr>) (atoi val)
      else if key = ''crypto_key'' then Some (c\<lparr>cfg_crypto_key := strncpy 64 val\<rparr>)
      else Some c)"

definition set_coding :: "string \<Rightarrow> string \<Rightarrow> gateway_config \<Rightarrow> gateway_config option" where
  "set_coding key val c =
     (if key = ''k'' then map_option (\<lambda>v. c\<lparr>cfg_k := v\<rparr>) (atoi val)
      else if key = ''redundancy_ratio'' then
        Some (c\<lparr>cfg_redundancy_ratio := to_float (atof val)\<rparr>)
      else if key = ''block_timeout_ms'' then
        map_option (\<lambda>v. c\<lparr>cfg_block_timeout_ms := v\<rparr>) (atoi val)
      else if key = ''max_payload'' then map_option (\<lambda>v. c\<lparr>cfg_max_payload := v\<rparr>) (atoi val)
      else if key = ''window_size'' then map_option (\<lambda>v. c\<lparr>cfg_window_size := v\<rparr>) (atoi val)
      else Some c)"

definition set_strategy :: "string \<Rightarrow> string \<Rightarrow> gateway_config \<Rightarrow> gateway_config option" where
  "set_strategy key val c =
     (if key = ''type'' then Some (c\<lparr>cfg_strategy_type := strncpy 15 val\<rparr>)
      else if key = ''probe_interval_ms'' then
        map_option (\<lambda>v. c\<lparr>cfg_probe_interval_ms := v\<rparr>) (atoi val)
      else if key = ''probe_loss_threshold'' then
        Some (c\<lparr>cfg_probe_loss_threshold := to_float (atof val)\<rparr>)
      else if key = ''ewma_alpha'' then Some (c\<lparr>cfg_ewma_alpha := to_float (atof val)\<rparr>)
      else Some c)"

definition set_forward :: "string \<Rightarrow> string \<Rightarrow> gateway_config \<Rightarrow> gateway_config" where
  "set_forward key val c =
     (if key = ''ip_forward'' then c\<lparr>cfg_ip_forward := (val = ''true'')\<rparr>
      else if key = ''route'' \<and> cfg_forward_route_count c < 8 then
        let rlen = length val;
            rlen = (if rlen \<ge> 48 then 47 else rlen);
            i = cfg_forward_route_count c
        in c\<lparr>cfg_forward_routes := (cfg_forward_routes c)[i := take rlen val],
             cfg_forward_route_count := i + 1\<rparr>
      else c)"

definition set_path :: "string \<Rightarrow> string \<Rightarrow> path_config \<Rightarrow> path_config option" where
  "set_path key val p =
     (if key = ''interface'' then Some (p\<lparr>pc_interface := strncpy 15 val\<rparr>)
      else if key = ''remote_ip'' then Some (p\<lparr>pc_remote_ip := strncpy 39 val\<rparr>)
      else if key = ''remote_port'' then
        map_option (\<lambda>v. p\<lparr>pc_remote_port := word_of_int v\<rparr>) (atoi val)
      else if key = ''weight'' then Some (p\<lparr>pc_weight := to_float (atof val)\<rparr>)
      else if key = ''enabled'' then Some (p\<lparr>pc_enabled := (val = ''true'')\<rparr>)
      else Some p)"

definition set_key :: "string \<Rightarrow> string \<Rightarrow> parser \<Rightarrow> parser option" where
  "set_key key val st =
     (let c = ps_cfg st; put = map_option (\<lambda>c'. st\<lparr>ps_cfg := c'\<rparr>) in
      if ps_section st = ''general'' then put (set_general key val c)
      else if ps_section st = ''coding'' then put (set_coding key val c)
      else if ps_section st = ''strategy'' then put (set_strategy key val c)
      else if ps_section st = ''forward'' then put (Some (set_forward key val c))
      else case ps_cur st of
        None \<Rightarrow> Some st
      | Some i \<Rightarrow> put (map_option (\<lambda>p. c\<lparr>cfg_paths := (cfg_paths c)[i := p]\<rparr>)
                                  (set_path key val (cfg_paths c ! i))))"

text \<open>The body of the loop over the lines.\<close>

definition config_line :: "string \<Rightarrow> parser \<Rightarrow> parser option" where
  "config_line line st =
     (let p = trim line in
      if p = [] \<or> hd p = CHR ''#'' then Some st
      else if hd p = CHR ''['' then
        (case split_at (CHR '']'') p of
           None \<Rightarrow> Some st
         | Some (title, _) \<Rightarrow> Some (open_section (tl title) st))
      else
        (case split_at (CHR ''='') p of
           None \<Rightarrow> Some st
         | Some (key, val) \<Rightarrow> set_key (trim key) (trim val) st))"

lemma fgets_chars_length: "fgets_chars n s = (l, r) \<Longrightarrow> length l + length r = length s"
  by (induction n s arbitrary: l r rule: fgets_chars.induct) (auto split: if_splits prod.splits)

lemma fgets_shorter: "fgets (Suc n) s = Some (l, r) \<Longrightarrow> length r < length s"
  by (cases s) (auto simp: fgets_def dest: fgets_chars_length split: if_splits prod.splits)

function config_lines :: "string \<Rightarrow> parser \<Rightarrow> parser option" where
  "config_lines file st =
     (case fgets 255 file of
        None \<Rightarrow> Some st
      | Some (line, rest) \<Rightarrow>
          (case config_line (cstr line) st of None \<Rightarrow> None | Some st' \<Rightarrow> config_lines rest st'))"
  by pat_completeness auto
termination
  by (relation "measure (length \<circ> fst)") (auto dest: fgets_shorter[of 254, simplified])

declare config_lines.simps [simp del]

definition clamp :: "int \<Rightarrow> int \<Rightarrow> int \<Rightarrow> int" where
  "clamp lo hi v = (let v = (if v < lo then lo else v) in if v > hi then hi else v)"

definition validate :: "gateway_config \<Rightarrow> gateway_config" where
  "validate c =
     c\<lparr>cfg_k := clamp 1 (int MAX_K) (cfg_k c),
       cfg_window_size := clamp 1 (int MAX_WINDOW) (cfg_window_size c),
       cfg_max_payload := clamp 1 (int MAX_PAYLOAD) (cfg_max_payload c)\<rparr>"

text \<open>
  The result: -1 when the file cannot be opened, undefined behaviour when some number
  overflows \<open>atoi\<close>, otherwise the configuration.
\<close>

datatype load_result = Unreadable | Undefined | Loaded gateway_config

definition config_load :: "string option \<Rightarrow> load_result" where
  "config_load file =
     (case file of
        None \<Rightarrow> Unreadable
      | Some text \<Rightarrow>
          (case config_lines text \<lparr>ps_cfg = default_config, ps_section = [], ps_cur = None\<rparr> of
             None \<Rightarrow> Undefined
           | Some st \<Rightarrow> Loaded (validate (ps_cfg st))))"

section \<open>What the configuration satisfies\<close>

definition path_ok :: "path_config \<Rightarrow> bool" where
  "path_ok p \<longleftrightarrow> length (pc_name p) < 32 \<and> length (pc_interface p) < 16 \<and>
     length (pc_remote_ip p) < 40 \<and> is_float (pc_weight p)"

definition config_shape :: "gateway_config \<Rightarrow> bool" where
  "config_shape c \<longleftrightarrow>
     length (cfg_paths c) = MAX_PATHS \<and> cfg_path_count c \<le> MAX_PATHS \<and> (\<forall>p \<in> set (cfg_paths c). path_ok p) \<and>
     length (cfg_forward_routes c) = 8 \<and> cfg_forward_route_count c \<le> 8 \<and>
     (\<forall>r \<in> set (cfg_forward_routes c). length r < 48) \<and>
     length (cfg_mode c) < 8 \<and> length (cfg_tun_name c) < 16 \<and> length (cfg_tun_addr c) < 20 \<and>
     length (cfg_strategy_type c) < 16 \<and> length (cfg_crypto_key c) < 65 \<and>
     is_float (cfg_redundancy_ratio c) \<and> is_float (cfg_probe_loss_threshold c) \<and>
     is_float (cfg_ewma_alpha c)"

definition config_ok :: "gateway_config \<Rightarrow> bool" where
  "config_ok c \<longleftrightarrow> config_shape c \<and> 1 \<le> cfg_k c \<and> cfg_k c \<le> int MAX_K \<and>
     1 \<le> cfg_window_size c \<and> cfg_window_size c \<le> int MAX_WINDOW \<and>
     1 \<le> cfg_max_payload c \<and> cfg_max_payload c \<le> int MAX_PAYLOAD"

definition parser_ok :: "parser \<Rightarrow> bool" where
  "parser_ok st \<longleftrightarrow> config_shape (ps_cfg st) \<and> length (ps_section st) < 64 \<and>
     (\<forall>i. ps_cur st = Some i \<longrightarrow> i < cfg_path_count (ps_cfg st))"

lemma clamp_range: "lo \<le> hi \<Longrightarrow> lo \<le> clamp lo hi v \<and> clamp lo hi v \<le> hi"
  by (simp add: clamp_def)

lemma strncpy_length: "length (strncpy n s) \<le> n"
  by (simp add: strncpy_def)

lemma strncpy_fits: "n < m \<Longrightarrow> length (strncpy n s) < m"
  using strncpy_length[of n s] by linarith

lemma is_float_to_float [simp]: "is_float (to_float v)"
  by (cases v) (simp_all add: is_float_f32)

lemma is_float_simps [simp]: "is_float (Fin 0)" "is_float (Fin 1)" "is_float (f32 x)"
  using r32_int[of 1] by (simp_all add: is_float_f32 is_float_Fin)

lemma zero_path_ok: "path_ok zero_path"
  by (simp add: zero_path_def path_ok_def)

lemma default_config_shape: "config_shape default_config"
  by (simp add: default_config_def config_shape_def zero_path_ok)

lemma set_path_ok: "set_path key val p = Some p' \<Longrightarrow> path_ok p \<Longrightarrow> path_ok p'"
  by (auto simp: set_path_def path_ok_def strncpy_fits split: if_splits)

lemma set_general_shape: "set_general key val c = Some c' \<Longrightarrow> config_shape c \<Longrightarrow> config_shape c'"
  by (auto simp: set_general_def config_shape_def strncpy_fits split: if_splits)

lemma set_coding_shape: "set_coding key val c = Some c' \<Longrightarrow> config_shape c \<Longrightarrow> config_shape c'"
  by (auto simp: set_coding_def config_shape_def split: if_splits)

lemma set_strategy_shape: "set_strategy key val c = Some c' \<Longrightarrow> config_shape c \<Longrightarrow> config_shape c'"
  by (auto simp: set_strategy_def config_shape_def strncpy_fits split: if_splits)

lemma set_forward_shape: "config_shape c \<Longrightarrow> config_shape (set_forward key val c)"
  by (auto simp: set_forward_def config_shape_def Let_def dest!: set_update_subset_insert[THEN subsetD])

text \<open>No assignment changes the number of paths.\<close>

lemma set_path_count:
  "set_general key val c = Some c' \<Longrightarrow> cfg_path_count c' = cfg_path_count c"
  "set_coding key val c = Some c' \<Longrightarrow> cfg_path_count c' = cfg_path_count c"
  "set_strategy key val c = Some c' \<Longrightarrow> cfg_path_count c' = cfg_path_count c"
  "cfg_path_count (set_forward key val c) = cfg_path_count c"
  by (auto simp: set_general_def set_coding_def set_strategy_def set_forward_def Let_def split: if_splits)

lemma config_shape_path:
  assumes "config_shape c" "path_ok p"
  shows "config_shape (c\<lparr>cfg_paths := (cfg_paths c)[i := p]\<rparr>)"
  using assms by (auto simp: config_shape_def dest!: set_update_subset_insert[THEN subsetD])

lemma parser_ok_cfg:
  assumes "parser_ok st" "config_shape c'" "cfg_path_count c' = cfg_path_count (ps_cfg st)"
  shows "parser_ok (st\<lparr>ps_cfg := c'\<rparr>)"
  using assms by (simp add: parser_ok_def)

lemma parser_ok_path: "parser_ok st \<Longrightarrow> ps_cur st = Some i \<Longrightarrow> path_ok (cfg_paths (ps_cfg st) ! i)"
  by (simp add: parser_ok_def config_shape_def)

lemma parser_ok_shape: "parser_ok st \<Longrightarrow> config_shape (ps_cfg st)"
  by (simp add: parser_ok_def)

text \<open>An assignment keeps a property of the parser that each section's update keeps.\<close>

lemma put_keeps:
  assumes "map_option (\<lambda>c. st\<lparr>ps_cfg := c\<rparr>) r = Some st'" "\<And>c. r = Some c \<Longrightarrow> P (st\<lparr>ps_cfg := c\<rparr>)"
  shows "P st'"
  using assms by (cases r) auto

lemma set_key_section:
  "ps_section st = ''general'' \<Longrightarrow>
     set_key key val st = map_option (\<lambda>c. st\<lparr>ps_cfg := c\<rparr>) (set_general key val (ps_cfg st))"
  "ps_section st = ''coding'' \<Longrightarrow>
     set_key key val st = map_option (\<lambda>c. st\<lparr>ps_cfg := c\<rparr>) (set_coding key val (ps_cfg st))"
  "ps_section st = ''strategy'' \<Longrightarrow>
     set_key key val st = map_option (\<lambda>c. st\<lparr>ps_cfg := c\<rparr>) (set_strategy key val (ps_cfg st))"
  "ps_section st = ''forward'' \<Longrightarrow>
     set_key key val st = Some (st\<lparr>ps_cfg := set_forward key val (ps_cfg st)\<rparr>)"
  by (simp_all add: set_key_def Let_def)

lemma set_key_keeps:
  assumes "set_key key val st = Some st'" and "P st"
    and "\<And>c. set_general key val (ps_cfg st) = Some c \<Longrightarrow> P (st\<lparr>ps_cfg := c\<rparr>)"
    and "\<And>c. set_coding key val (ps_cfg st) = Some c \<Longrightarrow> P (st\<lparr>ps_cfg := c\<rparr>)"
    and "\<And>c. set_strategy key val (ps_cfg st) = Some c \<Longrightarrow> P (st\<lparr>ps_cfg := c\<rparr>)"
    and "P (st\<lparr>ps_cfg := set_forward key val (ps_cfg st)\<rparr>)"
    and "\<And>i p. ps_cur st = Some i \<Longrightarrow> set_path key val (cfg_paths (ps_cfg st) ! i) = Some p \<Longrightarrow>
       P (st\<lparr>ps_cfg := (ps_cfg st)\<lparr>cfg_paths := (cfg_paths (ps_cfg st))[i := p]\<rparr>\<rparr>)"
  shows "P st'"
proof -
  consider "ps_section st = ''general''" | "ps_section st = ''coding''" | "ps_section st = ''strategy''"
    | "ps_section st = ''forward''" | (other) "ps_section st \<notin> {''general'', ''coding'', ''strategy'', ''forward''}"
    by blast
  then show ?thesis
  proof cases
    case other
    then have neq: "(ps_section st = ''general'') = False" "(ps_section st = ''coding'') = False"
      "(ps_section st = ''strategy'') = False" "(ps_section st = ''forward'') = False" by simp_all
    show ?thesis
    proof (cases "ps_cur st")
      case None
      then show ?thesis using assms(1,2) by (simp add: set_key_def Let_def neq)
    next
      case (Some i)
      then have "map_option (\<lambda>c. st\<lparr>ps_cfg := c\<rparr>)
          (map_option (\<lambda>p. (ps_cfg st)\<lparr>cfg_paths := (cfg_paths (ps_cfg st))[i := p]\<rparr>)
             (set_path key val (cfg_paths (ps_cfg st) ! i))) = Some st'"
        using assms(1) by (simp add: set_key_def Let_def neq)
      then show ?thesis by (rule put_keeps) (use assms(7)[OF Some] in auto)
    qed
  next
    case 1
    show ?thesis
      by (rule put_keeps[OF assms(1)[unfolded set_key_section(1)[OF 1]]]) (rule assms(3))
  next
    case 2
    show ?thesis
      by (rule put_keeps[OF assms(1)[unfolded set_key_section(2)[OF 2]]]) (rule assms(4))
  next
    case 3
    show ?thesis
      by (rule put_keeps[OF assms(1)[unfolded set_key_section(3)[OF 3]]]) (rule assms(5))
  next
    case 4
    then show ?thesis using assms(1,6) by (simp add: set_key_section)
  qed
qed

lemma set_key_ok:
  assumes "set_key key val st = Some st'" "parser_ok st"
  shows "parser_ok st'"
  using assms
proof (rule set_key_keeps[where P = parser_ok])
  note sh = parser_ok_shape[OF assms(2)]
  note keep = parser_ok_cfg[OF assms(2)]
  show "parser_ok (st\<lparr>ps_cfg := c\<rparr>)" if "set_general key val (ps_cfg st) = Some c" for c
    using set_general_shape[OF that sh] set_path_count(1)[OF that] by (rule keep)
  show "parser_ok (st\<lparr>ps_cfg := c\<rparr>)" if "set_coding key val (ps_cfg st) = Some c" for c
    using set_coding_shape[OF that sh] set_path_count(2)[OF that] by (rule keep)
  show "parser_ok (st\<lparr>ps_cfg := c\<rparr>)" if "set_strategy key val (ps_cfg st) = Some c" for c
    using set_strategy_shape[OF that sh] set_path_count(3)[OF that] by (rule keep)
  show "parser_ok (st\<lparr>ps_cfg := set_forward key val (ps_cfg st)\<rparr>)"
    using set_forward_shape[OF sh] set_path_count(4) by (rule keep)
  show "parser_ok (st\<lparr>ps_cfg := (ps_cfg st)\<lparr>cfg_paths := (cfg_paths (ps_cfg st))[i := p]\<rparr>\<rparr>)"
    if "ps_cur st = Some i" "set_path key val (cfg_paths (ps_cfg st) ! i) = Some p" for i p
    using config_shape_path[OF sh set_path_ok[OF that(2) parser_ok_path[OF assms(2) that(1)]]]
    by (rule keep) simp
qed

lemma new_path_ok: "n < 32 \<Longrightarrow> path_ok (zero_path\<lparr>pc_weight := Fin 1, pc_enabled := True, pc_name := take n s\<rparr>)"
  using is_float_simps(2) by (simp add: path_ok_def zero_path_def del: is_float.simps)

lemma open_section_ok:
  assumes "parser_ok st"
  shows "parser_ok (open_section title st)"
proof -
  let ?c = "ps_cfg st"
  let ?sec = "strncpy 63 (trim title)"
  have sec: "length ?sec < 64" by (simp add: strncpy_fits)
  show ?thesis
  proof (cases "take 5 ?sec = ''path.'' \<and> cfg_path_count ?c < MAX_PATHS")
    case False
    then show ?thesis using assms sec by (auto simp: open_section_def parser_ok_def Let_def)
  next
    case True
    have "config_shape (?c\<lparr>cfg_paths := (cfg_paths ?c)[cfg_path_count ?c := q]\<rparr>)" if "path_ok q" for q
      using parser_ok_shape[OF assms] that by (rule config_shape_path)
    then have "config_shape (?c\<lparr>cfg_path_count := cfg_path_count ?c + 1,
        cfg_paths := (cfg_paths ?c)[cfg_path_count ?c := q]\<rparr>)" if "path_ok q" for q
      using that True by (simp add: config_shape_def)
    then show ?thesis using True sec
      by (simp add: open_section_def parser_ok_def Let_def new_path_ok not_le)
  qed
qed

lemma config_line_ok: "config_line line st = Some st' \<Longrightarrow> parser_ok st \<Longrightarrow> parser_ok st'"
  by (auto simp: config_line_def Let_def intro: open_section_ok set_key_ok split: if_splits option.splits)

lemma config_lines_Some:
  assumes "config_lines inp st = Some st'"
  obtains (eof) "inp = []" "st' = st"
  | (line) l r st1 where "fgets 255 inp = Some (l, r)" "config_line (cstr l) st = Some st1"
      "config_lines r st1 = Some st'"
proof (cases "fgets 255 inp")
  case None
  with assms have "Some st = Some st'" by (subst (asm) config_lines.simps) simp
  then show thesis using None by (intro eof) (simp_all add: fgets_def split: if_splits)
next
  case (Some lr)
  with assms show thesis
    by (subst (asm) config_lines.simps) (cases lr, auto split: option.splits intro: line)
qed

lemma config_lines_ok: "config_lines inp st = Some st' \<Longrightarrow> parser_ok st \<Longrightarrow> parser_ok st'"
proof (induction inp st rule: config_lines.induct)
  case (1 inp st)
  from 1(2) show ?case
  proof (cases rule: config_lines_Some)
    case (line l r st1)
    then show ?thesis using 1(1)[OF line(1) refl line(2) line(3)] config_line_ok 1(3) by blast
  qed (use 1(3) in simp)
qed

lemma validate_ok: "config_shape c \<Longrightarrow> config_ok (validate c)"
  using clamp_range[of 1 "int MAX_K"] clamp_range[of 1 "int MAX_WINDOW"] clamp_range[of 1 "int MAX_PAYLOAD"]
  by (auto simp: config_ok_def validate_def config_shape_def limits)

lemma config_load_ok:
  assumes "config_load file = Loaded c"
  shows "config_ok c"
proof -
  obtain inp st where "config_lines inp \<lparr>ps_cfg = default_config, ps_section = [], ps_cur = None\<rparr> = Some st"
    and c: "c = validate (ps_cfg st)"
    using assms by (auto simp: config_load_def split: option.splits)
  then have "parser_ok st"
    by (elim config_lines_ok) (simp add: parser_ok_def default_config_shape)
  then show ?thesis by (simp add: c parser_ok_def validate_ok)
qed

section \<open>Lines and assignments\<close>

text \<open>A line that fits the buffer is read as one line.\<close>

lemma fgets_chars_line:
  "newline \<notin> set l \<Longrightarrow> length l < n \<Longrightarrow> fgets_chars n (l @ newline # s) = (l @ [newline], s)"
proof (induction l arbitrary: n)
  case Nil
  then show ?case by (cases n) simp_all
next
  case (Cons c l)
  then show ?case by (cases n) auto
qed

lemma fgets_chars_long:
  "newline \<notin> set l \<Longrightarrow> length l = n \<Longrightarrow> fgets_chars n (l @ s) = (l, s)"
  by (induction l arbitrary: n) auto

lemma fgets_chars_short:
  "newline \<notin> set l \<Longrightarrow> length l < n \<Longrightarrow> fgets_chars n l = (l, [])"
proof (induction l arbitrary: n)
  case (Cons c l)
  then show ?case by (cases n) auto
qed simp

lemma config_lines_line:
  assumes "newline \<notin> set l" "length l < 255"
  shows "config_lines (l @ newline # s) st =
    (case config_line (cstr (l @ [newline])) st of None \<Rightarrow> None | Some st' \<Rightarrow> config_lines s st')"
  using fgets_chars_line[OF assms] by (subst config_lines.simps) (simp add: fgets_def)

lemma config_lines_long:
  assumes "newline \<notin> set l" "length l = 255"
  shows "config_lines (l @ s) st =
    (case config_line (cstr l) st of None \<Rightarrow> None | Some st' \<Rightarrow> config_lines s st')"
  using fgets_chars_long[OF assms, of s] assms(2) by (subst config_lines.simps) (auto simp: fgets_def)

text \<open>Trimming white space off a word.\<close>

definition word_like :: "string \<Rightarrow> bool" where
  "word_like s \<longleftrightarrow> s \<noteq> [] \<and> \<not> isspace (hd s) \<and> \<not> isspace (last s)"

definition blank :: "string \<Rightarrow> bool" where
  "blank s \<longleftrightarrow> (\<forall>c \<in> set s. isspace c)"

lemma dropWhile_blank: "blank s \<Longrightarrow> dropWhile isspace (s @ t) = dropWhile isspace t"
  by (simp add: blank_def dropWhile_append2)

lemma dropWhile_word: "word_like s \<Longrightarrow> dropWhile isspace (s @ t) = s @ t"
  by (cases s) (simp_all add: word_like_def)

lemma blank_rev: "blank (rev s) = blank s"
  by (simp add: blank_def)

lemma word_like_rev: "word_like (rev s) = word_like s"
  by (auto simp: word_like_def hd_rev last_rev)

lemma trim_blank: "blank s \<Longrightarrow> trim s = []"
  using dropWhile_blank[of s "[]"] by (simp add: trim_def)

lemma trim_word:
  assumes "blank a" "word_like s" "blank b"
  shows "trim (a @ s @ b) = s"
proof -
  have "rev (s @ b) = rev b @ rev s @ []" by simp
  then have "dropWhile isspace (rev (s @ b)) = rev s"
    using assms by (simp only: dropWhile_blank blank_rev dropWhile_word word_like_rev) simp
  then show ?thesis using assms by (simp add: trim_def dropWhile_blank dropWhile_word word_like_def)
qed

lemma split_at_first: "c \<notin> set l \<Longrightarrow> split_at c (l @ c # r) = Some (l, r)"
  by (induction l) auto

lemma split_at_None: "c \<notin> set l \<Longrightarrow> split_at c l = None"
  by (induction l) auto

lemma trim_idem: "trim (trim s) = trim s"
proof (cases "blank s")
  case True
  then show ?thesis by (simp add: trim_blank blank_def)
next
  case False
  define t where "t = dropWhile isspace s"
  define u where "u = dropWhile isspace (rev t)"
  have t: "t \<noteq> []" "\<not> isspace (hd t)" using False hd_dropWhile[of isspace s]
    by (auto simp: t_def blank_def)
  then have nb: "\<not> (\<forall>c \<in> set (rev t). isspace c)" by (auto intro!: bexI[of _ "hd t"])
  then have u: "u \<noteq> []" "\<not> isspace (hd u)" using hd_dropWhile[of isspace "rev t"] by (auto simp: u_def)
  have "last u = last (rev t)" using u(1) by (metis last_appendR takeWhile_dropWhile_id u_def)
  then have "word_like (rev u)" using u t by (simp add: word_like_def hd_rev last_rev)
  then have "trim ([] @ rev u @ []) = rev u" by (intro trim_word) (simp_all add: blank_def)
  moreover have "trim s = rev u" using t unfolding u_def t_def trim_def Let_def by (simp only: if_False)
  ultimately show ?thesis by simp
qed

text \<open>An assignment with any white space around the key and the value.\<close>

lemma assignment_line:
  assumes "blank a" "blank b" "blank d" "blank e" and "word_like key" and "val = [] \<or> word_like val"
    and "hd key \<noteq> CHR ''#''" "hd key \<noteq> CHR ''[''" "CHR ''='' \<notin> set key"
  shows "config_line (a @ key @ b @ CHR ''='' # d @ val @ e) st = set_key key val st"
proof -
  have eq: "\<not> isspace (CHR ''='')" by (simp add: isspace_def)
  then have "CHR ''='' \<notin> set b" using assms(2) by (auto simp: blank_def)
  then have split: "split_at (CHR ''='') (key @ b @ CHR ''='' # r) = Some (key @ b, r)" for r
    using split_at_first[of "CHR ''=''" "key @ b" r] assms(9) by simp
  obtain r where p: "trim (a @ key @ b @ CHR ''='' # d @ val @ e) = key @ b @ CHR ''='' # r"
    and v: "trim r = val"
  proof (cases "val = []")
    case True
    have "word_like (key @ b @ CHR ''='' # [])" using assms(5) eq by (simp add: word_like_def)
    moreover have "blank (d @ e)" using assms(3,4) by (auto simp: blank_def)
    ultimately have "trim (a @ key @ b @ CHR ''='' # d @ val @ e) = key @ b @ CHR ''='' # []"
      using trim_word[of a "key @ b @ CHR ''='' # []" "d @ e"] assms(1) True by simp
    then show thesis using that[of "[]"] True by (simp add: trim_def)
  next
    case False
    then have w: "word_like val" using assms(6) by simp
    then have "word_like (key @ b @ CHR ''='' # d @ val)" using assms(5) by (simp add: word_like_def)
    then have "trim (a @ key @ b @ CHR ''='' # d @ val @ e) = key @ b @ CHR ''='' # d @ val"
      using trim_word[of a "key @ b @ CHR ''='' # d @ val" e] assms(1,4) by simp
    moreover have "trim (d @ val) = val" using trim_word[of d val "[]"] assms(3) w by (simp add: blank_def)
    ultimately show thesis using that by blast
  qed
  have k: "trim (key @ b) = key" using trim_word[of "[]" key b] assms(2,5) by (simp add: blank_def)
  have h: "key @ b @ CHR ''='' # r \<noteq> []" "hd (key @ b @ CHR ''='' # r) = hd key"
    using assms(5) by (auto simp: word_like_def)
  show ?thesis using h assms(7,8) by (simp add: config_line_def Let_def p split k v del: append_is_Nil_conv)
qed

lemma comment_line: "blank a \<Longrightarrow> config_line (a @ CHR ''#'' # s) st = Some st"
proof -
  assume a: "blank a"
  have h: "\<not> isspace (CHR ''#'')" by (simp add: isspace_def)
  obtain t where "trim (a @ CHR ''#'' # s) = CHR ''#'' # t"
    using h dropWhile_blank[OF a, of "CHR ''#'' # s"] by (simp add: trim_def dropWhile_append3)
  then show ?thesis by (simp add: config_line_def)
qed

lemma blank_line: "blank s \<Longrightarrow> config_line s st = Some st"
  by (simp add: config_line_def trim_blank)

section \<open>Properties\<close>

text \<open>A line without a terminator in it is the string that is parsed.\<close>

lemma cstr_line: "NUL \<notin> set l \<Longrightarrow> cstr (l @ [newline]) = l @ [newline]"
  by (auto simp: cstr_def takeWhile_eq_all_conv NUL_def newline_def)

lemma blank_newline: "blank e \<Longrightarrow> blank (e @ [newline])"
  by (simp add: blank_def isspace_def newline_def)

text \<open>A line \<open>key = value\<close> of at most 254 characters, with any white space around the key and the
  value, is read as that assignment in the current section, and reading goes on with the next line.\<close>

lemma assignment_is_read:
  assumes "blank a" "blank b" "blank d" "blank e" and "word_like name" and "val = [] \<or> word_like val"
    and "hd name \<noteq> CHR ''#''" "hd name \<noteq> CHR ''[''" "CHR ''='' \<notin> set name"
    and "l = a @ name @ b @ CHR ''='' # d @ val @ e" "newline \<notin> set l" "NUL \<notin> set l" "length l < 255"
  shows "config_lines (l @ newline # rest) st =
    (case set_key name val st of None \<Rightarrow> None | Some st' \<Rightarrow> config_lines rest st')"
proof -
  have "config_line (l @ [newline]) st = set_key name val st"
    using assignment_line[OF assms(1-3) blank_newline[OF assms(4)] assms(5-9)] by (simp add: assms(10))
  then show ?thesis using config_lines_line[OF assms(11,13)] cstr_line[OF assms(12)] by simp
qed

text \<open>The reference: the lines of a file, parsed one after the other.\<close>

fun parse_lines :: "string list \<Rightarrow> parser \<Rightarrow> parser option" where
  "parse_lines [] st = Some st"
| "parse_lines (l # ls) st = (case config_line l st of None \<Rightarrow> None | Some st' \<Rightarrow> parse_lines ls st')"

lemma trim_newline: "trim (l @ [newline]) = trim l"
proof (cases "blank l")
  case True
  then show ?thesis by (simp add: trim_blank blank_newline)
next
  case False
  have nl: "isspace newline" by (simp add: isspace_def newline_def)
  obtain x where x: "x \<in> set l" "\<not> isspace x" using False by (auto simp: blank_def)
  have d: "dropWhile isspace (l @ [newline]) = dropWhile isspace l @ [newline]" using x by (rule dropWhile_append1)
  have ne: "dropWhile isspace l \<noteq> []" using x by (auto simp: dropWhile_eq_Nil_conv)
  show ?thesis unfolding trim_def Let_def d using ne nl by (simp del: dropWhile_eq_Nil_conv)
qed

lemma config_line_newline: "config_line (l @ [newline]) st = config_line l st"
  by (simp add: config_line_def trim_newline)

lemma last_line:
  assumes "newline \<notin> set l" "NUL \<notin> set l" "length l < 255"
  shows "config_lines l st = config_line l st"
proof (cases "l = []")
  case True
  have e: "config_lines [] st = Some st" for st by (subst config_lines.simps) (simp add: fgets_def)
  show ?thesis using blank_line[of "[]" st] by (simp add: True e blank_def)
next
  case False
  have e: "config_lines [] st = Some st" for st by (subst config_lines.simps) (simp add: fgets_def)
  have "fgets 255 l = Some (l, [])" using fgets_chars_short[OF assms(1,3)] False by (simp add: fgets_def)
  moreover have "cstr l = l" using assms(2) by (auto simp: cstr_def takeWhile_eq_all_conv)
  ultimately show ?thesis by (subst config_lines.simps) (simp add: e split: option.split)
qed

lemma lines_parsed:
  assumes "\<forall>l \<in> set (ls @ [z]). newline \<notin> set l \<and> NUL \<notin> set l \<and> length l < 255"
  shows "config_lines (concat (map (\<lambda>l. l @ [newline]) ls) @ z) st = parse_lines (ls @ [z]) st"
  using assms
proof (induction ls arbitrary: st)
  case Nil
  then show ?case using last_line[of z st] by (simp split: option.split)
next
  case (Cons l ls)
  have "config_lines (l @ newline # (concat (map (\<lambda>l. l @ [newline]) ls) @ z)) st =
      (case config_line l st of None \<Rightarrow> None | Some st' \<Rightarrow> config_lines (concat (map (\<lambda>l. l @ [newline]) ls) @ z) st')"
    using config_lines_line[of l] cstr_line[of l] Cons.prems by (simp add: config_line_newline)
  then show ?case using Cons by (simp split: option.split)
qed

text \<open>What a file says last about a key of \<open>[general]\<close>.\<close>

lemma parse_lines_append: "parse_lines (ls @ ms) st = (case parse_lines ls st of None \<Rightarrow> None | Some st' \<Rightarrow> parse_lines ms st')"
  by (induction ls arbitrary: st) (auto split: option.split)

text \<open>Lines that start with a bracket, and lines that assign a key.\<close>

definition heading :: "string \<Rightarrow> bool" where
  "heading l \<longleftrightarrow> trim l \<noteq> [] \<and> hd (trim l) = CHR ''[''"

definition assigns :: "string \<Rightarrow> string \<Rightarrow> bool" where
  "assigns name l \<longleftrightarrow> (case split_at (CHR ''='') (trim l) of None \<Rightarrow> False | Some (k, _) \<Rightarrow> trim k = name)"

lemma set_key_keeps_section: "set_key name val st = Some st' \<Longrightarrow> ps_section st' = ps_section st"
  by (erule set_key_keeps[where P = "\<lambda>s. ps_section s = ps_section st"]) simp_all

lemma no_heading_section:
  assumes "parse_lines ls st = Some st'" "\<forall>l \<in> set ls. \<not> heading l"
  shows "ps_section st' = ps_section st"
  using assms
proof (induction ls arbitrary: st)
  case (Cons l ls)
  obtain s1 where s: "config_line l st = Some s1" "parse_lines ls s1 = Some st'"
    using Cons.prems(1) by (auto split: option.splits)
  have "ps_section s1 = ps_section st"
    using s(1) Cons.prems(2) set_key_keeps_section
    by (auto simp: config_line_def heading_def Let_def split: if_splits option.splits)
  then show ?case using Cons.IH[OF s(2)] Cons.prems(2) by simp
qed simp

text \<open>What the lines of a file say last in the section \<open>[general]\<close>.\<close>

definition general_line :: "string list \<Rightarrow> string \<Rightarrow> string \<Rightarrow> bool" where
  "general_line ls name val \<longleftrightarrow> (\<exists>before pre b d e after.
     ls = before @ ''[general]'' # pre @ (name @ b @ CHR ''='' # d @ val @ e) # after \<and>
     blank b \<and> blank d \<and> blank e \<and> word_like val \<and> (\<forall>l \<in> set pre. \<not> heading l) \<and> (\<forall>l \<in> set after. \<not> assigns name l))"

lemma config_line_keeps:
  assumes "config_line l st = Some st'" "\<not> assigns name l"
    and "\<And>k v s s'. k \<noteq> name \<Longrightarrow> set_key k v s = Some s' \<Longrightarrow> P s \<Longrightarrow> P s'" "\<And>t s. P s \<Longrightarrow> P (open_section t s)" "P st"
  shows "P st'"
  using assms by (auto simp: config_line_def assigns_def Let_def split: if_splits option.splits)

lemma parse_lines_keeps:
  assumes "parse_lines ls st = Some st'" "\<forall>l \<in> set ls. \<not> assigns name l"
    and "\<And>k v s s'. k \<noteq> name \<Longrightarrow> set_key k v s = Some s' \<Longrightarrow> P s \<Longrightarrow> P s'" "\<And>t s. P s \<Longrightarrow> P (open_section t s)" "P st"
  shows "P st'"
  using assms(1,2,5)
proof (induction ls arbitrary: st)
  case (Cons l ls)
  obtain s1 where s: "config_line l st = Some s1" "parse_lines ls s1 = Some st'"
    using Cons.prems(1) by (auto split: option.splits)
  have n: "\<not> assigns name l" using Cons.prems(2) by simp
  have "P s1" by (rule config_line_keeps[where P = P, OF s(1) n assms(3,4) Cons.prems(3)])
  then show ?case using Cons.IH[OF s(2)] Cons.prems(2) by simp
qed simp

lemma open_general: "config_line ''[general]'' st = Some (open_section ''general'' st)"
  "ps_section (open_section ''general'' st) = ''general''"
proof -
  have "trim ''[general]'' = ''[general]''" "trim ''general'' = ''general''" by code_simp+
  then show "config_line ''[general]'' st = Some (open_section ''general'' st)" "ps_section (open_section ''general'' st) = ''general''"
    by (simp_all add: config_line_def open_section_def strncpy_def Let_def)
qed

lemma general_line_read:
  assumes "parse_lines ls st = Some st'" "general_line ls name val"
    and "name \<in> {''mode'', ''crypto_key''}"
    and "\<And>k v s s'. k \<noteq> name \<Longrightarrow> set_key k v s = Some s' \<Longrightarrow> P s \<Longrightarrow> P s'" "\<And>t s. P s \<Longrightarrow> P (open_section t s)"
    and "\<And>s c. set_general name val (ps_cfg s) = Some c \<Longrightarrow> P (s\<lparr>ps_cfg := c\<rparr>)"
  shows "P st'"
proof -
  obtain before pre b d e after where l: "ls = before @ ''[general]'' # pre @ (name @ b @ CHR ''='' # d @ val @ e) # after"
    "blank b" "blank d" "blank e" "word_like val" "\<forall>l \<in> set pre. \<not> heading l" "\<forall>l \<in> set after. \<not> assigns name l"
    using assms(2) unfolding general_line_def by blast
  obtain s1 s2 s3 where s: "parse_lines pre (open_section ''general'' s1) = Some s2"
    "config_line (name @ b @ CHR ''='' # d @ val @ e) s2 = Some s3" "parse_lines after s3 = Some st'"
    using assms(1) by (auto simp: l(1) parse_lines_append open_general split: option.splits)
  have sec: "ps_section s2 = ''general''" using no_heading_section[OF s(1) l(6)] open_general(2) by simp
  have "config_line ([] @ name @ b @ CHR ''='' # d @ val @ e) s2 = set_key name val s2"
    using assms(3) l(2-5) by (intro assignment_line) (auto simp: blank_def word_like_def isspace_def)
  then have "P s3" using s(2) sec assms(6) by (cases "set_general name val (ps_cfg s2)") (auto simp: set_key_section)
  from parse_lines_keeps[where P = P, OF s(3) l(7) assms(4,5) this] show ?thesis .
qed

lemma set_key_others:
  "k \<noteq> ''crypto_key'' \<Longrightarrow> set_key k v s = Some s' \<Longrightarrow> cfg_crypto_key (ps_cfg s') = cfg_crypto_key (ps_cfg s)"
  "k \<noteq> ''mode'' \<Longrightarrow> set_key k v s = Some s' \<Longrightarrow> cfg_mode (ps_cfg s') = cfg_mode (ps_cfg s)"
  by (erule set_key_keeps[where P = "\<lambda>x. cfg_crypto_key (ps_cfg x) = cfg_crypto_key (ps_cfg s)"],
      auto simp: set_general_def set_coding_def set_strategy_def set_forward_def Let_def split: if_splits)[1]
    (erule set_key_keeps[where P = "\<lambda>x. cfg_mode (ps_cfg x) = cfg_mode (ps_cfg s)"],
      auto simp: set_general_def set_coding_def set_strategy_def set_forward_def Let_def split: if_splits)[1]

lemma open_section_cfg: "cfg_crypto_key (ps_cfg (open_section t s)) = cfg_crypto_key (ps_cfg s)"
  "cfg_mode (ps_cfg (open_section t s)) = cfg_mode (ps_cfg s)"
  by (simp_all add: open_section_def Let_def)

text \<open>The values that a file of short lines gives the two keys.\<close>

definition text_of :: "string list \<Rightarrow> string" where
  "text_of ls = concat (map (\<lambda>l. l @ [newline]) ls)"

definition short_lines :: "string list \<Rightarrow> bool" where
  "short_lines ls \<longleftrightarrow> (\<forall>l \<in> set ls. newline \<notin> set l \<and> NUL \<notin> set l \<and> length l < 255)"

lemma loaded_general:
  assumes "config_load (Some (text_of ls)) = Loaded cfg" "short_lines ls"
  shows "general_line ls ''crypto_key'' val \<Longrightarrow> cfg_crypto_key cfg = strncpy 64 val"
    "general_line ls ''mode'' val \<Longrightarrow> cfg_mode cfg = strncpy 7 val"
proof -
  obtain st where st: "config_lines (text_of ls) \<lparr>ps_cfg = default_config, ps_section = [], ps_cur = None\<rparr> = Some st"
    "cfg = validate (ps_cfg st)" using assms(1) by (auto simp: config_load_def split: option.splits)
  have "config_lines (concat (map (\<lambda>l. l @ [newline]) ls) @ []) st0 = parse_lines (ls @ [[]]) st0" for st0
    by (rule lines_parsed) (use assms(2) in \<open>auto simp: short_lines_def\<close>)
  moreover have "parse_lines [[]] s = Some s" for s using blank_line[of "[]" s] by (simp add: blank_def)
  ultimately have p: "parse_lines ls \<lparr>ps_cfg = default_config, ps_section = [], ps_cur = None\<rparr> = Some st"
    using st(1) by (auto simp: text_of_def parse_lines_append split: option.splits)
  show "cfg_crypto_key cfg = strncpy 64 val" if "general_line ls ''crypto_key'' val"
    using general_line_read[where P = "\<lambda>s. cfg_crypto_key (ps_cfg s) = strncpy 64 val", OF p that] set_key_others(1) open_section_cfg(1)
    by (auto simp: st(2) validate_def set_general_def)
  show "cfg_mode cfg = strncpy 7 val" if "general_line ls ''mode'' val"
    using general_line_read[where P = "\<lambda>s. cfg_mode (ps_cfg s) = strncpy 7 val", OF p that] set_key_others(2) open_section_cfg(2)
    by (auto simp: st(2) validate_def set_general_def)
qed

lemma comment_is_no_mode: "v \<in> {''tx'', ''rx'', ''both''} \<Longrightarrow> strncpy 7 (v @ s @ CHR ''#'' # t) \<notin> {''tx'', ''rx'', ''both''}"
  by (cases s) (auto simp: strncpy_def)

text \<open>C33: A file whose lines have at most 254 characters is read as its lines, in order, whatever the buffer does:
  the loop over \<open>fgets\<close> equals parsing the lines one after the other, the last one with or without a newline.\<close>

theorem file_is_its_lines:
  assumes "\<forall>l \<in> set (ls @ [z]). newline \<notin> set l \<and> NUL \<notin> set l \<and> length l < 255"
  shows "config_lines (concat (map (\<lambda>l. l @ [newline]) ls) @ z) st = parse_lines (ls @ [z]) st"
  using assms by (rule lines_parsed)

theorem file_is_its_lines_witness:
  "config_lines (''[coding]'' @ newline # ''k = 4'') \<lparr>ps_cfg = default_config, ps_section = [], ps_cur = None\<rparr> =
   parse_lines [''[coding]'', ''k = 4''] \<lparr>ps_cfg = default_config, ps_section = [], ps_cur = None\<rparr>"
  using file_is_its_lines[of "[''[coding]'']" "''k = 4''"] by (simp add: newline_def NUL_def)

text \<open>C34: A comment line is ignored only up to the size of the line buffer: what follows its first 255
  characters is read as a line of its own, so a long comment can assign a key.\<close>

theorem long_comment_is_parsed:
  assumes "newline \<notin> set c" "NUL \<notin> set c" "length c = 254"
  shows "config_lines (CHR ''#'' # c @ rest) st = config_lines rest st"
proof -
  have "config_lines ((CHR ''#'' # c) @ rest) st =
      (case config_line (cstr (CHR ''#'' # c)) st of None \<Rightarrow> None | Some st' \<Rightarrow> config_lines rest st')"
    using assms by (intro config_lines_long) (auto simp: newline_def)
  moreover have "cstr (CHR ''#'' # c) = CHR ''#'' # c"
    using assms(2) by (auto simp: cstr_def takeWhile_eq_all_conv NUL_def)
  moreover have "config_line (CHR ''#'' # c) st = Some st"
    using comment_line[of "[]" c st] by (simp add: blank_def)
  ultimately show ?thesis by simp
qed

theorem long_comment_is_parsed_witness:
  "config_lines (CHR ''#'' # replicate 254 (CHR ''-'') @ ''k = 4'') \<lparr>ps_cfg = default_config, ps_section = ''coding'', ps_cur = None\<rparr> =
   config_lines ''k = 4'' \<lparr>ps_cfg = default_config, ps_section = ''coding'', ps_cur = None\<rparr>"
  by (rule long_comment_is_parsed) (simp_all add: newline_def NUL_def)

text \<open>C32: A configuration that \<open>config_load\<close> returns satisfies what the rest of the program relies on:
  \<open>k\<close>, the window size and the payload limit are in range, the paths and routes fit their arrays and
  every text fits its array with its terminator.\<close>

theorem loaded_config_valid:
  assumes "config_load inp = Loaded c"
  shows "config_ok c"
  using assms by (rule config_load_ok)

theorem loaded_config_valid_witness:
  "\<exists>c. config_load (Some (''[coding]'' @ newline # ''k=99'' @ newline # [])) = Loaded c \<and> config_ok c \<and> cfg_k c = 16"
proof -
  let ?c = "validate (default_config\<lparr>cfg_k := 99\<rparr>)"
  have l: "config_load (Some (''[coding]'' @ newline # ''k=99'' @ newline # [])) = Loaded ?c"
    by (simp add: config_load_def, code_simp)
  moreover have "cfg_k ?c = 16" by (simp add: validate_def clamp_def limits)
  ultimately show ?thesis using loaded_config_valid[OF l] by blast
qed

end
