(* ===== verification/Strategy.thy ===== *)
theory Strategy
  imports Config
begin

text \<open>
  \<open>src/strategy.c\<close>: the path scheduler (weighted round robin with credits), the number of
  coded shards per block, and the loss estimate that marks a path dead or alive. \<open>None\<close> as
  the outcome of an operation is undefined behaviour: a \<open>float\<close> that is converted to an
  \<open>int\<close> it does not fit. A failed \<open>calloc\<close> in \<open>strategy_init\<close> is a branch of the start (\<open>Gateway\<close>).
\<close>

section \<open>The code\<close>

record path_state =
  p_cfg :: path_config
  p_loss_rate :: cfloat
  p_rtt_ms :: cfloat
  p_weight_current :: cfloat
  p_alive :: bool
  p_probes_sent :: u64
  p_probes_recv :: u64
  p_shards_sent :: u64

record strategy_ctx =
  sc_paths :: "path_state list"
  sc_path_count :: nat
  sc_type :: string
  sc_base_redundancy :: cfloat
  sc_loss_threshold :: cfloat
  sc_ewma_alpha :: cfloat
  sc_path_credit :: "int list"

definition MAX_REDUNDANCY :: cfloat where "MAX_REDUNDANCY = Fin 3"

text \<open>\<open>(int)roundf(weight)\<close>, at least 1.\<close>

definition credit_of :: "cfloat \<Rightarrow> int option" where
  "credit_of w = map_option (\<lambda>v. if v < 1 then 1 else v) (to_int (roundf w))"

text \<open>The checked smoothing factor; \<open>0.2f\<close> replaces a value outside \<open>(0,1]\<close>.\<close>

definition checked_alpha :: "cfloat \<Rightarrow> cfloat" where
  "checked_alpha a = (if flt (Fin 0) a \<and> fle a (Fin 1) then a else f32 (2 / 10))"

definition zero_state :: path_state where
  "zero_state = \<lparr>p_cfg = zero_path, p_loss_rate = Fin 0, p_rtt_ms = Fin 0, p_weight_current = Fin 0,
     p_alive = False, p_probes_sent = 0, p_probes_recv = 0, p_shards_sent = 0\<rparr>"

definition init_path :: "gateway_config \<Rightarrow> nat \<Rightarrow> strategy_ctx \<Rightarrow> strategy_ctx option" where
  "init_path cfg i ctx =
     (let c = cfg_paths cfg ! i in
      case credit_of (pc_weight c) of
        None \<Rightarrow> None
      | Some v \<Rightarrow>
          Some (ctx\<lparr>sc_paths := (sc_paths ctx)[i := (sc_paths ctx ! i)\<lparr>p_cfg := c,
                       p_weight_current := pc_weight c, p_alive := pc_enabled c,
                       p_rtt_ms := Fin 5, p_loss_rate := Fin 0\<rparr>],
                    sc_path_credit := (sc_path_credit ctx)[i := v]\<rparr>))"

definition strategy_init :: "gateway_config \<Rightarrow> strategy_ctx option" where
  "strategy_init cfg =
     for_opt (init_path cfg) [0..<cfg_path_count cfg]
       \<lparr>sc_paths = replicate MAX_PATHS zero_state, sc_path_count = cfg_path_count cfg,
        sc_type = strncpy 15 (cfg_strategy_type cfg), sc_base_redundancy = cfg_redundancy_ratio cfg,
        sc_loss_threshold = cfg_probe_loss_threshold cfg,
        sc_ewma_alpha = checked_alpha (cfg_ewma_alpha cfg),
        sc_path_credit = replicate MAX_PATHS 0\<rparr>"

definition usable :: "strategy_ctx \<Rightarrow> nat \<Rightarrow> bool" where
  "usable ctx i \<longleftrightarrow> pc_enabled (p_cfg (sc_paths ctx ! i)) \<and> p_alive (sc_paths ctx ! i)"

definition refill_path :: "nat \<Rightarrow> strategy_ctx \<Rightarrow> strategy_ctx option" where
  "refill_path i ctx =
     (if usable ctx i then
        (case credit_of (p_weight_current (sc_paths ctx ! i)) of
           None \<Rightarrow> None
         | Some v \<Rightarrow> Some (ctx\<lparr>sc_path_credit := (sc_path_credit ctx)[i := v]\<rparr>))
      else Some ctx)"

definition refill :: "strategy_ctx \<Rightarrow> strategy_ctx option" where
  "refill ctx =
     (if list_ex (\<lambda>i. usable ctx i \<and> sc_path_credit ctx ! i > 0) [0..<sc_path_count ctx] then Some ctx
      else for_opt refill_path [0..<sc_path_count ctx] ctx)"

definition better :: "strategy_ctx \<Rightarrow> nat \<Rightarrow> nat option \<Rightarrow> nat option" where
  "better ctx i best =
     (if \<not> usable ctx i then best
      else case best of
        None \<Rightarrow> Some i
      | Some b \<Rightarrow> if sc_path_credit ctx ! i > sc_path_credit ctx ! b then Some i else best)"

definition pick :: "strategy_ctx \<Rightarrow> nat option" where
  "pick ctx = fold (better ctx) [0..<sc_path_count ctx] None"

text \<open>The result -1 is the path \<open>None\<close>.\<close>

definition strategy_next_path :: "strategy_ctx \<Rightarrow> (nat option \<times> strategy_ctx) option" where
  "strategy_next_path ctx =
     (if \<not> list_ex (usable ctx) [0..<sc_path_count ctx] then Some (None, ctx)
      else case refill ctx of
        None \<Rightarrow> None
      | Some ctx' \<Rightarrow>
          (case pick ctx' of
             None \<Rightarrow> None
           | Some b \<Rightarrow>
               Some (Some b, ctx'\<lparr>sc_path_credit := (sc_path_credit ctx')[b := sc_path_credit ctx' ! b - 1]\<rparr>)))"

definition n_total :: "strategy_ctx \<Rightarrow> nat" where
  "n_total ctx = length (filter (\<lambda>i. pc_enabled (p_cfg (sc_paths ctx ! i))) [0..<sc_path_count ctx])"

definition n_alive :: "strategy_ctx \<Rightarrow> nat" where
  "n_alive ctx = length (filter (usable ctx) [0..<sc_path_count ctx])"

definition effective_ratio :: "strategy_ctx \<Rightarrow> cfloat" where
  "effective_ratio ctx =
     (if n_alive ctx = 0 then MAX_REDUNDANCY
      else if n_alive ctx < n_total ctx then
        (let r = fmul (sc_base_redundancy ctx)
                      (fdiv (f32 (of_nat (n_total ctx))) (of_nat (n_alive ctx)))
         in if flt MAX_REDUNDANCY r then MAX_REDUNDANCY else r)
      else sc_base_redundancy ctx)"

definition strategy_compute_n :: "strategy_ctx \<Rightarrow> int \<Rightarrow> int option" where
  "strategy_compute_n ctx k =
     (if k < 1 then Some (- 1)
      else case to_int (ceilf (fmul (f32 (of_int k)) (effective_ratio ctx))) of
        None \<Rightarrow> None
      | Some n \<Rightarrow>
          (let n = (if n < k then k else n) in Some (if n > int MAX_N then int MAX_N else n)))"

definition ewma :: "cfloat \<Rightarrow> cfloat \<Rightarrow> cfloat \<Rightarrow> cfloat" where
  "ewma a x y = fadd (fmul a x) (fmul (fsub (Fin 1) a) y)"

definition probe_stats :: "cfloat \<Rightarrow> u64 \<Rightarrow> bool \<Rightarrow> path_state \<Rightarrow> path_state" where
  "probe_stats a rtt_us received p =
     (let p = p\<lparr>p_probes_sent := p_probes_sent p + 1\<rparr>;
          p = (if received then
                 p\<lparr>p_probes_recv := p_probes_recv p + 1,
                   p_rtt_ms := ewma a (fdiv (f32 (of_nat (unat rtt_us))) 1000) (p_rtt_ms p)\<rparr>
               else p);
          observed_loss = (if received then Fin 0 else Fin 1)
      in p\<lparr>p_loss_rate := ewma a observed_loss (p_loss_rate p)\<rparr>)"

definition strategy_update_probe ::
  "strategy_ctx \<Rightarrow> int \<Rightarrow> u64 \<Rightarrow> bool \<Rightarrow> strategy_ctx option" where
  "strategy_update_probe ctx path_idx rtt_us received =
     (if path_idx < 0 \<or> path_idx \<ge> int (sc_path_count ctx) then Some ctx
      else
        let i = nat path_idx;
            p = probe_stats (sc_ewma_alpha ctx) rtt_us received (sc_paths ctx ! i);
            p = (if flt (sc_loss_threshold ctx) (p_loss_rate p) then p\<lparr>p_alive := False\<rparr> else p)
        in if flt (p_loss_rate p) (fmul (sc_loss_threshold ctx) (Fin (1 / 2))) then
             (case credit_of (p_weight_current p) of
                None \<Rightarrow> None
              | Some v \<Rightarrow>
                  Some (ctx\<lparr>sc_paths := (sc_paths ctx)[i := p\<lparr>p_alive := True\<rparr>],
                            sc_path_credit := (sc_path_credit ctx)[i := v]\<rparr>))
           else Some (ctx\<lparr>sc_paths := (sc_paths ctx)[i := p]\<rparr>))"

definition strategy_get_path_state :: "strategy_ctx \<Rightarrow> int \<Rightarrow> path_state option" where
  "strategy_get_path_state ctx idx =
     (if idx < 0 \<or> idx \<ge> int (sc_path_count ctx) then None else Some (sc_paths ctx ! nat idx))"

definition strategy_path_count :: "strategy_ctx \<Rightarrow> int" where
  "strategy_path_count ctx = int (sc_path_count ctx)"

definition reload_path :: "gateway_config \<Rightarrow> nat \<Rightarrow> strategy_ctx \<Rightarrow> strategy_ctx option" where
  "reload_path cfg i ctx =
     (let c = cfg_paths cfg ! i;
          p = sc_paths ctx ! i;
          p = p\<lparr>p_cfg := (p_cfg p)\<lparr>pc_weight := pc_weight c, pc_enabled := pc_enabled c\<rparr>,
                p_weight_current := pc_weight c\<rparr>
      in if \<not> pc_enabled c then Some (ctx\<lparr>sc_paths := (sc_paths ctx)[i := p\<lparr>p_alive := False\<rparr>]\<rparr>)
         else case credit_of (pc_weight c) of
                None \<Rightarrow> None
              | Some v \<Rightarrow>
                  Some (ctx\<lparr>sc_paths := (sc_paths ctx)[i := p],
                            sc_path_credit := (sc_path_credit ctx)[i := v]\<rparr>))"

definition strategy_reload :: "strategy_ctx \<Rightarrow> gateway_config \<Rightarrow> strategy_ctx option" where
  "strategy_reload ctx cfg =
     for_opt (reload_path cfg) [0..<min (sc_path_count ctx) (cfg_path_count cfg)]
       (ctx\<lparr>sc_base_redundancy := cfg_redundancy_ratio cfg,
            sc_loss_threshold := cfg_probe_loss_threshold cfg,
            sc_ewma_alpha := checked_alpha (cfg_ewma_alpha cfg),
            sc_type := strncpy 15 (cfg_strategy_type cfg)\<rparr>)"

section \<open>The smoothed estimates stay in range\<close>

text \<open>
  A value between 0 and a power of two stays there under the exponential average, whatever
  the roundings do: \<open>fl(1 - a)\<close> exceeds \<open>1 - a\<close> by at most \<open>2 ^ -25\<close>, and the sum rounds back.
\<close>

definition in_range :: "int \<Rightarrow> cfloat \<Rightarrow> bool" where
  "in_range e v \<longleftrightarrow> (\<exists>x. v = Fin x \<and> r32 x = x \<and> 0 \<le> x \<and> x \<le> 2 powi e)"

definition alpha_ok :: "cfloat \<Rightarrow> bool" where
  "alpha_ok v \<longleftrightarrow> (\<exists>a. v = Fin a \<and> r32 a = a \<and> 0 < a \<and> a \<le> 1)"

lemma f32_in_range:
  assumes "0 \<le> x" "x \<le> 2 powi e" "0 \<le> e" "e < 128"
  shows "f32 x = Fin (r32 x)" "in_range e (f32 x)"
proof -
  show eq: "f32 x = Fin (r32 x)" using assms by (intro f32_bounded(1)[of x e]) simp_all
  show "in_range e (f32 x)"
    using assms rval_nonneg[of x 24 "- 149"] rval_le_power[of x e "- 149" 24]
    by (simp add: eq in_range_def rval_idem)
qed

lemma one_minus_alpha:
  assumes "r32 a = a" "0 < a" "a \<le> 1"
  obtains c where "fsub (Fin 1) (Fin a) = Fin c" "r32 c = c" "0 \<le> c" "c \<le> 1" "a + c \<le> 1 + 1 / 2 ^ 25"
proof
  show "fsub (Fin 1) (Fin a) = Fin (r32 (1 - a))" using assms by (simp add: fsub_def f32_unit)
  show "r32 (r32 (1 - a)) = r32 (1 - a)" by (simp add: rval_idem)
  show "0 \<le> r32 (1 - a)" "r32 (1 - a) \<le> 1" using r32_unit[of "1 - a"] assms by simp_all
  have "\<bar>r32 (1 - a) - (1 - a)\<bar> \<le> 1 / 2 ^ 25" using assms by (intro r32_error_unit) simp_all
  from abs_le_D1[OF this] show "a + r32 (1 - a) \<le> 1 + 1 / 2 ^ 25" by linarith
qed

lemma scaled_product:
  assumes "r32 a = a" "0 \<le> a" "a \<le> 1" "0 \<le> x" "x \<le> 2 powi e" "0 \<le> e" "e < 128"
  shows "f32 (a * x) = Fin (r32 (a * x))" "0 \<le> r32 (a * x)" "r32 (a * x) \<le> a * 2 powi e"
proof -
  have p: "0 < (2 :: rat) powi e" by simp
  have ax: "0 \<le> a * x" "a * x \<le> a * 2 powi e" using assms by (simp_all add: mult_left_mono)
  have "a * 2 powi e \<le> 1 * 2 powi e" using assms(3) p by (intro mult_right_mono) simp_all
  from order.trans[OF ax(2) this] have "a * x \<le> 2 powi e" by simp
  then show "f32 (a * x) = Fin (r32 (a * x))" using ax(1) assms(6,7) by (intro f32_in_range(1)[of _ e]) simp_all
  show "0 \<le> r32 (a * x)" using ax(1) by (rule rval_nonneg)
  show "r32 (a * x) \<le> a * 2 powi e"
    using rval_mono[OF ax(2), of 24 "- 149"] r32_scale[OF assms(1,6)] by simp
qed

lemma ewma_in_range:
  assumes "alpha_ok a" "in_range e x" "in_range e y" "0 \<le> e" "e < 127"
  shows "in_range e (ewma a x y)"
proof -
  obtain a' x' y' where v: "a = Fin a'" "x = Fin x'" "y = Fin y'"
    and a: "r32 a' = a'" "0 < a'" "a' \<le> 1" and x: "0 \<le> x'" "x' \<le> 2 powi e" and y: "0 \<le> y'" "y' \<le> 2 powi e"
    using assms(1-3) by (auto simp: alpha_ok_def in_range_def)
  obtain c where c: "fsub (Fin 1) (Fin a') = Fin c" "r32 c = c" "0 \<le> c" "c \<le> 1"
    and ac: "a' + c \<le> 1 + 1 / 2 ^ 25" using one_minus_alpha[OF a] .
  have a0: "0 \<le> a'" using a(2) by simp
  have e: "e < 128" using assms(5) by simp
  note px = scaled_product[OF a(1) a0 a(3) x assms(4) e] and py = scaled_product[OF c(2-4) y assms(4) e]
  let ?s = "r32 (a' * x') + r32 (c * y')"
  have "?s \<le> (a' + c) * 2 powi e" using px(3) py(3) by (simp add: distrib_right)
  also have "\<dots> \<le> (1 + 1 / 2 ^ 25) * 2 powi e" using ac by (intro mult_right_mono) simp_all
  finally have s: "?s \<le> (1 + 1 / 2 ^ 25) * 2 powi e" .
  then have r: "r32 ?s \<le> 2 powi e" using rval_mono[OF s, of 24 "- 149"] r32_just_above[OF assms(4)] by simp
  have "(1 + 1 / 2 ^ 25) * 2 powi e \<le> (2 :: rat) * 2 powi e" by (intro mult_right_mono) simp_all
  also have "\<dots> = 2 powi (e + 1)" by (simp add: power_int_add)
  finally have "f32 ?s = Fin (r32 ?s)"
    using s px(2) py(2) assms(4,5) by (intro f32_in_range(1)[of ?s "e + 1"]) simp_all
  moreover have "0 \<le> r32 ?s" using px(2) py(2) by (intro rval_nonneg) simp
  ultimately show ?thesis
    using r by (simp add: v ewma_def c(1) px(1) py(1) in_range_def rval_idem)
qed

text \<open>The four roundings together move the average by at most \<open>2 ^ -22\<close> of the power of two that bounds its arguments.\<close>

lemma ewma_accuracy:
  assumes "alpha_ok a" "in_range d x" "in_range d y" "d < 127" "0 \<le> e" "e \<le> d"
    and "a = Fin a'" "x = Fin x'" "y = Fin y'" "x' \<le> 2 powi e" "y' \<le> 2 powi e"
  shows "\<exists>r. ewma a x y = Fin r \<and> \<bar>r - (a' * x' + (1 - a') * y')\<bar> \<le> 2 powi e / 2 ^ 22"
proof -
  have a: "r32 a' = a'" "0 < a'" "a' \<le> 1" and x: "0 \<le> x'" "r32 x' = x'" and y: "0 \<le> y'" "r32 y' = y'"
    using assms by (auto simp: alpha_ok_def in_range_def)
  let ?M = "(2 :: rat) powi e" and ?c = "r32 (1 - a')"
  have M: "0 < ?M" by simp
  have c: "fsub (Fin 1) (Fin a') = Fin ?c" "r32 ?c = ?c" "0 \<le> ?c" "?c \<le> 1"
    using a r32_unit[of "1 - a'"] by (simp_all add: fsub_def f32_unit rval_idem)
  have ce: "\<bar>?c - (1 - a')\<bar> \<le> 1 / 2 ^ 25" using a by (intro r32_error_unit) simp_all
  have e: "e < 128" using assms(4,6) by simp
  have a0: "0 \<le> a'" using a(2) by simp
  note px = scaled_product[OF a(1) a0 a(3) x(1) assms(10,5) e] and py = scaled_product[OF c(2-4) y(1) assms(11,5) e]
  have xl: "0 \<le> a' * x'" "a' * x' \<le> ?M"
    using a0 x(1) mult_mono[OF a(3) assms(10)] M by simp_all
  have yl: "0 \<le> ?c * y'" "?c * y' \<le> ?M"
    using c(3) y(1) mult_mono[OF c(4) assms(11)] M by simp_all
  let ?s = "r32 (a' * x') + r32 (?c * y')"
  have "r32 (a' * x') \<le> ?M" "r32 (?c * y') \<le> ?M" using xl yl assms(5) by (simp_all add: rval_le_power)
  then have s: "0 \<le> ?s" "?s \<le> 2 powi (e + 1)" using px(2) py(2) by (simp_all add: power_int_add)
  have f: "f32 ?s = Fin (r32 ?s)" using s assms(4,5,6) by (intro f32_in_range(1)[of ?s "e + 1"]) simp_all
  have "\<bar>r32 ?s - ?s\<bar> \<le> 2 powi (e + 1) / 2 ^ 25" using s assms(5) by (intro r32_error_scaled) simp_all
  then have e1: "\<bar>r32 ?s - ?s\<bar> \<le> 2 * (?M / 2 ^ 25)" by (simp add: power_int_add)
  have e2: "\<bar>r32 (a' * x') - a' * x'\<bar> \<le> ?M / 2 ^ 25" by (rule r32_error_scaled[OF xl assms(5)])
  have e3: "\<bar>r32 (?c * y') - ?c * y'\<bar> \<le> ?M / 2 ^ 25" by (rule r32_error_scaled[OF yl assms(5)])
  have "\<bar>?c * y' - (1 - a') * y'\<bar> = \<bar>?c - (1 - a')\<bar> * y'"
    using y(1) by (simp add: abs_mult left_diff_distrib[symmetric])
  also have "\<dots> \<le> 1 / 2 ^ 25 * ?M" using ce assms(11) y(1) by (intro mult_mono) simp_all
  finally have e4: "\<bar>?c * y' - (1 - a') * y'\<bar> \<le> ?M / 2 ^ 25" by simp
  have tri: "\<bar>r - (p + q)\<bar> \<le> b1 + b2 + b3 + b4"
    if "\<bar>r - (p1 + q1)\<bar> \<le> b1" "\<bar>p1 - p\<bar> \<le> b2" "\<bar>q1 - q2\<bar> \<le> b3" "\<bar>q2 - q\<bar> \<le> b4" for r p q p1 q1 q2 b1 b2 b3 b4 :: rat
    using that unfolding abs_le_iff by linarith
  have "\<bar>r32 ?s - (a' * x' + (1 - a') * y')\<bar> \<le> 2 * (?M / 2 ^ 25) + ?M / 2 ^ 25 + ?M / 2 ^ 25 + ?M / 2 ^ 25"
    by (rule tri[OF e1 e2 e3 e4])
  also have "\<dots> \<le> ?M / 2 ^ 22" using M by (simp add: field_simps)
  finally show ?thesis by (simp add: assms(7-9) ewma_def c(1) px(1) py(1) f)
qed

text \<open>Averaging with 0 never raises the value, and keeps 0.\<close>

lemma ewma_zero:
  assumes "alpha_ok a" "in_range e y" "0 \<le> e" "e < 127"
  shows "\<exists>r. ewma a (Fin 0) y = Fin r \<and> fle (Fin r) y"
proof -
  obtain a' y' where v: "a = Fin a'" "y = Fin y'"
    and a: "r32 a' = a'" "0 < a'" "a' \<le> 1" and y: "0 \<le> y'" "y' \<le> 2 powi e" "r32 y' = y'"
    using assms(1,2) by (auto simp: alpha_ok_def in_range_def)
  obtain c where c: "fsub (Fin 1) (Fin a') = Fin c" "r32 c = c" "0 \<le> c" "c \<le> 1"
    using one_minus_alpha[OF a] .
  have e: "e < 128" using assms(4) by simp
  note py = scaled_product[OF c(2-4) y(1,2) assms(3) e]
  have "c * y' \<le> 1 * y'" using c(4) y(1) by (intro mult_right_mono) simp_all
  then have le: "r32 (c * y') \<le> y'" using rval_mono[of "c * y'" y' 24 "- 149"] y(3) by simp
  then have "f32 (r32 (c * y')) = Fin (r32 (c * y'))"
    using f32_in_range(1)[of "r32 (c * y')" e] py(2) y(2) assms(3) e by (simp add: rval_idem)
  moreover have "f32 0 = Fin 0" using f32_int[of 0] by simp
  ultimately show ?thesis using le by (auto simp: v ewma_def c(1) py(1) fle_def feq_def)
qed

lemma ewma_zero_zero:
  assumes "alpha_ok a"
  shows "ewma a (Fin 0) (Fin 0) = Fin 0"
proof -
  obtain a' where v: "a = Fin a'" and a: "r32 a' = a'" "0 < a'" "a' \<le> 1"
    using assms by (auto simp: alpha_ok_def)
  obtain c where "fsub (Fin 1) (Fin a') = Fin c" using one_minus_alpha[OF a] .
  moreover have "f32 0 = Fin 0" using f32_int[of 0] by simp
  ultimately show ?thesis by (simp add: v ewma_def)
qed

section \<open>The invariant\<close>

definition path_state_ok :: "path_state \<Rightarrow> bool" where
  "path_state_ok p \<longleftrightarrow> in_range 0 (p_loss_rate p) \<and> in_range 55 (p_rtt_ms p) \<and>
     credit_of (p_weight_current p) \<noteq> None"

definition strategy_ok :: "strategy_ctx \<Rightarrow> bool" where
  "strategy_ok ctx \<longleftrightarrow>
     length (sc_paths ctx) = MAX_PATHS \<and> length (sc_path_credit ctx) = MAX_PATHS \<and>
     sc_path_count ctx \<le> MAX_PATHS \<and> alpha_ok (sc_ewma_alpha ctx) \<and>
     (\<forall>i < sc_path_count ctx. path_state_ok (sc_paths ctx ! i)) \<and>
     (\<forall>i < sc_path_count ctx. 0 \<le> sc_path_credit ctx ! i)"

text \<open>The weights of a configuration that the code can convert to credits.\<close>

definition castable :: "gateway_config \<Rightarrow> bool" where
  "castable cfg \<longleftrightarrow> config_ok cfg \<and> (\<forall>i < cfg_path_count cfg. credit_of (pc_weight (cfg_paths cfg ! i)) \<noteq> None)"

lemma credit_of_pos: "credit_of w = Some v \<Longrightarrow> 1 \<le> v"
  by (auto simp: credit_of_def split: if_splits)

lemma in_range_0 [simp]: "in_range e (Fin 0)"
  by (simp add: in_range_def)

lemma in_range_5: "in_range 55 (Fin 5)"
  using r32_int[of 5] by (simp add: in_range_def)

lemma checked_alpha_ok:
  assumes "is_float a"
  shows "alpha_ok (checked_alpha a)"
proof (cases "flt (Fin 0) a \<and> fle a (Fin 1)")
  case True
  then obtain x where "a = Fin x" "0 < x" "x \<le> 1"
    by (cases a) (auto simp: fle_def feq_def)
  then show ?thesis using assms True by (simp add: checked_alpha_def alpha_ok_def is_float_Fin)
next
  case False
  have "(2 :: rat) powi (- 3) = 1 / 2 ^ 3" by (rule powi_neg_numeral)
  then have "1 / 8 \<le> r32 (2 / 10)"
    using rval_mono[of "1 / 8" "2 / 10" 24 "- 149"] rval_power[of "- 149" "- 3" 24] by simp
  then show ?thesis using False r32_unit[of "2 / 10"] f32_unit[of "2 / 10"]
    by (auto simp: checked_alpha_def alpha_ok_def rval_idem)
qed

lemma strategy_okD:
  assumes "strategy_ok ctx"
  shows "length (sc_paths ctx) = MAX_PATHS" "length (sc_path_credit ctx) = MAX_PATHS"
    "sc_path_count ctx \<le> MAX_PATHS" "alpha_ok (sc_ewma_alpha ctx)"
    "i < sc_path_count ctx \<Longrightarrow> path_state_ok (sc_paths ctx ! i)"
    "i < sc_path_count ctx \<Longrightarrow> 0 \<le> sc_path_credit ctx ! i"
  using assms by (auto simp: strategy_ok_def)

text \<open>Replacing one path, with or without its credit.\<close>

lemma strategy_ok_path:
  assumes "strategy_ok ctx" "path_state_ok p"
  shows "strategy_ok (ctx\<lparr>sc_paths := (sc_paths ctx)[i := p]\<rparr>)"
  using assms by (auto simp: strategy_ok_def nth_upd)

lemma strategy_ok_credit:
  assumes "strategy_ok ctx" "0 \<le> v"
  shows "strategy_ok (ctx\<lparr>sc_path_credit := (sc_path_credit ctx)[i := v]\<rparr>)"
  using assms by (auto simp: strategy_ok_def nth_upd)

lemma strategy_ok_path_credit:
  assumes "strategy_ok ctx" "path_state_ok p" "0 \<le> v"
  shows "strategy_ok (ctx\<lparr>sc_paths := (sc_paths ctx)[i := p], sc_path_credit := (sc_path_credit ctx)[i := v]\<rparr>)"
  using strategy_ok_credit[OF strategy_ok_path[OF assms(1,2), of i] assms(3), of i] by simp

section \<open>The scheduler\<close>

definition refill_due :: "strategy_ctx \<Rightarrow> bool" where
  "refill_due ctx \<longleftrightarrow> (\<forall>i < sc_path_count ctx. usable ctx i \<longrightarrow> sc_path_credit ctx ! i \<le> 0)"

text \<open>The credit a path has once the refill that may be due is done.\<close>

definition refilled_credit :: "strategy_ctx \<Rightarrow> nat \<Rightarrow> int" where
  "refilled_credit ctx i =
     (if refill_due ctx \<and> usable ctx i then the (credit_of (p_weight_current (sc_paths ctx ! i)))
      else sc_path_credit ctx ! i)"

lemma usable_credit [simp]: "usable (ctx\<lparr>sc_path_credit := cs\<rparr>) = usable ctx"
  by (rule ext) (simp add: usable_def)

lemma refill_due_iff:
  "refill_due ctx \<longleftrightarrow> \<not> list_ex (\<lambda>i. usable ctx i \<and> sc_path_credit ctx ! i > 0) [0..<sc_path_count ctx]"
  by (auto simp: refill_due_def list_ex_iff not_le)

lemma refill_spec:
  assumes ok: "strategy_ok ctx"
  shows "\<exists>cs. refill ctx = Some (ctx\<lparr>sc_path_credit := cs\<rparr>) \<and> length cs = MAX_PATHS \<and>
    (\<forall>i < sc_path_count ctx. cs ! i = refilled_credit ctx i)"
proof (cases "refill_due ctx")
  case False
  then have "refill ctx = Some (ctx\<lparr>sc_path_credit := sc_path_credit ctx\<rparr>)"
    by (simp add: refill_def refill_due_iff)
  then show ?thesis using False strategy_okD(2)[OF ok] by (intro exI[of _ "sc_path_credit ctx"])
      (simp add: refilled_credit_def)
next
  case True
  let ?n = "sc_path_count ctx"
  let ?P = "\<lambda>i s. \<exists>cs. s = ctx\<lparr>sc_path_credit := cs\<rparr> \<and> length cs = MAX_PATHS \<and>
      (\<forall>j < ?n. cs ! j = (if j < i then refilled_credit ctx j else sc_path_credit ctx ! j))"
  have "\<exists>t. for_opt refill_path [0..<?n] ctx = Some t \<and> ?P ?n t"
  proof (rule for_opt_total[where P = ?P])
    show "?P 0 ctx" using strategy_okD(2)[OF ok] by (intro exI[of _ "sc_path_credit ctx"]) simp
    show "\<exists>s'. refill_path i s = Some s' \<and> ?P (Suc i) s'" if i: "i < ?n" and P: "?P i s" for i s
    proof -
      obtain cs where s: "s = ctx\<lparr>sc_path_credit := cs\<rparr>" and len: "length cs = MAX_PATHS"
        and nth: "\<And>j. j < ?n \<Longrightarrow> cs ! j = (if j < i then refilled_credit ctx j else sc_path_credit ctx ! j)"
        using P by blast
      obtain v where v: "credit_of (p_weight_current (sc_paths ctx ! i)) = Some v"
        using strategy_okD(5)[OF ok i] by (auto simp: path_state_ok_def)
      have il: "i < length cs" using i strategy_okD(3)[OF ok] len by simp
      show ?thesis
      proof (cases "usable ctx i")
        case u: True
        then show ?thesis using v True il len nth by (intro exI[of _ "ctx\<lparr>sc_path_credit := cs[i := v]\<rparr>"])
          (auto simp: refill_path_def s refilled_credit_def nth_list_update less_Suc_eq intro!: exI[of _ "cs[i := v]"])
      next
        case u: False
        then show ?thesis using len nth by (intro exI[of _ s])
          (auto simp: refill_path_def s refilled_credit_def less_Suc_eq intro!: exI[of _ cs])
      qed
    qed
  qed simp
  then show ?thesis using True by (auto simp: refill_def refill_due_iff)
qed

lemma pick_spec:
  "case pick ctx of
     None \<Rightarrow> \<forall>j < sc_path_count ctx. \<not> usable ctx j
   | Some b \<Rightarrow> b < sc_path_count ctx \<and> usable ctx b \<and>
       (\<forall>j < sc_path_count ctx. usable ctx j \<longrightarrow> sc_path_credit ctx ! j \<le> sc_path_credit ctx ! b) \<and>
       (\<forall>j < b. usable ctx j \<longrightarrow> sc_path_credit ctx ! j < sc_path_credit ctx ! b)"
  unfolding pick_def
  by (rule fold_invariant_upt[where P = "\<lambda>n best. case best of
        None \<Rightarrow> \<forall>j < n. \<not> usable ctx j
      | Some b \<Rightarrow> b < n \<and> usable ctx b \<and>
          (\<forall>j < n. usable ctx j \<longrightarrow> sc_path_credit ctx ! j \<le> sc_path_credit ctx ! b) \<and>
          (\<forall>j < b. usable ctx j \<longrightarrow> sc_path_credit ctx ! j < sc_path_credit ctx ! b)"])
    (auto simp: better_def less_Suc_eq not_less split: option.splits if_splits)

lemma next_path_none:
  "\<forall>i < sc_path_count ctx. \<not> usable ctx i \<Longrightarrow> strategy_next_path ctx = Some (None, ctx)"
  by (auto simp: strategy_next_path_def list_ex_iff)

lemma refilled_credit_pos:
  assumes "strategy_ok ctx" "i < sc_path_count ctx" "usable ctx i"
  obtains b where "b < sc_path_count ctx" "usable ctx b" "1 \<le> refilled_credit ctx b"
proof (cases "refill_due ctx")
  case True
  obtain v where "credit_of (p_weight_current (sc_paths ctx ! i)) = Some v"
    using strategy_okD(5)[OF assms(1,2)] by (auto simp: path_state_ok_def)
  then show thesis using that[of i] True assms(2,3) credit_of_pos by (simp add: refilled_credit_def)
next
  case False
  then obtain j where "j < sc_path_count ctx" "usable ctx j" "0 < sc_path_credit ctx ! j"
    by (auto simp: refill_due_def not_le)
  then show thesis using that[of j] False by (simp add: refilled_credit_def)
qed

text \<open>The path picked: usable, with a credit of at least 1 that no other usable path exceeds.\<close>

lemma next_path_some:
  assumes ok: "strategy_ok ctx" and "i < sc_path_count ctx" "usable ctx i"
  obtains b cs where "strategy_next_path ctx = Some (Some b, ctx\<lparr>sc_path_credit := cs\<rparr>)"
    "b < sc_path_count ctx" "usable ctx b" "length cs = MAX_PATHS"
    "\<And>j. j < sc_path_count ctx \<Longrightarrow> cs ! j = refilled_credit ctx j - (if j = b then 1 else 0)"
    "1 \<le> refilled_credit ctx b"
    "\<And>j. j < sc_path_count ctx \<Longrightarrow> usable ctx j \<Longrightarrow> refilled_credit ctx j \<le> refilled_credit ctx b"
    "\<And>j. j < b \<Longrightarrow> usable ctx j \<Longrightarrow> refilled_credit ctx j < refilled_credit ctx b"
proof -
  let ?n = "sc_path_count ctx"
  obtain cs where cs: "refill ctx = Some (ctx\<lparr>sc_path_credit := cs\<rparr>)" "length cs = MAX_PATHS"
    "\<And>i. i < ?n \<Longrightarrow> cs ! i = refilled_credit ctx i" using refill_spec[OF ok] by auto
  let ?c = "ctx\<lparr>sc_path_credit := cs\<rparr>"
  obtain b where b: "pick ?c = Some b" using pick_spec[of ?c] assms(2,3) by (cases "pick ?c") auto
  have spec: "b < ?n" "usable ctx b" "\<And>j. j < ?n \<Longrightarrow> usable ctx j \<Longrightarrow> cs ! j \<le> cs ! b"
    "\<And>j. j < b \<Longrightarrow> usable ctx j \<Longrightarrow> cs ! j < cs ! b"
    using pick_spec[of ?c] b by auto
  obtain b' where "b' < ?n" "usable ctx b'" "1 \<le> refilled_credit ctx b'"
    using refilled_credit_pos[OF assms] .
  then have pos: "1 \<le> refilled_credit ctx b" using spec(3)[of b'] cs(3) spec(1) by fastforce
  have "list_ex (usable ctx) [0..<?n]" using assms(2,3) by (auto simp: list_ex_iff)
  then have eq: "strategy_next_path ctx = Some (Some b, ctx\<lparr>sc_path_credit := cs[b := cs ! b - 1]\<rparr>)"
    by (simp add: strategy_next_path_def cs(1) b)
  show thesis
  proof (rule that[OF eq spec(1,2)])
    show "length (cs[b := cs ! b - 1]) = MAX_PATHS" using cs(2) by simp
    have len: "?n \<le> length cs" using cs(2) strategy_okD(3)[OF ok] by simp
    show "cs[b := cs ! b - 1] ! j = refilled_credit ctx j - (if j = b then 1 else 0)" if "j < ?n" for j
      using that cs(3) spec(1) len by (simp add: nth_upd)
    show "refilled_credit ctx j \<le> refilled_credit ctx b" if "j < ?n" "usable ctx j" for j
      using spec(3)[OF that] cs(3) that spec(1) by simp
    show "refilled_credit ctx j < refilled_credit ctx b" if "j < b" "usable ctx j" for j
      using spec(4)[OF that] cs(3) that spec(1) by simp
  qed (rule pos)
qed

lemma refilled_credit_nonneg:
  assumes "strategy_ok ctx" "i < sc_path_count ctx"
  shows "0 \<le> refilled_credit ctx i"
proof -
  obtain v where "credit_of (p_weight_current (sc_paths ctx ! i)) = Some v"
    using strategy_okD(5)[OF assms] by (auto simp: path_state_ok_def)
  then show ?thesis using credit_of_pos strategy_okD(6)[OF assms] by (fastforce simp: refilled_credit_def)
qed

lemma next_path_ok:
  assumes ok: "strategy_ok ctx"
  shows "\<exists>r ctx'. strategy_next_path ctx = Some (r, ctx') \<and> strategy_ok ctx'"
proof (cases "\<exists>i < sc_path_count ctx. usable ctx i")
  case False
  then show ?thesis using next_path_none ok by blast
next
  case True
  then obtain i where i: "i < sc_path_count ctx" "usable ctx i" by blast
  obtain b cs where b: "strategy_next_path ctx = Some (Some b, ctx\<lparr>sc_path_credit := cs\<rparr>)"
    and len: "length cs = MAX_PATHS" and pos: "1 \<le> refilled_credit ctx b"
    and nth: "\<And>j. j < sc_path_count ctx \<Longrightarrow> cs ! j = refilled_credit ctx j - (if j = b then 1 else 0)"
    by (rule next_path_some[OF ok i]) blast
  have "0 \<le> cs ! j" if "j < sc_path_count ctx" for j
    using nth[OF that] pos refilled_credit_nonneg[OF ok that] by auto
  then have "strategy_ok (ctx\<lparr>sc_path_credit := cs\<rparr>)" using ok len by (simp add: strategy_ok_def)
  then show ?thesis using b by blast
qed

text \<open>A call changes the credits and nothing else.\<close>

lemma next_path_frame:
  assumes "strategy_ok ctx" "strategy_next_path ctx = Some (r, ctx')"
  shows "\<exists>cs. ctx' = ctx\<lparr>sc_path_credit := cs\<rparr>"
proof (cases "\<exists>i < sc_path_count ctx. usable ctx i")
  case False
  then have "ctx' = ctx\<lparr>sc_path_credit := sc_path_credit ctx\<rparr>" using next_path_none assms(2) by fastforce
  then show ?thesis by blast
next
  case True
  then obtain i where "i < sc_path_count ctx" "usable ctx i" by blast
  then show ?thesis by (rule next_path_some[OF assms(1)]) (use assms(2) in auto)
qed

section \<open>A round of the scheduler\<close>

text \<open>Several calls in a row.\<close>

fun next_paths :: "nat \<Rightarrow> strategy_ctx \<Rightarrow> (nat option list \<times> strategy_ctx) option" where
  "next_paths 0 ctx = Some ([], ctx)"
| "next_paths (Suc n) ctx =
     (case strategy_next_path ctx of
        None \<Rightarrow> None
      | Some (r, ctx1) \<Rightarrow>
          (case next_paths n ctx1 of None \<Rightarrow> None | Some (rs, ctx2) \<Rightarrow> Some (r # rs, ctx2)))"

definition usable_paths :: "strategy_ctx \<Rightarrow> nat set" where
  "usable_paths ctx = {i. i < sc_path_count ctx \<and> usable ctx i}"

definition round_left :: "strategy_ctx \<Rightarrow> int" where
  "round_left ctx = (\<Sum>i \<in> usable_paths ctx. refilled_credit ctx i)"

lemma usable_paths_credit [simp]: "usable_paths (ctx\<lparr>sc_path_credit := cs\<rparr>) = usable_paths ctx"
  by (simp add: usable_paths_def)

lemma finite_usable_paths [simp]: "finite (usable_paths ctx)"
  by (simp add: usable_paths_def)

text \<open>
  The calls of one round: each path's credit goes down by the number of times it is picked.
\<close>

lemma next_paths_round:
  assumes "strategy_ok ctx" "int (Suc m) \<le> round_left ctx" "usable_paths ctx \<noteq> {}"
  shows "\<exists>ps cs. next_paths (Suc m) ctx = Some (ps, ctx\<lparr>sc_path_credit := cs\<rparr>) \<and>
    strategy_ok (ctx\<lparr>sc_path_credit := cs\<rparr>) \<and>
    set ps \<subseteq> Some ` usable_paths ctx \<and>
    (\<forall>j < sc_path_count ctx. cs ! j = refilled_credit ctx j - int (count_list ps (Some j)))"
  using assms
proof (induction m arbitrary: ctx)
  case (0 ctx)
  then obtain i where i: "i < sc_path_count ctx" "usable ctx i" by (auto simp: usable_paths_def)
  show ?case
    by (rule next_path_some[OF 0(1) i])
      (use next_path_ok[OF 0(1)] in \<open>auto simp: usable_paths_def\<close>)
next
  case (Suc m ctx)
  then obtain i where i: "i < sc_path_count ctx" "usable ctx i" by (auto simp: usable_paths_def)
  obtain b cs where np: "strategy_next_path ctx = Some (Some b, ctx\<lparr>sc_path_credit := cs\<rparr>)"
    and b: "b < sc_path_count ctx" "usable ctx b"
    and nth: "\<And>j. j < sc_path_count ctx \<Longrightarrow> cs ! j = refilled_credit ctx j - (if j = b then 1 else 0)"
    by (rule next_path_some[OF Suc.prems(1) i]) blast
  let ?c = "ctx\<lparr>sc_path_credit := cs\<rparr>"
  have ok: "strategy_ok ?c" using next_path_ok[OF Suc.prems(1)] np by auto
  have bU: "b \<in> usable_paths ctx" using b by (simp add: usable_paths_def)
  have "(\<Sum>j \<in> usable_paths ctx. cs ! j) = (\<Sum>j \<in> usable_paths ctx. refilled_credit ctx j - (if j = b then 1 else 0))"
    by (intro sum.cong) (auto simp: usable_paths_def nth)
  also have "\<dots> = round_left ctx - 1" using bU by (simp add: sum_subtractf round_left_def)
  finally have sum: "(\<Sum>j \<in> usable_paths ctx. cs ! j) = round_left ctx - 1" .
  have nd: "\<not> refill_due ?c"
  proof
    assume "refill_due ?c"
    then have "(\<Sum>j \<in> usable_paths ctx. cs ! j) \<le> 0"
      by (intro sum_nonpos) (auto simp: refill_due_def usable_paths_def)
    then show False using sum Suc.prems(2) by simp
  qed
  then have rc: "refilled_credit ?c j = cs ! j" for j by (simp add: refilled_credit_def)
  then have "int (Suc m) \<le> round_left ?c" using sum Suc.prems(2) by (simp add: round_left_def)
  then obtain ps cs' where rest: "next_paths (Suc m) ?c = Some (ps, ctx\<lparr>sc_path_credit := cs'\<rparr>)"
    "strategy_ok (ctx\<lparr>sc_path_credit := cs'\<rparr>)" "set ps \<subseteq> Some ` usable_paths ctx"
    "\<And>j. j < sc_path_count ctx \<Longrightarrow> cs' ! j = cs ! j - int (count_list ps (Some j))"
    using Suc.IH[OF ok] Suc.prems(3) by (auto simp: rc)
  show ?case
    using rest np bU nth by (intro exI[of _ "Some b # ps"] exI[of _ cs']) auto
qed

lemma next_paths_length: "next_paths n ctx = Some (ps, ctx') \<Longrightarrow> length ps = n"
  by (induction n arbitrary: ctx ps) (auto split: option.splits prod.splits)

lemma picks_total:
  assumes "finite U" "set ps \<subseteq> Some ` U"
  shows "(\<Sum>i \<in> U. count_list ps (Some i)) = length ps"
proof -
  have "(\<Sum>i \<in> U. count_list ps (Some i)) = (\<Sum>r \<in> Some ` U. count_list ps r)"
    by (simp add: sum.reindex)
  then show ?thesis using sum_count_set[OF assms(2)] assms(1) by simp
qed

text \<open>Weighted round robin: a round picks every usable path exactly as often as its weight says.\<close>

lemma round_exact:
  assumes ok: "strategy_ok ctx" and due: "refill_due ctx" and ne: "usable_paths ctx \<noteq> {}"
  defines "w i \<equiv> the (credit_of (p_weight_current (sc_paths ctx ! i)))"
  defines "W \<equiv> (\<Sum>i \<in> usable_paths ctx. w i)"
  shows "\<exists>ps ctx'. next_paths (nat W) ctx = Some (ps, ctx') \<and> strategy_ok ctx' \<and> refill_due ctx' \<and>
    sc_paths ctx' = sc_paths ctx \<and> set ps \<subseteq> Some ` usable_paths ctx \<and>
    (\<forall>i \<in> usable_paths ctx. int (count_list ps (Some i)) = w i)"
proof -
  have w: "1 \<le> w i" if "i \<in> usable_paths ctx" for i
  proof -
    have "i < sc_path_count ctx" using that by (simp add: usable_paths_def)
    then obtain v where "credit_of (p_weight_current (sc_paths ctx ! i)) = Some v"
      using strategy_okD(5)[OF ok] by (auto simp: path_state_ok_def)
    then show ?thesis using credit_of_pos by (simp add: w_def)
  qed
  have rc: "refilled_credit ctx i = w i" if "i \<in> usable_paths ctx" for i
    using that due by (simp add: refilled_credit_def w_def usable_paths_def)
  then have R: "round_left ctx = W" by (simp add: round_left_def W_def)
  have "(\<Sum>i \<in> usable_paths ctx. 1) \<le> W" unfolding W_def by (intro sum_mono w)
  moreover have "0 < card (usable_paths ctx)" using ne by (simp add: card_gt_0_iff)
  ultimately have Wpos: "0 < W" by simp
  then obtain m where m: "nat W = Suc m" by (cases "nat W") auto
  then have "int (Suc m) \<le> round_left ctx" using R Wpos by linarith
  then obtain ps cs where run: "next_paths (nat W) ctx = Some (ps, ctx\<lparr>sc_path_credit := cs\<rparr>)"
    and ok': "strategy_ok (ctx\<lparr>sc_path_credit := cs\<rparr>)" and sub: "set ps \<subseteq> Some ` usable_paths ctx"
    and nth: "\<And>j. j < sc_path_count ctx \<Longrightarrow> cs ! j = refilled_credit ctx j - int (count_list ps (Some j))"
    using next_paths_round[OF ok _ ne] m by metis
  have bound: "i < sc_path_count ctx" if "i \<in> usable_paths ctx" for i
    using that by (simp add: usable_paths_def)
  have "(\<Sum>i \<in> usable_paths ctx. cs ! i) = (\<Sum>i \<in> usable_paths ctx. w i - int (count_list ps (Some i)))"
    by (intro sum.cong) (simp_all add: nth bound rc)
  also have "\<dots> = W - int (length ps)"
    unfolding sum_subtractf W_def picks_total[OF finite_usable_paths sub, symmetric] by simp
  also have "\<dots> = 0" using next_paths_length[OF run] Wpos by simp
  finally have "(\<Sum>i \<in> usable_paths ctx. cs ! i) = 0" .
  moreover have "0 \<le> cs ! i" if "i \<in> usable_paths ctx" for i
    using strategy_okD(6)[OF ok', of i] bound[OF that] by simp
  ultimately have zero: "cs ! i = 0" if "i \<in> usable_paths ctx" for i
    using that by (simp add: sum_nonneg_eq_0_iff)
  have "refill_due (ctx\<lparr>sc_path_credit := cs\<rparr>)"
    using zero by (simp add: refill_due_def usable_paths_def)
  moreover have "\<forall>i \<in> usable_paths ctx. int (count_list ps (Some i)) = w i"
  proof
    fix i assume "i \<in> usable_paths ctx"
    then show "int (count_list ps (Some i)) = w i" using nth[of i] bound[of i] zero[of i] rc[of i] by simp
  qed
  moreover have "sc_paths (ctx\<lparr>sc_path_credit := cs\<rparr>) = sc_paths ctx" by simp
  ultimately show ?thesis using run ok' sub by blast
qed

section \<open>Probes\<close>

lemma rtt_in_range: "in_range 55 (fdiv (f32 (of_nat (unat (rtt :: u64)))) 1000)"
proof -
  define x :: rat where "x = of_nat (unat rtt)"
  have "unat rtt < 2 ^ 64" using unsigned_less[of rtt] by simp
  then have "(of_nat (unat rtt) :: rat) \<le> of_nat (2 ^ 64)" by (simp only: of_nat_le_iff)
  then have x: "0 \<le> x" "x \<le> 2 powi 64" unfolding x_def by (simp_all only: of_nat_0_le_iff) simp
  have f: "f32 x = Fin (r32 x)" using f32_in_range(1)[OF x] by simp
  have y: "0 \<le> r32 x" "r32 x \<le> 2 powi 64" using x by (simp_all only: rval_nonneg rval_le_power)
  have "r32 x / 1000 \<le> 2 powi 64 / 1000" using y(2) by (intro divide_right_mono) simp_all
  also have "\<dots> \<le> 2 powi 55" by simp
  finally have "in_range 55 (f32 (r32 x / 1000))" using y(1) by (intro f32_in_range(2)) simp_all
  then show ?thesis unfolding x_def[symmetric] f by simp
qed

lemma in_range_obs: "in_range 0 (if received then Fin 0 else Fin 1)"
  using r32_int[of 1] by (simp add: in_range_def)

lemma probe_stats_ok:
  assumes "alpha_ok a" "path_state_ok p"
  shows "path_state_ok (probe_stats a rtt received p)"
  using assms ewma_in_range[OF assms(1) in_range_obs[of received], of "p_loss_rate p"]
    ewma_in_range[OF assms(1) rtt_in_range[of rtt], of "p_rtt_ms p"]
  by (cases received) (simp_all add: path_state_ok_def probe_stats_def Let_def)

lemma probe_stats_frame:
  "p_weight_current (probe_stats a rtt received p) = p_weight_current p"
  "p_alive (probe_stats a rtt received p) = p_alive p" "p_cfg (probe_stats a rtt received p) = p_cfg p"
  "p_probes_sent (probe_stats a rtt received p) = p_probes_sent p + 1"
  "p_probes_recv (probe_stats a rtt received p) = p_probes_recv p + (if received then 1 else 0)"
  by (simp_all add: probe_stats_def Let_def)

lemma path_state_ok_alive [simp]: "path_state_ok (p\<lparr>p_alive := b\<rparr>) = path_state_ok p"
  by (simp add: path_state_ok_def)

definition probe_dead :: "cfloat \<Rightarrow> path_state \<Rightarrow> bool" where
  "probe_dead threshold p \<longleftrightarrow> flt threshold (p_loss_rate p)"

definition probe_alive :: "cfloat \<Rightarrow> path_state \<Rightarrow> bool" where
  "probe_alive threshold p \<longleftrightarrow> flt (p_loss_rate p) (fmul threshold (Fin (1 / 2)))"

text \<open>The whole effect of a probe result on a path.\<close>

lemma update_probe_spec:
  fixes rtt :: u64 and received :: bool
  assumes ok: "strategy_ok ctx" and i: "i < sc_path_count ctx"
  defines "p \<equiv> probe_stats (sc_ewma_alpha ctx) rtt received (sc_paths ctx ! i)"
  obtains cs where
    "strategy_update_probe ctx (int i) rtt received =
       Some (ctx\<lparr>sc_paths := (sc_paths ctx)[i := p\<lparr>p_alive :=
          (probe_alive (sc_loss_threshold ctx) p \<or> (\<not> probe_dead (sc_loss_threshold ctx) p \<and> p_alive p))\<rparr>],
        sc_path_credit := cs\<rparr>)"
    "strategy_ok (ctx\<lparr>sc_paths := (sc_paths ctx)[i := p\<lparr>p_alive :=
          (probe_alive (sc_loss_threshold ctx) p \<or> (\<not> probe_dead (sc_loss_threshold ctx) p \<and> p_alive p))\<rparr>],
        sc_path_credit := cs\<rparr>)"
    "cs = (if probe_alive (sc_loss_threshold ctx) p
           then (sc_path_credit ctx)[i := the (credit_of (p_weight_current p))] else sc_path_credit ctx)"
proof -
  have pok: "path_state_ok p" unfolding p_def by (rule probe_stats_ok[OF strategy_okD(4)[OF ok] strategy_okD(5)[OF ok i]])
  then obtain v where v: "credit_of (p_weight_current p) = Some v" by (auto simp: path_state_ok_def)
  let ?al = "probe_alive (sc_loss_threshold ctx) p"
  let ?de = "probe_dead (sc_loss_threshold ctx) p"
  let ?q = "p\<lparr>p_alive := (?al \<or> (\<not> ?de \<and> p_alive p))\<rparr>"
  let ?cs = "if ?al then (sc_path_credit ctx)[i := the (credit_of (p_weight_current p))] else sc_path_credit ctx"
  have idx: "\<not> (int i < 0 \<or> int i \<ge> int (sc_path_count ctx))" using i by simp
  have eq: "strategy_update_probe ctx (int i) rtt received =
      Some (ctx\<lparr>sc_paths := (sc_paths ctx)[i := ?q], sc_path_credit := ?cs\<rparr>)"
  proof (cases ?al)
    case True
    then show ?thesis using idx v
      by (cases ?de) (simp_all add: strategy_update_probe_def Let_def flip: p_def add: probe_alive_def probe_dead_def)
  next
    case False
    then show ?thesis using idx
      by (cases ?de) (simp_all add: strategy_update_probe_def Let_def flip: p_def add: probe_alive_def probe_dead_def)
  qed
  have ok': "strategy_ok (ctx\<lparr>sc_paths := (sc_paths ctx)[i := ?q], sc_path_credit := ?cs\<rparr>)"
  proof (cases ?al)
    case True
    have "path_state_ok ?q" using pok by simp
    moreover have "0 \<le> v" using credit_of_pos[OF v] by simp
    ultimately show ?thesis using strategy_ok_path_credit[OF ok, of ?q v i] True v by simp
  next
    case False
    have "path_state_ok ?q" using pok by simp
    then show ?thesis using strategy_ok_path[OF ok, of ?q i] False by simp
  qed
  from that[OF eq ok' refl] show thesis .
qed

definition probed_path :: "strategy_ctx \<Rightarrow> u64 \<Rightarrow> bool \<Rightarrow> path_state \<Rightarrow> path_state" where
  "probed_path ctx rtt received p =
     (let q = probe_stats (sc_ewma_alpha ctx) rtt received p; th = sc_loss_threshold ctx in
      q\<lparr>p_alive := (probe_alive th q \<or> (\<not> probe_dead th q \<and> p_alive p))\<rparr>)"

lemma update_probe_at:
  assumes ok: "strategy_ok ctx" and i: "i < sc_path_count ctx"
  obtains ctx' where "strategy_update_probe ctx (int i) rtt received = Some ctx'" "strategy_ok ctx'"
    "sc_path_count ctx' = sc_path_count ctx"
    "\<And>j. sc_paths ctx' ! j =
       (if j = i then probed_path ctx rtt received (sc_paths ctx ! i) else sc_paths ctx ! j)"
proof -
  have len: "i < length (sc_paths ctx)" using i strategy_okD(1,3)[OF ok] by simp
  let ?q = "probed_path ctx rtt received (sc_paths ctx ! i)"
  obtain cs where u: "strategy_update_probe ctx (int i) rtt received =
      Some (ctx\<lparr>sc_paths := (sc_paths ctx)[i := ?q], sc_path_credit := cs\<rparr>)"
    "strategy_ok (ctx\<lparr>sc_paths := (sc_paths ctx)[i := ?q], sc_path_credit := cs\<rparr>)"
    unfolding probed_path_def Let_def probe_stats_frame(2)[symmetric, of "sc_paths ctx ! i" "sc_ewma_alpha ctx" rtt received]
    by (rule update_probe_spec[OF ok i]) blast
  show thesis by (rule that[OF u]) (use len in \<open>auto simp: nth_upd\<close>)
qed

lemma update_probe_outside:
  "idx < 0 \<or> int (sc_path_count ctx) \<le> idx \<Longrightarrow> strategy_update_probe ctx idx rtt received = Some ctx"
  by (simp add: strategy_update_probe_def)

lemma update_probe_ok:
  assumes "strategy_ok ctx"
  shows "\<exists>ctx'. strategy_update_probe ctx idx rtt received = Some ctx' \<and> strategy_ok ctx'"
proof (cases "idx < 0 \<or> int (sc_path_count ctx) \<le> idx")
  case True
  then show ?thesis using assms by (simp add: update_probe_outside)
next
  case False
  then have "nat idx < sc_path_count ctx" "int (nat idx) = idx" by auto
  then show ?thesis using update_probe_spec[OF assms, of "nat idx" rtt received] by metis
qed

section \<open>Start and reload\<close>

definition started_path :: "path_config \<Rightarrow> path_state" where
  "started_path c = zero_state\<lparr>p_cfg := c, p_weight_current := pc_weight c, p_alive := pc_enabled c,
     p_rtt_ms := Fin 5, p_loss_rate := Fin 0\<rparr>"

lemma init_spec:
  assumes cfg: "castable cfg"
  obtains ctx where "strategy_init cfg = Some ctx" "strategy_ok ctx" "sc_path_count ctx = cfg_path_count cfg"
    "\<And>i. i < cfg_path_count cfg \<Longrightarrow> sc_paths ctx ! i = started_path (cfg_paths cfg ! i)"
    "\<And>i. i < cfg_path_count cfg \<Longrightarrow> Some (sc_path_credit ctx ! i) = credit_of (pc_weight (cfg_paths cfg ! i))"
proof -
  let ?n = "cfg_path_count cfg"
  let ?c = "cfg_paths cfg"
  define s0 where "s0 = \<lparr>sc_paths = replicate MAX_PATHS zero_state, sc_path_count = ?n,
        sc_type = strncpy 15 (cfg_strategy_type cfg), sc_base_redundancy = cfg_redundancy_ratio cfg,
        sc_loss_threshold = cfg_probe_loss_threshold cfg,
        sc_ewma_alpha = checked_alpha (cfg_ewma_alpha cfg), sc_path_credit = replicate MAX_PATHS 0\<rparr>"
  have n: "?n \<le> MAX_PATHS" and al: "alpha_ok (checked_alpha (cfg_ewma_alpha cfg))"
    using cfg by (auto simp: castable_def config_ok_def config_shape_def intro: checked_alpha_ok)
  let ?P = "\<lambda>i s. length (sc_paths s) = MAX_PATHS \<and> length (sc_path_credit s) = MAX_PATHS \<and>
      sc_path_count s = ?n \<and> alpha_ok (sc_ewma_alpha s) \<and>
      (\<forall>j < i. sc_paths s ! j = started_path (?c ! j) \<and> Some (sc_path_credit s ! j) = credit_of (pc_weight (?c ! j))) \<and>
      (\<forall>j. i \<le> j \<and> j < MAX_PATHS \<longrightarrow> sc_paths s ! j = zero_state)"
  have "\<exists>t. for_opt (init_path cfg) [0..<?n] s0 = Some t \<and> ?P ?n t"
  proof (rule for_opt_total[where P = ?P])
    show "?P 0 s0" using al by (simp add: s0_def)
    show "\<exists>s'. init_path cfg i s = Some s' \<and> ?P (Suc i) s'" if i: "i < ?n" and P: "?P i s" for i s
    proof -
      obtain v where v: "credit_of (pc_weight (?c ! i)) = Some v" using cfg i by (auto simp: castable_def)
      have "sc_paths s ! i = zero_state" using P i n by simp
      then show ?thesis using v P i n
        by (auto simp: init_path_def Let_def nth_upd less_Suc_eq started_path_def)
    qed
  qed simp
  then obtain t where t: "strategy_init cfg = Some t" and P: "?P ?n t"
    unfolding strategy_init_def s0_def by blast
  have "path_state_ok (sc_paths t ! i)" if "i < ?n" for i
    using P that cfg in_range_5
    by (auto simp: path_state_ok_def started_path_def castable_def)
  moreover have "0 \<le> sc_path_credit t ! i" if "i < ?n" for i
  proof -
    have "credit_of (pc_weight (?c ! i)) = Some (sc_path_credit t ! i)" using P that by simp
    from credit_of_pos[OF this] show ?thesis by simp
  qed
  ultimately have "strategy_ok t" using P n by (simp add: strategy_ok_def)
  then show thesis using that[OF t] P by auto
qed

text \<open>The path after a reload: its loss, round trip time and counters are kept.\<close>

definition reloaded_path :: "path_config \<Rightarrow> path_state \<Rightarrow> path_state" where
  "reloaded_path c p = p\<lparr>p_cfg := (p_cfg p)\<lparr>pc_weight := pc_weight c, pc_enabled := pc_enabled c\<rparr>,
     p_weight_current := pc_weight c, p_alive := (p_alive p \<and> pc_enabled c)\<rparr>"

lemma reload_spec:
  assumes ok: "strategy_ok ctx" and cfg: "castable cfg"
  obtains ctx' where "strategy_reload ctx cfg = Some ctx'" "strategy_ok ctx'"
    "sc_path_count ctx' = sc_path_count ctx"
    "sc_base_redundancy ctx' = cfg_redundancy_ratio cfg"
    "sc_loss_threshold ctx' = cfg_probe_loss_threshold cfg"
    "\<And>i. i < sc_path_count ctx \<Longrightarrow> sc_paths ctx' ! i =
       (if i < cfg_path_count cfg then reloaded_path (cfg_paths cfg ! i) (sc_paths ctx ! i) else sc_paths ctx ! i)"
proof -
  let ?n = "min (sc_path_count ctx) (cfg_path_count cfg)"
  let ?c = "cfg_paths cfg"
  define s0 where "s0 = ctx\<lparr>sc_base_redundancy := cfg_redundancy_ratio cfg,
            sc_loss_threshold := cfg_probe_loss_threshold cfg,
            sc_ewma_alpha := checked_alpha (cfg_ewma_alpha cfg),
            sc_type := strncpy 15 (cfg_strategy_type cfg)\<rparr>"
  have al: "alpha_ok (checked_alpha (cfg_ewma_alpha cfg))"
    using cfg by (auto simp: castable_def config_ok_def config_shape_def intro: checked_alpha_ok)
  have n: "?n \<le> MAX_PATHS" using strategy_okD(3)[OF ok] by simp
  let ?P = "\<lambda>i s. strategy_ok s \<and> sc_path_count s = sc_path_count ctx \<and>
      sc_base_redundancy s = cfg_redundancy_ratio cfg \<and> sc_loss_threshold s = cfg_probe_loss_threshold cfg \<and>
      (\<forall>j < sc_path_count ctx. sc_paths s ! j =
         (if j < i then reloaded_path (?c ! j) (sc_paths ctx ! j) else sc_paths ctx ! j))"
  have "\<exists>t. for_opt (reload_path cfg) [0..<?n] s0 = Some t \<and> ?P ?n t"
  proof (rule for_opt_total[where P = ?P])
    show "?P 0 s0" using ok al by (simp add: s0_def strategy_ok_def)
    show "\<exists>s'. reload_path cfg i s = Some s' \<and> ?P (Suc i) s'" if i: "i < ?n" and P: "?P i s" for i s
    proof -
      obtain v where v: "credit_of (pc_weight (?c ! i)) = Some v" using cfg i by (auto simp: castable_def)
      let ?q = "reloaded_path (?c ! i) (sc_paths ctx ! i)"
      have oks: "strategy_ok s" and len: "length (sc_paths s) = MAX_PATHS"
        and p: "sc_paths s ! i = sc_paths ctx ! i" using P i strategy_okD(1)[of s] by auto
      have q: "path_state_ok ?q" using strategy_okD(5)[OF ok, of i] i v
        by (simp add: path_state_ok_def reloaded_path_def)
      have v0: "0 \<le> v" using credit_of_pos[OF v] by simp
      have il: "i < length (sc_paths s)" using len i strategy_okD(3)[OF ok] by simp
      define s' where "s' = (if pc_enabled (?c ! i)
        then s\<lparr>sc_paths := (sc_paths s)[i := ?q], sc_path_credit := (sc_path_credit s)[i := v]\<rparr>
        else s\<lparr>sc_paths := (sc_paths s)[i := ?q]\<rparr>)"
      have eq: "reload_path cfg i s = Some s'"
        using v by (simp add: reload_path_def Let_def p reloaded_path_def s'_def)
      have "strategy_ok s'" unfolding s'_def
        using strategy_ok_path_credit[OF oks q v0, of i] strategy_ok_path[OF oks q, of i] by simp
      moreover have "sc_paths s' = (sc_paths s)[i := ?q]" "sc_path_count s' = sc_path_count s"
        "sc_base_redundancy s' = sc_base_redundancy s" "sc_loss_threshold s' = sc_loss_threshold s"
        by (simp_all add: s'_def)
      ultimately show ?thesis using eq P il by (simp add: nth_upd less_Suc_eq)
    qed
  qed simp
  then obtain t where t: "strategy_reload ctx cfg = Some t" and P: "?P ?n t"
    unfolding strategy_reload_def s0_def by blast
  show thesis by (rule that[OF t]) (use P in auto)
qed

section \<open>Every run keeps the invariant\<close>

datatype strategy_event = Next_path | Probe int u64 bool | Reload gateway_config

definition strategy_step :: "strategy_event \<Rightarrow> strategy_ctx option \<Rightarrow> strategy_ctx option" where
  "strategy_step e s =
     (case s of
        None \<Rightarrow> None
      | Some ctx \<Rightarrow>
          (case e of
             Next_path \<Rightarrow> map_option snd (strategy_next_path ctx)
           | Probe idx rtt received \<Rightarrow> strategy_update_probe ctx idx rtt received
           | Reload cfg \<Rightarrow> strategy_reload ctx cfg))"

fun event_ok :: "strategy_event \<Rightarrow> bool" where
  "event_ok (Reload cfg) = castable cfg"
| "event_ok _ = True"

definition well_defined :: "strategy_ctx option \<Rightarrow> bool" where
  "well_defined s \<longleftrightarrow> (\<exists>ctx. s = Some ctx \<and> strategy_ok ctx)"

lemma strategy_step_ok: "event_ok e \<Longrightarrow> well_defined s \<Longrightarrow> well_defined (strategy_step e s)"
proof (cases e)
  case Next_path
  then show "well_defined s \<Longrightarrow> ?thesis" using next_path_ok by (fastforce simp: well_defined_def strategy_step_def)
next
  case (Probe idx rtt received)
  then show "well_defined s \<Longrightarrow> ?thesis" using update_probe_ok by (fastforce simp: well_defined_def strategy_step_def)
next
  case (Reload cfg)
  then show "event_ok e \<Longrightarrow> well_defined s \<Longrightarrow> ?thesis"
    using reload_spec[of _ cfg] by (fastforce simp: well_defined_def strategy_step_def)
qed

definition strategy_start :: "strategy_ctx option \<Rightarrow> bool" where
  "strategy_start s \<longleftrightarrow> (\<exists>cfg. castable cfg \<and> s = strategy_init cfg)"

interpretation scheduler: state_machine strategy_start strategy_step event_ok well_defined
proof
  show "well_defined s" if "strategy_start s" for s
    using that init_spec by (fastforce simp: well_defined_def strategy_start_def)
qed (rule strategy_step_ok)

section \<open>The number of coded shards\<close>

lemma compute_n_range:
  assumes "strategy_compute_n ctx k = Some n" "1 \<le> k" "k \<le> int MAX_N"
  shows "k \<le> n \<and> n \<le> int MAX_N"
  using assms by (auto simp: strategy_compute_n_def Let_def split: option.splits if_splits)

text \<open>With a ratio of a sane size the conversion is defined, and the result is the code's formula.\<close>

lemma compute_n_value:
  assumes "1 \<le> k" "k \<le> int MAX_K" and ratio: "effective_ratio ctx = Fin r" "\<bar>r\<bar> \<le> 2 powi 23"
  shows "strategy_compute_n ctx k =
    Some (min (int MAX_N) (max k \<lceil>r32 (of_int k * r)\<rceil>))"
proof -
  have k: "\<bar>of_int k :: rat\<bar> \<le> 2 powi 4" using assms(1,2) by (simp add: limits)
  have "\<bar>k\<bar> \<le> 2 ^ 24" using assms(1,2) by (simp add: limits)
  then have fk: "f32 (of_int k) = Fin (of_int k)" by (rule f32_int)
  have "\<bar>of_int k * r\<bar> \<le> 2 powi 4 * 2 powi 23"
    unfolding abs_mult using k ratio(2) by (intro mult_mono) simp_all
  also have "\<dots> = (2 :: rat) powi 27" by simp
  finally have kr: "\<bar>of_int k * r\<bar> \<le> 2 powi 27" .
  have f: "f32 (of_int k * r) = Fin (r32 (of_int k * r))" "\<bar>r32 (of_int k * r)\<bar> \<le> 2 powi 27"
    using f32_bounded[OF kr] by simp_all
  have "r32 (of_int k * r) \<le> of_int (2 ^ 27)" "of_int (- (2 ^ 27)) \<le> r32 (of_int k * r)"
    using f(2) by (simp_all add: abs_le_iff)
  then have c: "\<lceil>r32 (of_int k * r)\<rceil> \<le> 2 ^ 27" "- (2 ^ 27) \<le> \<lceil>r32 (of_int k * r)\<rceil>"
    by (simp_all only: ceiling_le_iff) (use le_of_int_ceiling order.trans in \<open>metis of_int_le_iff\<close>)
  then have "to_int (ceilf (Fin (r32 (of_int k * r)))) = Some \<lceil>r32 (of_int k * r)\<rceil>"
    by (simp add: Let_def INT_MIN_def INT_MAX_def)
  then show ?thesis using assms(1) by (auto simp: strategy_compute_n_def fk ratio(1) f(1) Let_def)
qed

lemma n_alive_le: "n_alive ctx \<le> n_total ctx"
proof -
  have "filter (usable ctx) [0..<sc_path_count ctx] =
      filter (\<lambda>i. p_alive (sc_paths ctx ! i)) (filter (\<lambda>i. pc_enabled (p_cfg (sc_paths ctx ! i))) [0..<sc_path_count ctx])"
    by (auto simp: usable_def intro: filter_cong)
  then show ?thesis unfolding n_alive_def n_total_def by (metis length_filter_le)
qed

lemma n_total_le: "n_total ctx \<le> sc_path_count ctx"
  unfolding n_total_def by (rule order.trans[OF length_filter_le]) simp

text \<open>The ratio of path counts is a float from 1 to 8.\<close>

lemma path_quotient:
  assumes "0 < n_alive ctx" "sc_path_count ctx \<le> MAX_PATHS"
  defines "q \<equiv> r32 (of_nat (n_total ctx) / of_nat (n_alive ctx))"
  shows "fdiv (f32 (of_nat (n_total ctx))) (of_nat (n_alive ctx)) = Fin q" "1 \<le> q" "q \<le> 8"
proof -
  let ?t = "of_nat (n_total ctx) :: rat"
  let ?a = "of_nat (n_alive ctx) :: rat"
  have t: "n_total ctx \<le> 8" using n_total_le[of ctx] assms(2) by (simp add: limits)
  have "f32 (of_int (int (n_total ctx))) = Fin (of_int (int (n_total ctx)))"
    using t by (intro f32_int) simp
  then have ft: "f32 ?t = Fin ?t" by simp
  have a: "1 \<le> ?a" "?a \<le> ?t" using assms(1) n_alive_le[of ctx] by simp_all
  have lo: "1 \<le> ?t / ?a" using a by (simp add: pos_le_divide_eq)
  have "?t / ?a \<le> ?t / 1" using a by (intro divide_left_mono) simp_all
  then have hi: "?t / ?a \<le> 2 powi 3" using t by simp
  show "1 \<le> q" using rval_mono[OF lo, of 24 "- 149"] r32_int[of 1] by (simp add: q_def)
  show "q \<le> 8" using rval_le_power[OF hi, of "- 149" 24] by (simp add: q_def)
  show "fdiv (f32 ?t) ?a = Fin q" using f32_in_range(1)[OF _ hi] lo by (simp add: ft q_def)
qed

lemma effective_ratio_value:
  assumes "sc_path_count ctx \<le> MAX_PATHS" and base: "sc_base_redundancy ctx = Fin b" "\<bar>b\<bar> \<le> 2 powi 20"
  obtains r where "effective_ratio ctx = Fin r" "\<bar>r\<bar> \<le> 2 powi 23"
    "r32 b = b \<Longrightarrow> 0 \<le> b \<Longrightarrow> b \<le> 3 \<Longrightarrow> b \<le> r \<and> r \<le> 3"
proof -
  consider "n_alive ctx = 0" | "n_alive ctx = n_total ctx" "0 < n_alive ctx" | "0 < n_alive ctx" "n_alive ctx < n_total ctx"
    using n_alive_le[of ctx] by linarith
  then show thesis
  proof cases
    case 1
    then show thesis using that[of 3] by (simp add: effective_ratio_def MAX_REDUNDANCY_def)
  next
    case 2
    then show thesis using that[of b] base by (auto simp: effective_ratio_def)
  next
    case 3
    let ?q = "r32 (of_nat (n_total ctx) / of_nat (n_alive ctx))"
    note q = path_quotient[OF 3(1) assms(1)]
    have "\<bar>b * ?q\<bar> \<le> 2 powi 20 * 2 powi 3"
      unfolding abs_mult using base(2) q(2,3) by (intro mult_mono) simp_all
    also have "\<dots> = (2 :: rat) powi 23" by simp
    finally have bq: "\<bar>b * ?q\<bar> \<le> 2 powi 23" .
    have f: "f32 (b * ?q) = Fin (r32 (b * ?q))" "\<bar>r32 (b * ?q)\<bar> \<le> 2 powi 23"
      using f32_bounded[OF bq] by simp_all
    have eq: "effective_ratio ctx = Fin (min 3 (r32 (b * ?q)))"
      using 3 by (simp add: effective_ratio_def Let_def base(1) q(1) f(1) MAX_REDUNDANCY_def)
    have "\<bar>min 3 (r32 (b * ?q))\<bar> \<le> 2 powi 23" using f(2) by (auto simp: min_def)
    moreover have "b \<le> r32 (b * ?q)" if "r32 b = b" "0 \<le> b"
    proof -
      have "b * 1 \<le> b * ?q" using q(2) that(2) by (intro mult_left_mono)
      then show ?thesis using rval_mono[of b "b * ?q" 24 "- 149"] that(1) by simp
    qed
    ultimately show thesis using that[OF eq] by simp
  qed
qed

lemma compute_n_defined:
  assumes "sc_path_count ctx \<le> MAX_PATHS" "sc_base_redundancy ctx = Fin b" "\<bar>b\<bar> \<le> 2 powi 20"
    and "1 \<le> k" "k \<le> int MAX_K"
  shows "\<exists>n. strategy_compute_n ctx k = Some n \<and> k \<le> n \<and> n \<le> int MAX_N"
proof -
  obtain r where "effective_ratio ctx = Fin r" "\<bar>r\<bar> \<le> 2 powi 23"
    using effective_ratio_value[OF assms(1-3)] by metis
  from compute_n_value[OF assms(4,5) this] show ?thesis using assms(4,5) by (auto simp: limits)
qed

text \<open>Losing paths never lowers the number of shards.\<close>

lemma compute_n_degraded:
  assumes "sc_path_count ctx \<le> MAX_PATHS" "sc_base_redundancy ctx = Fin b" "r32 b = b" "0 \<le> b" "b \<le> 3"
    and k: "1 \<le> k" "k \<le> int MAX_K"
  shows "\<exists>n. strategy_compute_n ctx k = Some n \<and>
    min (int MAX_N) (max k \<lceil>r32 (of_int k * b)\<rceil>) \<le> n \<and> n \<le> min (int MAX_N) (3 * k)"
proof -
  have "\<bar>b\<bar> \<le> 2 powi 20" using assms(4,5) by simp
  then obtain r where r: "effective_ratio ctx = Fin r" "\<bar>r\<bar> \<le> 2 powi 23" "b \<le> r" "r \<le> 3"
    using effective_ratio_value[OF assms(1,2)] assms(3-5) by metis
  have kp: "0 \<le> (of_int k :: rat)" using k(1) by simp
  have "r32 (of_int k * b) \<le> r32 (of_int k * r)" using r(3) kp by (intro rval_mono mult_left_mono) simp_all
  then have lo: "\<lceil>r32 (of_int k * b)\<rceil> \<le> \<lceil>r32 (of_int k * r)\<rceil>" by (rule ceiling_mono)
  have "r32 (of_int (3 * k)) = of_int (3 * k)" using k by (intro r32_int) (simp add: limits)
  moreover have "of_int k * r \<le> of_int (3 * k)" using mult_left_mono[OF r(4) kp] by simp
  ultimately have "r32 (of_int k * r) \<le> of_int (3 * k)"
    using rval_mono[of "of_int k * r" "of_int (3 * k)" 24 "- 149"] by simp
  then have hi: "\<lceil>r32 (of_int k * r)\<rceil> \<le> 3 * k" by (simp only: ceiling_le_iff)
  show ?thesis using lo hi k unfolding compute_n_value[OF k r(1,2)] by auto
qed

section \<open>The loss estimate of a run with no lost probes\<close>

text \<open>
  The event loop reports an echo with \<open>received = true\<close> and has no other call: such runs
  keep the loss rate at 0, and probing marks no path dead.
\<close>

fun no_lost_probe :: "strategy_event \<Rightarrow> bool" where
  "no_lost_probe (Probe _ _ received) = received"
| "no_lost_probe (Reload cfg) = castable cfg"
| "no_lost_probe Next_path = True"

definition loss_free :: "strategy_ctx option \<Rightarrow> bool" where
  "loss_free s \<longleftrightarrow> (\<exists>ctx. s = Some ctx \<and> strategy_ok ctx \<and>
     (\<forall>i < sc_path_count ctx. p_loss_rate (sc_paths ctx ! i) = Fin 0))"

lemma loss_free_probe:
  assumes "strategy_ok ctx" "i < sc_path_count ctx" "p_loss_rate (sc_paths ctx ! i) = Fin 0"
  shows "p_loss_rate (probe_stats (sc_ewma_alpha ctx) rtt True (sc_paths ctx ! i)) = Fin 0"
  using ewma_zero_zero[OF strategy_okD(4)[OF assms(1)]] assms(3) by (simp add: probe_stats_def Let_def)

lemma loss_free_step: 
  assumes "no_lost_probe e" "loss_free s"
  shows "loss_free (strategy_step e s)"
proof -
  obtain ctx where s: "s = Some ctx" and ok: "strategy_ok ctx"
    and z: "\<And>i. i < sc_path_count ctx \<Longrightarrow> p_loss_rate (sc_paths ctx ! i) = Fin 0"
    using assms(2) by (auto simp: loss_free_def)
  show ?thesis
  proof (cases e)
    case Next_path
    obtain r ctx' where n: "strategy_next_path ctx = Some (r, ctx')" "strategy_ok ctx'"
      using next_path_ok[OF ok] by blast
    obtain cs where "ctx' = ctx\<lparr>sc_path_credit := cs\<rparr>" using next_path_frame[OF ok n(1)] by blast
    then show ?thesis using n z by (simp add: Next_path s strategy_step_def loss_free_def)
  next
    case (Reload cfg)
    with assms(1) have "castable cfg" by simp
    from reload_spec[OF ok this] obtain ctx' where r: "strategy_reload ctx cfg = Some ctx'" "strategy_ok ctx'"
      "sc_path_count ctx' = sc_path_count ctx"
      "\<And>i. i < sc_path_count ctx \<Longrightarrow> sc_paths ctx' ! i =
         (if i < cfg_path_count cfg then reloaded_path (cfg_paths cfg ! i) (sc_paths ctx ! i) else sc_paths ctx ! i)"
      by blast
    then show ?thesis using z by (simp add: Reload s strategy_step_def loss_free_def reloaded_path_def)
  next
    case (Probe idx rtt received)
    with assms(1) have rec: "received = True" by simp
    show ?thesis
    proof (cases "idx < 0 \<or> int (sc_path_count ctx) \<le> idx")
      case True
      then show ?thesis using assms(2) by (simp add: Probe s strategy_step_def update_probe_outside)
    next
      case False
      then obtain i where idx: "idx = int i" and i: "i < sc_path_count ctx"
        using nonneg_int_cases[of idx] by auto
      obtain ctx' where u: "strategy_update_probe ctx (int i) rtt True = Some ctx'" "strategy_ok ctx'"
        "sc_path_count ctx' = sc_path_count ctx"
        "\<And>j. sc_paths ctx' ! j = (if j = i then probed_path ctx rtt True (sc_paths ctx ! i) else sc_paths ctx ! j)"
        using update_probe_at[OF ok i] by blast
      have "p_loss_rate (sc_paths ctx' ! j) = Fin 0" if "j < sc_path_count ctx" for j
        using u(4)[of j] z[OF that] loss_free_probe[OF ok i z[OF i], of rtt] by (simp add: probed_path_def Let_def)
      then show ?thesis using u by (simp add: Probe s rec idx strategy_step_def loss_free_def)
    qed
  qed
qed

lemma loss_free_start: "strategy_start s \<Longrightarrow> loss_free s"
  using init_spec by (fastforce simp: strategy_start_def loss_free_def started_path_def)

interpretation quiet: state_machine strategy_start strategy_step no_lost_probe loss_free
  by unfold_locales (fact loss_free_start, fact loss_free_step)

text \<open>With a loss of 0 and a threshold of at least 0 an echo keeps or makes the path alive.\<close>

lemma echo_keeps_alive:
  assumes ok: "strategy_ok ctx" and i: "i < sc_path_count ctx"
    and z: "p_loss_rate (sc_paths ctx ! i) = Fin 0" and th: "\<not> flt (sc_loss_threshold ctx) (Fin 0)"
    and up: "strategy_update_probe ctx (int i) rtt True = Some ctx'"
  shows "p_alive (sc_paths ctx ! i) \<longrightarrow> p_alive (sc_paths ctx' ! i)"
proof -
  have nd: "\<not> probe_dead (sc_loss_threshold ctx) (probe_stats (sc_ewma_alpha ctx) rtt True (sc_paths ctx ! i))"
    using th loss_free_probe[OF ok i z] by (simp add: probe_dead_def)
  obtain c where "strategy_update_probe ctx (int i) rtt True = Some c"
    "sc_paths c ! i = probed_path ctx rtt True (sc_paths ctx ! i)" using update_probe_at[OF ok i] by metis
  then show ?thesis using up nd by (simp add: probed_path_def Let_def)
qed

text \<open>A path that one reload disables and the next enables again stays dead.\<close>

lemma reenabled_path_dead:
  assumes ok: "strategy_ok ctx" and off: "castable off" and on: "castable on"
    and i: "i < sc_path_count ctx" "i < cfg_path_count off" "\<not> pc_enabled (cfg_paths off ! i)"
    and r1: "strategy_reload ctx off = Some ctx1" and r2: "strategy_reload ctx1 on = Some ctx2"
  shows "\<not> usable ctx2 i"
proof -
  obtain c1 where c1: "strategy_reload ctx off = Some c1" "strategy_ok c1" "sc_path_count c1 = sc_path_count ctx"
    "sc_paths c1 ! i = reloaded_path (cfg_paths off ! i) (sc_paths ctx ! i)"
    using reload_spec[OF ok off] i(1,2) by metis
  then have 1: "strategy_ok ctx1" "i < sc_path_count ctx1" "\<not> p_alive (sc_paths ctx1 ! i)"
    using r1 i by (simp_all add: reloaded_path_def)
  obtain c2 where "strategy_reload ctx1 on = Some c2"
    "sc_paths c2 ! i = (if i < cfg_path_count on then reloaded_path (cfg_paths on ! i) (sc_paths ctx1 ! i)
       else sc_paths ctx1 ! i)"
    using reload_spec[OF 1(1) on] 1(2) by metis
  then show ?thesis using r2 1(3) by (simp add: usable_def reloaded_path_def split: if_splits)
qed

section \<open>Properties\<close>

definition demo_path :: "rat \<Rightarrow> path_config" where
  "demo_path w = zero_path\<lparr>pc_weight := Fin w, pc_enabled := True\<rparr>"

text \<open>Two enabled paths with the weights 3 and 1.\<close>

definition demo_config :: gateway_config where
  "demo_config = default_config\<lparr>cfg_paths := [demo_path 3, demo_path 1] @ replicate 6 zero_path, cfg_path_count := 2\<rparr>"

lemma demo_castable: "castable demo_config"
proof -
  have fl: "is_float (Fin 3)" using r32_int[of 3] by (simp add: is_float_Fin)
  have "config_shape demo_config"
    using default_config_shape fl by (auto simp: demo_config_def config_shape_def demo_path_def path_ok_def zero_path_def limits)
  then have "config_ok demo_config"
    by (simp add: config_ok_def) (simp add: demo_config_def default_config_def limits)
  then show ?thesis
    by (simp add: castable_def demo_config_def demo_path_def credit_of_def all_less_2 INT_MIN_def INT_MAX_def)
qed

text \<open>C23: From the start, after any sequence of scheduling decisions, probe results and reloads, nothing was
  undefined and the state is in range: the loss estimate of every path is between 0 and 1, the round-trip
  estimate finite and not negative, the credits not negative, the smoothing factor in (0,1].\<close>

theorem scheduler_stays_in_range:
  assumes "castable cfg" "\<forall>e \<in> set es. event_ok e"
  shows "\<exists>ctx. fold strategy_step es (strategy_init cfg) = Some ctx \<and> alpha_ok (sc_ewma_alpha ctx) \<and>
    (\<forall>i < sc_path_count ctx. in_range 0 (p_loss_rate (sc_paths ctx ! i)) \<and> in_range 55 (p_rtt_ms (sc_paths ctx ! i)) \<and>
       0 \<le> sc_path_credit ctx ! i)"
proof -
  have "well_defined (fold strategy_step es (strategy_init cfg))"
    using assms by (intro scheduler.inv_run) (auto simp: strategy_start_def)
  then show ?thesis by (auto simp: well_defined_def strategy_ok_def path_state_ok_def)
qed

theorem scheduler_stays_in_range_witness:
  "\<exists>ctx. fold strategy_step [Next_path, Probe 0 800 True, Probe 7 0 False, Reload demo_config]
     (strategy_init demo_config) = Some ctx \<and> alpha_ok (sc_ewma_alpha ctx)"
  using scheduler_stays_in_range[OF demo_castable, of "[Next_path, Probe 0 800 True, Probe 7 0 False, Reload demo_config]"]
    demo_castable by auto

lemma demo_start:
  obtains ctx where "strategy_init demo_config = Some ctx" "strategy_ok ctx" "sc_path_count ctx = 2"
    "sc_paths ctx ! 0 = started_path (demo_path 3)" "sc_paths ctx ! 1 = started_path (demo_path 1)"
    "sc_path_credit ctx ! 0 = 3" "sc_path_credit ctx ! 1 = 1"
proof -
  obtain ctx where i: "strategy_init demo_config = Some ctx" "strategy_ok ctx" "sc_path_count ctx = cfg_path_count demo_config"
    and p: "\<And>i. i < cfg_path_count demo_config \<Longrightarrow> sc_paths ctx ! i = started_path (cfg_paths demo_config ! i)"
    and c: "\<And>i. i < cfg_path_count demo_config \<Longrightarrow> Some (sc_path_credit ctx ! i) = credit_of (pc_weight (cfg_paths demo_config ! i))"
    using init_spec[OF demo_castable] by blast
  have two: "cfg_path_count demo_config = 2" by (simp add: demo_config_def)
  have ps: "cfg_paths demo_config ! 0 = demo_path 3" "cfg_paths demo_config ! 1 = demo_path 1"
    by (simp_all add: demo_config_def)
  have w: "pc_weight (demo_path v) = Fin v" for v by (simp add: demo_path_def)
  have cr: "credit_of (Fin 3) = Some 3" "credit_of (Fin 1) = Some 1" by code_simp+
  have c0: "sc_path_credit ctx ! 0 = 3" using c[of 0] unfolding two ps w cr by simp
  have c1: "sc_path_credit ctx ! 1 = 1" using c[of 1] unfolding two ps w cr by simp
  show thesis
    using that[OF i(1,2) _ _ _ c0 c1] i(3) p[of 0] p[of 1] unfolding two ps by simp
qed

text \<open>\<open>strategy_next_path\<close> never fails, never picks a disabled or dead path, and returns -1 only when no
  path is enabled and alive; it picks a path whose credit, after the refill, is largest, the lowest index
  among equals, and takes one from that credit.\<close>

lemma next_path_picks_best:
  assumes "strategy_ok ctx"
  shows "(if \<exists>i < sc_path_count ctx. usable ctx i
     then \<exists>b cs. strategy_next_path ctx = Some (Some b, ctx\<lparr>sc_path_credit := cs\<rparr>) \<and> b < sc_path_count ctx \<and> usable ctx b \<and>
       (\<forall>j < sc_path_count ctx. cs ! j = refilled_credit ctx j - (if j = b then 1 else 0)) \<and> 1 \<le> refilled_credit ctx b \<and>
       (\<forall>j < sc_path_count ctx. usable ctx j \<longrightarrow> refilled_credit ctx j \<le> refilled_credit ctx b \<and>
          (j < b \<longrightarrow> refilled_credit ctx j < refilled_credit ctx b))
     else strategy_next_path ctx = Some (None, ctx))"
proof (cases "\<exists>i < sc_path_count ctx. usable ctx i")
  case True
  then obtain i where i: "i < sc_path_count ctx" "usable ctx i" by blast
  show ?thesis using True by (simp only: if_True) (rule next_path_some[OF assms i], blast)
next
  case False
  then show ?thesis using next_path_none by auto
qed

text \<open>C22: Weighted round robin is exact: when the credits are used up, the next calls, as many as the weights
  sum up to, pick every enabled and alive path exactly as often as its rounded weight says, never another
  path, and leave the credits used up again.\<close>

theorem round_is_fair:
  assumes "strategy_ok ctx" "refill_due ctx" "usable_paths ctx \<noteq> {}"
    and "\<And>i. i \<in> usable_paths ctx \<Longrightarrow> credit_of (p_weight_current (sc_paths ctx ! i)) = Some (w i)"
  shows "\<exists>ps ctx'. next_paths (nat (\<Sum>i \<in> usable_paths ctx. w i)) ctx = Some (ps, ctx') \<and> refill_due ctx' \<and>
    sc_paths ctx' = sc_paths ctx \<and> set ps \<subseteq> Some ` usable_paths ctx \<and>
    (\<forall>i \<in> usable_paths ctx. int (count_list ps (Some i)) = w i)"
proof -
  have "the (credit_of (p_weight_current (sc_paths ctx ! i))) = w i" if "i \<in> usable_paths ctx" for i
    using assms(4)[OF that] by simp
  then show ?thesis using round_exact[OF assms(1-3)] by (simp cong: sum.cong) blast
qed

text \<open>The start state of \<open>demo_config\<close> with its credits used up.\<close>

lemma demo_due:
  obtains ctx where "strategy_ok ctx" "refill_due ctx" "usable_paths ctx = {0, 1}"
    "p_weight_current (sc_paths ctx ! 0) = Fin 3" "p_weight_current (sc_paths ctx ! 1) = Fin 1"
proof -
  obtain ctx where c: "strategy_ok ctx" "sc_path_count ctx = 2"
    "sc_paths ctx ! 0 = started_path (demo_path 3)" "sc_paths ctx ! 1 = started_path (demo_path 1)" by (rule demo_start)
  let ?c = "ctx\<lparr>sc_path_credit := replicate MAX_PATHS 0\<rparr>"
  have nth: "replicate MAX_PATHS (0 :: int) ! i = 0" if "i < 2" for i using that by (simp add: limits)
  have ok: "strategy_ok ?c" using c(1,2) nth by (simp add: strategy_ok_def)
  have due: "refill_due ?c" using c(2) nth by (auto simp: refill_due_def)
  have "usable ctx 0" "usable ctx 1" using c(3,4) by (simp_all add: usable_def started_path_def demo_path_def)
  then have "usable_paths ctx = {0, 1}" unfolding usable_paths_def c(2) by (auto simp: less_2_cases_iff)
  then show thesis using c(3,4) by (intro that[OF ok due]) (simp_all add: started_path_def demo_path_def)
qed

theorem round_is_fair_witness:
  "\<exists>ctx ps ctx'. next_paths 4 ctx = Some (ps, ctx') \<and> count_list ps (Some 0) = 3 \<and> count_list ps (Some 1) = 1"
proof -
  obtain ctx where c: "strategy_ok ctx" "refill_due ctx" "usable_paths ctx = {0, 1}"
    "p_weight_current (sc_paths ctx ! 0) = Fin 3" "p_weight_current (sc_paths ctx ! 1) = Fin 1" by (rule demo_due)
  have "credit_of (Fin 3) = Some 3" "credit_of (Fin 1) = Some 1" by code_simp+
  then have "credit_of (p_weight_current (sc_paths ctx ! i)) = Some (if i = 0 then 3 else 1)"
    if "i \<in> usable_paths ctx" for i using that c(4,5) unfolding c(3) by (elim insertE) simp_all
  from round_is_fair[OF c(1,2) _ this] obtain ps ctx' where
    r: "next_paths (nat (\<Sum>i \<in> usable_paths ctx. if i = 0 then 3 else 1)) ctx = Some (ps, ctx')"
    "\<forall>i \<in> usable_paths ctx. int (count_list ps (Some i)) = (if i = 0 then 3 else 1)" using c(3) by auto
  have "(\<Sum>i \<in> usable_paths ctx. if i = 0 then 3 else 1) = (4 :: int)" using c(3) by simp
  moreover have "count_list ps (Some 0) = 3" "count_list ps (Some 1) = 1" using r(2) c(3) by auto
  ultimately show ?thesis using r(1) by auto
qed

text \<open>For \<open>k\<close> packets \<open>strategy_compute_n\<close> returns the rounded-up product of \<open>k\<close> and the effective
  redundancy, but at least \<open>k\<close> and at most \<open>MAX_N\<close>, whenever the redundancy is a number the conversion
  to \<open>int\<close> can take.\<close>

lemma redundancy_rounded_up:
  assumes "1 \<le> k" "k \<le> int MAX_K" and "effective_ratio ctx = Fin r" "\<bar>r\<bar> \<le> 2 powi 23"
  shows "\<exists>n. strategy_compute_n ctx k = Some n \<and> n = min (int MAX_N) (max k \<lceil>r32 (of_int k * r)\<rceil>) \<and>
    k \<le> n \<and> n \<le> int MAX_N"
  using compute_n_value[OF assms] assms(1,2) by (auto simp: limits)

text \<open>C24: A path lost never means less redundancy: with a redundancy between 0 and 3 the number of shards is
  at least the number with all paths alive, and at most three times \<open>k\<close> (and \<open>MAX_N\<close>), however many
  of the enabled paths are dead.\<close>

theorem dead_paths_raise_redundancy:
  assumes "sc_path_count ctx \<le> MAX_PATHS" "sc_base_redundancy ctx = Fin b" "r32 b = b" "0 \<le> b" "b \<le> 3"
    and "1 \<le> k" "k \<le> int MAX_K"
  shows "\<exists>n. strategy_compute_n ctx k = Some n \<and>
    min (int MAX_N) (max k \<lceil>r32 (of_int k * b)\<rceil>) \<le> n \<and> n \<le> min (int MAX_N) (3 * k)"
  using assms by (rule compute_n_degraded)

theorem dead_paths_raise_redundancy_witness:
  "\<exists>ctx n. n_alive ctx = 1 \<and> n_total ctx = 2 \<and> strategy_compute_n ctx 4 = Some n \<and> 8 \<le> n \<and> n \<le> 12"
proof -
  obtain ctx where c: "strategy_ok ctx" "sc_path_count ctx = 2"
    "sc_paths ctx ! 0 = started_path (demo_path 3)" "sc_paths ctx ! 1 = started_path (demo_path 1)" by (rule demo_start)
  let ?p = "(sc_paths ctx ! 1)\<lparr>p_alive := False\<rparr>"
  let ?c = "ctx\<lparr>sc_base_redundancy := Fin 2, sc_paths := (sc_paths ctx)[1 := ?p]\<rparr>"
  have "length (sc_paths ctx) = 8" using c(1) by (simp add: strategy_ok_def limits)
  then have "n_alive ?c = 1" "n_total ?c = 2"
    using c(2-4) by (simp_all add: n_alive_def n_total_def usable_def started_path_def demo_path_def upt_rec nth_upd)
  moreover have "r32 2 = 2" "r32 (of_int 4 * 2) = 8" using r32_int[of 2] r32_int[of 8] by simp_all
  ultimately show ?thesis using dead_paths_raise_redundancy[of ?c 2 4] c(2)
    by (intro exI[of _ ?c]) (auto simp: limits)
qed

lemma probe_loss_accuracy:
  assumes "alpha_ok al" "path_state_ok p"
  shows "\<exists>a x x'. al = Fin a \<and> p_loss_rate p = Fin x \<and> p_loss_rate (probe_stats al rtt received p) = Fin x' \<and>
    \<bar>x' - (a * (if received then 0 else 1) + (1 - a) * x)\<bar> \<le> 1 / 2 ^ 22"
proof -
  obtain a x where v: "al = Fin a" "p_loss_rate p = Fin x" "x \<le> 1"
    using assms by (auto simp: alpha_ok_def path_state_ok_def in_range_def)
  have "\<exists>r. ewma al (if received then Fin 0 else Fin 1) (p_loss_rate p) = Fin r \<and>
      \<bar>r - (a * (if received then 0 else 1) + (1 - a) * x)\<bar> \<le> 2 powi 0 / 2 ^ 22"
    by (rule ewma_accuracy[OF assms(1) in_range_obs _ _ _ _ v(1) _ v(2)]) (use assms(2) v(3) in \<open>simp_all add: path_state_ok_def\<close>)
  then show ?thesis using v by (cases received) (simp_all add: probe_stats_def Let_def)
qed

lemma probe_rtt_accuracy:
  assumes "alpha_ok al" "path_state_ok p"
  shows "\<exists>a y y' s. al = Fin a \<and> p_rtt_ms p = Fin y \<and> p_rtt_ms (probe_stats al rtt True p) = Fin y' \<and>
    fdiv (f32 (of_nat (unat rtt))) 1000 = Fin s \<and>
    (\<forall>e \<in> {0..55}. max s y \<le> 2 powi e \<longrightarrow> \<bar>y' - (a * s + (1 - a) * y)\<bar> \<le> 2 powi e / 2 ^ 22)"
proof -
  obtain a y s where v: "al = Fin a" "p_rtt_ms p = Fin y" "fdiv (f32 (of_nat (unat rtt))) 1000 = Fin s"
    using assms rtt_in_range[of rtt] by (auto simp: alpha_ok_def path_state_ok_def in_range_def)
  have y: "in_range 55 (p_rtt_ms p)" using assms(2) by (simp add: path_state_ok_def)
  note acc = ewma_accuracy[OF assms(1) rtt_in_range[of rtt] y _ _ _ v(1,3,2)]
  have new: "p_rtt_ms (probe_stats al rtt True p) = ewma al (fdiv (f32 (of_nat (unat rtt))) 1000) (p_rtt_ms p)"
    by (simp add: probe_stats_def Let_def)
  obtain y' where y': "p_rtt_ms (probe_stats al rtt True p) = Fin y'"
    using ewma_in_range[OF assms(1) rtt_in_range[of rtt] y] by (auto simp: new in_range_def)
  have "\<bar>y' - (a * s + (1 - a) * y)\<bar> \<le> 2 powi e / 2 ^ 22" if "e \<in> {0..55}" "max s y \<le> 2 powi e" for e
    using acc[of e] that y' by (auto simp: new)
  then show ?thesis using v y' by blast
qed

text \<open>C25: A probe result. The probe is counted once, an answer once more; the loss estimate is the exponential average of
  its old value and the outcome, exact up to \<open>2 ^ -22\<close>; an answer averages the round trip time in the same way, exact
  up to \<open>2 ^ -22\<close> of a power of two above both arguments, a lost probe leaves it. The path dies when the new estimate
  exceeds the threshold, revives with the credit of its weight when the estimate is below half of the threshold, and keeps
  its state in between; its configuration stays, and no other path changes.\<close>

theorem probe_hysteresis:
  assumes "strategy_ok ctx" "i < sc_path_count ctx" "strategy_update_probe ctx (int i) rtt received = Some ctx'"
    and "p = sc_paths ctx ! i" "q = sc_paths ctx' ! i"
  shows "p_probes_sent q = p_probes_sent p + 1 \<and> p_probes_recv q = p_probes_recv p + (if received then 1 else 0) \<and>
    (\<exists>a x x'. sc_ewma_alpha ctx = Fin a \<and> p_loss_rate p = Fin x \<and> p_loss_rate q = Fin x' \<and>
       \<bar>x' - (a * (if received then 0 else 1) + (1 - a) * x)\<bar> \<le> 1 / 2 ^ 22) \<and>
    (if received then \<exists>a y y' s. sc_ewma_alpha ctx = Fin a \<and> p_rtt_ms p = Fin y \<and> p_rtt_ms q = Fin y' \<and>
          fdiv (f32 (of_nat (unat rtt))) 1000 = Fin s \<and>
          (\<forall>e \<in> {0..55}. max s y \<le> 2 powi e \<longrightarrow> \<bar>y' - (a * s + (1 - a) * y)\<bar> \<le> 2 powi e / 2 ^ 22)
     else p_rtt_ms q = p_rtt_ms p) \<and>
    p_alive q = (if flt (p_loss_rate q) (fmul (sc_loss_threshold ctx) (Fin (1 / 2))) then True
      else if flt (sc_loss_threshold ctx) (p_loss_rate q) then False else p_alive p) \<and>
    (if flt (p_loss_rate q) (fmul (sc_loss_threshold ctx) (Fin (1 / 2)))
     then credit_of (p_weight_current p) = Some (sc_path_credit ctx' ! i) else sc_path_credit ctx' = sc_path_credit ctx) \<and>
    p_cfg q = p_cfg p \<and> p_weight_current q = p_weight_current p \<and>
    (\<forall>j. j \<noteq> i \<longrightarrow> sc_paths ctx' ! j = sc_paths ctx ! j \<and> sc_path_credit ctx' ! j = sc_path_credit ctx ! j)"
proof -
  let ?p = "probe_stats (sc_ewma_alpha ctx) rtt received p" and ?half = "fmul (sc_loss_threshold ctx) (Fin (1 / 2))"
  have ok: "alpha_ok (sc_ewma_alpha ctx)" "path_state_ok p" using assms(1,2,4) by (simp_all add: strategy_ok_def)
  have len: "i < length (sc_paths ctx)" "i < length (sc_path_credit ctx)"
    using assms(1,2) by (simp_all add: strategy_ok_def)
  have q: "q = ?p\<lparr>p_alive := (if flt (p_loss_rate ?p) ?half then True
      else if flt (sc_loss_threshold ctx) (p_loss_rate ?p) then False else p_alive p)\<rparr>"
    and cr: "if flt (p_loss_rate ?p) ?half then \<exists>v. credit_of (p_weight_current p) = Some v \<and>
        sc_path_credit ctx' = (sc_path_credit ctx)[i := v] else sc_path_credit ctx' = sc_path_credit ctx"
    and other: "\<forall>j. j \<noteq> i \<longrightarrow> sc_paths ctx' ! j = sc_paths ctx ! j"
    using assms(2,3,4,5) len
    by (auto simp: strategy_update_probe_def Let_def probe_stats_frame split: if_splits option.splits)
  have loss: "\<exists>a x x'. sc_ewma_alpha ctx = Fin a \<and> p_loss_rate p = Fin x \<and> p_loss_rate q = Fin x' \<and>
      \<bar>x' - (a * (if received then 0 else 1) + (1 - a) * x)\<bar> \<le> 1 / 2 ^ 22"
    using probe_loss_accuracy[OF ok, of rtt received] by (simp add: q)
  have time: "if received then \<exists>a y y' s. sc_ewma_alpha ctx = Fin a \<and> p_rtt_ms p = Fin y \<and> p_rtt_ms q = Fin y' \<and>
        fdiv (f32 (of_nat (unat rtt))) 1000 = Fin s \<and>
        (\<forall>e \<in> {0..55}. max s y \<le> 2 powi e \<longrightarrow> \<bar>y' - (a * s + (1 - a) * y)\<bar> \<le> 2 powi e / 2 ^ 22)
      else p_rtt_ms q = p_rtt_ms p"
    using probe_rtt_accuracy[OF ok, of rtt] by (simp add: q probe_stats_def Let_def)
  have credit: "if flt (p_loss_rate q) ?half then credit_of (p_weight_current p) = Some (sc_path_credit ctx' ! i)
      else sc_path_credit ctx' = sc_path_credit ctx"
    "\<forall>j. j \<noteq> i \<longrightarrow> sc_path_credit ctx' ! j = sc_path_credit ctx ! j"
    using cr len(2) by (auto simp: q split: if_splits)
  have frame: "p_probes_sent q = p_probes_sent p + 1" "p_probes_recv q = p_probes_recv p + (if received then 1 else 0)"
    "p_cfg q = p_cfg p" "p_weight_current q = p_weight_current p"
    "p_alive q = (if flt (p_loss_rate q) ?half then True else if flt (sc_loss_threshold ctx) (p_loss_rate q) then False else p_alive p)"
    by (simp_all add: q probe_stats_frame)
  show ?thesis using frame loss time credit other by (intro conjI) simp_all
qed

theorem probe_hysteresis_witness:
  "\<exists>ctx ctx'. strategy_update_probe ctx 0 2000 True = Some ctx' \<and>
     p_probes_recv (sc_paths ctx' ! 0) = p_probes_recv (sc_paths ctx ! 0) + 1 \<and> sc_paths ctx' ! 1 = sc_paths ctx ! 1"
proof -
  obtain ctx where c: "strategy_ok ctx" "sc_path_count ctx = 2" by (rule demo_start)
  then obtain ctx' where "strategy_update_probe ctx (int 0) 2000 True = Some ctx'"
    by (metis update_probe_at zero_less_numeral)
  from probe_hysteresis[OF c(1) _ this refl refl] this c(2) show ?thesis by (intro exI[of _ ctx] exI[of _ ctx']) simp
qed

text \<open>When every probe that is reported was answered, no loss estimate ever leaves 0, and an answered probe never kills a
  path (with a threshold that is not negative).\<close>

lemma answered_probes_keep_zero:
  assumes "castable cfg" "\<forall>e \<in> set es. no_lost_probe e"
  shows "\<exists>ctx. fold strategy_step es (strategy_init cfg) = Some ctx \<and>
    (\<forall>i < sc_path_count ctx. p_loss_rate (sc_paths ctx ! i) = Fin 0 \<and>
       (\<forall>rtt ctx'. strategy_update_probe ctx (int i) rtt True = Some ctx' \<longrightarrow>
          \<not> flt (sc_loss_threshold ctx) (Fin 0) \<longrightarrow> p_alive (sc_paths ctx ! i) \<longrightarrow> p_alive (sc_paths ctx' ! i)))"
proof -
  have "loss_free (fold strategy_step es (strategy_init cfg))"
    using assms by (intro quiet.inv_run) (auto simp: strategy_start_def)
  then show ?thesis unfolding loss_free_def using echo_keeps_alive by blast
qed

text \<open>C27: A reload takes over the redundancy, the threshold and every path's weight and enabled flag, and
  keeps what was measured: the estimates and probe counters of every path, the number of paths, and the
  state of every path that stays enabled.\<close>

theorem reload_keeps_measurements:
  assumes "strategy_ok ctx" "castable cfg"
  shows "\<exists>ctx'. strategy_reload ctx cfg = Some ctx' \<and> sc_path_count ctx' = sc_path_count ctx \<and>
    sc_base_redundancy ctx' = cfg_redundancy_ratio cfg \<and> sc_loss_threshold ctx' = cfg_probe_loss_threshold cfg \<and>
    (\<forall>i < sc_path_count ctx. p_loss_rate (sc_paths ctx' ! i) = p_loss_rate (sc_paths ctx ! i) \<and>
       p_rtt_ms (sc_paths ctx' ! i) = p_rtt_ms (sc_paths ctx ! i) \<and>
       p_probes_sent (sc_paths ctx' ! i) = p_probes_sent (sc_paths ctx ! i) \<and>
       p_probes_recv (sc_paths ctx' ! i) = p_probes_recv (sc_paths ctx ! i) \<and>
       (i < cfg_path_count cfg \<longrightarrow> p_weight_current (sc_paths ctx' ! i) = pc_weight (cfg_paths cfg ! i) \<and>
          (usable ctx' i \<longleftrightarrow> p_alive (sc_paths ctx ! i) \<and> pc_enabled (cfg_paths cfg ! i))))"
proof -
  obtain ctx' where r: "strategy_reload ctx cfg = Some ctx'" "sc_path_count ctx' = sc_path_count ctx"
    "sc_base_redundancy ctx' = cfg_redundancy_ratio cfg" "sc_loss_threshold ctx' = cfg_probe_loss_threshold cfg"
    and p: "\<And>i. i < sc_path_count ctx \<Longrightarrow> sc_paths ctx' ! i =
       (if i < cfg_path_count cfg then reloaded_path (cfg_paths cfg ! i) (sc_paths ctx ! i) else sc_paths ctx ! i)"
    by (rule reload_spec[OF assms]) blast
  show ?thesis using r by (intro exI[of _ ctx']) (auto simp: p usable_def reloaded_path_def)
qed

theorem reload_keeps_measurements_witness:
  "\<exists>ctx ctx'. strategy_init demo_config = Some ctx \<and> strategy_reload ctx demo_config = Some ctx' \<and> sc_path_count ctx' = 2"
proof -
  obtain ctx where c: "strategy_init demo_config = Some ctx" "strategy_ok ctx" "sc_path_count ctx = 2" by (rule demo_start)
  then show ?thesis using reload_keeps_measurements[OF c(2) demo_castable] by metis
qed

text \<open>C28: A path that a reload disables stays unused after a later reload enables it again: the reload clears
  its \<open>alive\<close> flag and enabling does not set it.\<close>

theorem reenabled_path_unused:
  assumes "strategy_ok ctx" "castable off" "castable on" and "i < sc_path_count ctx" "i < cfg_path_count off"
    and "\<not> pc_enabled (cfg_paths off ! i)"
    and "strategy_reload ctx off = Some ctx1" "strategy_reload ctx1 on = Some ctx2" "strategy_next_path ctx2 = Some (Some b, ctx3)"
  shows "\<not> usable ctx2 i \<and> b \<noteq> i"
proof -
  have u: "\<not> usable ctx2 i" by (rule reenabled_path_dead[OF assms(1-8)])
  have "strategy_ok ctx1" using reload_spec[OF assms(1,2)] assms(7) by auto
  then have ok: "strategy_ok ctx2" using reload_spec[OF _ assms(3)] assms(8) by fastforce
  show ?thesis
  proof (cases "\<exists>j < sc_path_count ctx2. usable ctx2 j")
    case True
    then obtain j where "j < sc_path_count ctx2" "usable ctx2 j" by blast
    from next_path_some[OF ok this] show ?thesis using assms(9) u by (metis Pair_inject option.inject)
  next
    case False
    then show ?thesis using next_path_none[of ctx2] assms(9) by auto
  qed
qed


definition demo_off :: gateway_config where
  "demo_off = demo_config\<lparr>cfg_paths := [(demo_path 3)\<lparr>pc_enabled := False\<rparr>, demo_path 1] @ replicate 6 zero_path\<rparr>"

lemma demo_off_castable: "castable demo_off"
proof -
  have fl: "is_float (Fin 3)" using r32_int[of 3] by (simp add: is_float_Fin)
  have "config_shape demo_config" using demo_castable by (simp add: castable_def config_ok_def)
  then have "config_shape demo_off"
    using fl by (auto simp: demo_off_def config_shape_def demo_path_def path_ok_def zero_path_def limits)
  then have "config_ok demo_off"
    by (simp add: config_ok_def) (simp add: demo_off_def demo_config_def default_config_def limits)
  then show ?thesis
    by (simp add: castable_def demo_off_def demo_config_def demo_path_def credit_of_def all_less_2 INT_MIN_def INT_MAX_def)
qed

theorem reenabled_path_unused_witness:
  "\<exists>ctx ctx1 ctx2. strategy_init demo_config = Some ctx \<and> usable ctx 0 \<and>
     strategy_reload ctx demo_off = Some ctx1 \<and> strategy_reload ctx1 demo_config = Some ctx2 \<and>
     pc_enabled (cfg_paths demo_config ! 0) \<and> \<not> usable ctx2 0"
proof -
  obtain ctx where c: "strategy_init demo_config = Some ctx" "strategy_ok ctx" "sc_path_count ctx = 2"
    "sc_paths ctx ! 0 = started_path (demo_path 3)" "sc_paths ctx ! 1 = started_path (demo_path 1)" by (rule demo_start)
  have off: "cfg_path_count demo_off = 2" "\<not> pc_enabled (cfg_paths demo_off ! 0)" "cfg_paths demo_off ! 1 = demo_path 1"
    and on: "cfg_path_count demo_config = 2" "cfg_paths demo_config ! 0 = demo_path 3" "cfg_paths demo_config ! 1 = demo_path 1"
    by (simp_all add: demo_off_def demo_config_def)
  have en: "pc_enabled (demo_path w)" for w by (simp add: demo_path_def)
  obtain ctx1 where 1: "strategy_reload ctx demo_off = Some ctx1" "strategy_ok ctx1" "sc_path_count ctx1 = 2"
    "sc_paths ctx1 ! 1 = reloaded_path (demo_path 1) (started_path (demo_path 1))"
    using reload_spec[OF c(2) demo_off_castable] c(3,5) off one_less_numeral_iff by (metis semiring_norm(76))
  obtain ctx2 where 2: "strategy_reload ctx1 demo_config = Some ctx2" "strategy_ok ctx2" "sc_path_count ctx2 = 2"
    "sc_paths ctx2 ! 1 = reloaded_path (demo_path 1) (sc_paths ctx1 ! 1)"
    using reload_spec[OF 1(2) demo_castable] 1(3) on one_less_numeral_iff by (metis semiring_norm(76))
  have "1 < sc_path_count ctx2 \<and> usable ctx2 1"
    using 2(3,4) 1(4) en by (simp add: usable_def reloaded_path_def started_path_def)
  then obtain b ctx3 where "strategy_next_path ctx2 = Some (Some b, ctx3)" using next_path_some[OF 2(2)] by metis
  then have "\<not> usable ctx2 0"
    using reenabled_path_unused[OF c(2) demo_off_castable demo_castable _ _ off(2) 1(1) 2(1)] c(3) off(1) by simp
  moreover have "usable ctx 0" using c(4) en by (simp add: usable_def started_path_def)
  ultimately show ?thesis using c(1) 1(1) 2(1) on(2) en by auto
qed

end
