(* ===== verification/Transport.thy ===== *)
theory Transport
  imports Config Codec
begin

text \<open>
  \<open>src/transport.c\<close>: the wire format and the UDP sockets. The answers of the operating system
  are arguments: the descriptors that \<open>socket\<close> returns, whether \<open>bind\<close> succeeds, the value
  of the \<open>c\<close>-th \<open>sendto\<close> (the stream \<open>net\<close>), the datagram that \<open>recvfrom\<close> delivers. What
  the program hands to \<open>sendto\<close> is recorded, in order, in the list \<open>sent\<close>. \<open>Recv_overrun\<close> is a read past the
  datagram or a write past the shard in \<open>transport_recv\<close>; it is shown not to occur.
\<close>

section \<open>The wire format\<close>

definition WIRE_MAGIC :: u16 where "WIRE_MAGIC = 0xC0DE"
definition WIRE_VERSION :: u8 where "WIRE_VERSION = 1"
definition TYPE_DATA :: u8 where "TYPE_DATA = 1"
definition TYPE_PROBE :: u8 where "TYPE_PROBE = 2"
definition TYPE_PROBE_ECHO :: u8 where "TYPE_PROBE_ECHO = 3"
definition WIRE_HDR_SIZE :: nat where "WIRE_HDR_SIZE = 14"

lemmas wire_constants = WIRE_MAGIC_def WIRE_VERSION_def TYPE_DATA_def TYPE_PROBE_def
  TYPE_PROBE_ECHO_def WIRE_HDR_SIZE_def

record wire_header =
  h_magic :: u16
  h_version :: u8
  h_type :: u8
  h_block_id :: u32
  h_shard_idx :: u8
  h_k :: u8
  h_n :: u8
  h_reserved :: u8
  h_payload_len :: u16

text \<open>\<open>htons\<close> and \<open>htonl\<close> followed by a store: the bytes in network order. \<open>ntohs\<close>, \<open>ntohl\<close>
  after a load read them back.\<close>

definition be16 :: "u16 \<Rightarrow> bytes" where
  "be16 w = [ucast (drop_bit 8 w), ucast w]"

definition be32 :: "u32 \<Rightarrow> bytes" where
  "be32 w = [ucast (drop_bit 24 w), ucast (drop_bit 16 w), ucast (drop_bit 8 w), ucast w]"

definition rd16 :: "bytes \<Rightarrow> nat \<Rightarrow> u16" where
  "rd16 b i = push_bit 8 (ucast (b ! i)) OR ucast (b ! (i + 1))"

definition rd32 :: "bytes \<Rightarrow> nat \<Rightarrow> u32" where
  "rd32 b i = push_bit 24 (ucast (b ! i)) OR push_bit 16 (ucast (b ! (i + 1))) OR
              push_bit 8 (ucast (b ! (i + 2))) OR ucast (b ! (i + 3))"

definition header_bytes :: "wire_header \<Rightarrow> bytes" where
  "header_bytes h = be16 (h_magic h) @ [h_version h, h_type h] @ be32 (h_block_id h) @
     [h_shard_idx h, h_k h, h_n h, h_reserved h] @ be16 (h_payload_len h)"

definition parse_header :: "bytes \<Rightarrow> wire_header" where
  "parse_header b = \<lparr>h_magic = rd16 b 0, h_version = b ! 2, h_type = b ! 3, h_block_id = rd32 b 4,
     h_shard_idx = b ! 8, h_k = b ! 9, h_n = b ! 10, h_reserved = b ! 11, h_payload_len = rd16 b 12\<rparr>"

section \<open>Sockets\<close>

record path_sock =
  s_fd :: int
  s_addr :: u32
  s_port :: u16
  s_enabled :: bool

record transport_ctx =
  tc_paths :: "path_sock list"
  tc_path_count :: nat
  tc_recv_fd :: int

text \<open>\<open>inet_pton(AF_INET, ...)\<close>: four decimal octets separated by dots.\<close>

fun split_dots :: "string \<Rightarrow> string list" where
  "split_dots [] = [[]]"
| "split_dots (c # s) =
     (if c = CHR ''.'' then [] # split_dots s
      else case split_dots s of [] \<Rightarrow> [[c]] | p # ps \<Rightarrow> (c # p) # ps)"

definition octet :: "string \<Rightarrow> u32 option" where
  "octet s =
     (if s \<noteq> [] \<and> length s \<le> 3 \<and> list_all (is_digit 10) s \<and> (length s > 1 \<longrightarrow> hd s \<noteq> CHR ''0'') \<and>
         num_val 10 s \<le> 255
      then Some (word_of_int (num_val 10 s)) else None)"

definition inet_pton :: "string \<Rightarrow> u32 option" where
  "inet_pton s =
     (case map octet (split_dots s) of
        [Some a, Some b, Some c, Some d] \<Rightarrow>
          Some (push_bit 24 a OR push_bit 16 b OR push_bit 8 c OR d)
      | _ \<Rightarrow> None)"

text \<open>
  The operating system at start: whether \<open>calloc\<close> succeeds, the descriptor for receiving and whether it can
  be bound to the port, and the descriptor of each path's socket (negative: failure).
\<close>

record os_sockets =
  os_memory :: bool
  os_recv_fd :: int
  os_bind :: "u16 \<Rightarrow> bool"
  os_path_fd :: "nat \<Rightarrow> int"

definition zero_sock :: path_sock where
  "zero_sock = \<lparr>s_fd = 0, s_addr = 0, s_port = 0, s_enabled = False\<rparr>"

definition init_sock :: "os_sockets \<Rightarrow> nat \<Rightarrow> path_config \<Rightarrow> path_sock \<Rightarrow> path_sock" where
  "init_sock os i p s =
     (let s = s\<lparr>s_enabled := pc_enabled p, s_fd := - 1\<rparr> in
      if \<not> pc_enabled p then s
      else
        let s = s\<lparr>s_fd := os_path_fd os i\<rparr> in
        if s_fd s < 0 then s
        else
          let s = s\<lparr>s_port := pc_remote_port p\<rparr> in
          case inet_pton (pc_remote_ip p) of
            None \<Rightarrow> s\<lparr>s_fd := - 1\<rparr>
          | Some a \<Rightarrow> s\<lparr>s_addr := a\<rparr>)"

text \<open>\<open>None\<close> is the null pointer.\<close>

definition transport_init :: "os_sockets \<Rightarrow> gateway_config \<Rightarrow> u16 \<Rightarrow> transport_ctx option" where
  "transport_init os cfg listen_port =
     (if \<not> os_memory os then None
      else if os_recv_fd os < 0 then None
      else if \<not> os_bind os listen_port then None
      else Some \<lparr>tc_paths = fold (\<lambda>i ps. ps[i := init_sock os i (cfg_paths cfg ! i) (ps ! i)])
                                [0..<cfg_path_count cfg] (replicate MAX_PATHS zero_sock),
                 tc_path_count = cfg_path_count cfg, tc_recv_fd = os_recv_fd os\<rparr>)"

text \<open>The calls of \<open>socket\<close> that succeed and of \<open>close\<close>, in the order of \<open>transport_init\<close>.\<close>

datatype fd_event = Opens int | Closes int

definition path_events :: "os_sockets \<Rightarrow> nat \<Rightarrow> path_config \<Rightarrow> fd_event list" where
  "path_events os i p =
     (if \<not> pc_enabled p \<or> os_path_fd os i < 0 then []
      else case inet_pton (pc_remote_ip p) of
        None \<Rightarrow> [Opens (os_path_fd os i), Closes (os_path_fd os i)]
      | Some _ \<Rightarrow> [Opens (os_path_fd os i)])"

definition transport_init_events :: "os_sockets \<Rightarrow> gateway_config \<Rightarrow> u16 \<Rightarrow> fd_event list" where
  "transport_init_events os cfg listen_port =
     (if \<not> os_memory os \<or> os_recv_fd os < 0 then []
      else if \<not> os_bind os listen_port then [Opens (os_recv_fd os), Closes (os_recv_fd os)]
      else Opens (os_recv_fd os) # concat (map (\<lambda>i. path_events os i (cfg_paths cfg ! i)) [0..<cfg_path_count cfg]))"

text \<open>The descriptors that \<open>transport_free\<close> closes.\<close>

definition transport_free :: "transport_ctx \<Rightarrow> int list" where
  "transport_free ctx =
     (if tc_recv_fd ctx \<ge> 0 then [tc_recv_fd ctx] else []) @
     filter (\<lambda>fd. fd \<ge> 0) (map (\<lambda>i. s_fd (tc_paths ctx ! i)) [0..<tc_path_count ctx])"

section \<open>Sending\<close>

record datagram =
  d_fd :: int
  d_addr :: u32
  d_port :: u16
  d_bytes :: bytes

definition send_buf ::
  "(nat \<Rightarrow> int) \<Rightarrow> transport_ctx \<Rightarrow> nat \<Rightarrow> bytes \<Rightarrow> datagram list \<Rightarrow> int \<times> datagram list" where
  "send_buf net ctx path_idx buf sent =
     (let ps = tc_paths ctx ! path_idx in
      if \<not> s_enabled ps \<or> s_fd ps < 0 then (- 1, sent)
      else
        let n = net (length sent);
            sent' = sent @ [\<lparr>d_fd = s_fd ps, d_addr = s_addr ps, d_port = s_port ps, d_bytes = buf\<rparr>]
        in (if n = int (length buf) then 0 else - 1, sent'))"

definition shard_header :: "u32 \<Rightarrow> u8 \<Rightarrow> u8 \<Rightarrow> u8 \<Rightarrow> shard \<Rightarrow> wire_header" where
  "shard_header block_id shard_idx k n s =
     \<lparr>h_magic = WIRE_MAGIC, h_version = WIRE_VERSION, h_type = TYPE_DATA, h_block_id = block_id,
      h_shard_idx = shard_idx, h_k = k, h_n = n, h_reserved = 0, h_payload_len = len s\<rparr>"

definition shard_bytes :: "u32 \<Rightarrow> u8 \<Rightarrow> u8 \<Rightarrow> u8 \<Rightarrow> shard \<Rightarrow> bytes" where
  "shard_bytes block_id shard_idx k n s =
     header_bytes (shard_header block_id shard_idx k n s) @
     take (unat k) (coeffs s) @ take (unat (len s)) (data s)"

definition transport_send_shard ::
  "(nat \<Rightarrow> int) \<Rightarrow> transport_ctx \<Rightarrow> nat \<Rightarrow> u32 \<Rightarrow> u8 \<Rightarrow> u8 \<Rightarrow> u8 \<Rightarrow> shard \<Rightarrow> datagram list \<Rightarrow>
     int \<times> datagram list" where
  "transport_send_shard net ctx path_idx block_id shard_idx k n s sent =
     send_buf net ctx path_idx (shard_bytes block_id shard_idx k n s) sent"

definition probe_bytes :: "u8 \<Rightarrow> u64 \<Rightarrow> bytes" where
  "probe_bytes type timestamp_us =
     header_bytes \<lparr>h_magic = WIRE_MAGIC, h_version = WIRE_VERSION, h_type = type, h_block_id = 0,
       h_shard_idx = 0, h_k = 0, h_n = 0, h_reserved = 0, h_payload_len = 0\<rparr> @
     be32 (ucast (drop_bit 32 timestamp_us)) @ be32 (ucast (timestamp_us AND 0xFFFFFFFF))"

definition transport_send_probe ::
  "(nat \<Rightarrow> int) \<Rightarrow> transport_ctx \<Rightarrow> nat \<Rightarrow> u64 \<Rightarrow> datagram list \<Rightarrow> int \<times> datagram list" where
  "transport_send_probe net ctx path_idx timestamp_us sent =
     send_buf net ctx path_idx (probe_bytes TYPE_PROBE timestamp_us) sent"

definition transport_send_probe_echo ::
  "(nat \<Rightarrow> int) \<Rightarrow> transport_ctx \<Rightarrow> nat \<Rightarrow> u64 \<Rightarrow> datagram list \<Rightarrow> int \<times> datagram list" where
  "transport_send_probe_echo net ctx path_idx timestamp_us sent =
     send_buf net ctx path_idx (probe_bytes TYPE_PROBE_ECHO timestamp_us) sent"

section \<open>Receiving\<close>

text \<open>The set of descriptors that \<open>select\<close> waits for, and the highest of them plus one.\<close>

definition transport_fill_fdset :: "transport_ctx \<Rightarrow> int set \<Rightarrow> int set \<times> int" where
  "transport_fill_fdset ctx rfds = (insert (tc_recv_fd ctx) rfds, tc_recv_fd ctx + 1)"

text \<open>
  The outcome of \<open>transport_recv\<close>: -1, or the type with what it filled in. \<open>junk\<close> is the
  uninitialised shard of the caller. A datagram comes with its sender's address; \<open>None\<close> is a
  socket that is not readable or a failed \<open>recvfrom\<close>. \<open>Recv_overrun\<close> is undefined behaviour: a read past
  the bytes received, or a write past an array of the shard.
\<close>

datatype recv_result =
    Recv_none
  | Recv_overrun
  | Recv_data wire_header shard nat
  | Recv_probe nat u64
  | Recv_probe_echo nat u64

definition match_path :: "transport_ctx \<Rightarrow> u32 \<Rightarrow> nat" where
  "match_path ctx sender =
     (case find (\<lambda>i. s_enabled (tc_paths ctx ! i) \<and> s_addr (tc_paths ctx ! i) = sender)
             [0..<tc_path_count ctx] of
        None \<Rightarrow> 0 | Some i \<Rightarrow> i)"

definition RECV_BUF :: nat where "RECV_BUF = WIRE_HDR_SIZE + MAX_K + MAX_PAYLOAD"

definition transport_recv :: "transport_ctx \<Rightarrow> (bytes \<times> u32) option \<Rightarrow> shard \<Rightarrow> recv_result" where
  "transport_recv ctx input junk =
     (case input of
        None \<Rightarrow> Recv_none
      | Some (dgram, sender) \<Rightarrow>
          (let buf = take RECV_BUF dgram; n = length buf in
           if n < WIRE_HDR_SIZE then Recv_none
           else if \<not> inside buf 0 WIRE_HDR_SIZE then Recv_overrun
           else
             let hdr = parse_header buf in
             if h_magic hdr \<noteq> WIRE_MAGIC then Recv_none
             else
               let path_idx = match_path ctx sender; k = unat (h_k hdr); plen = unat (h_payload_len hdr) in
               if h_type hdr = TYPE_DATA then
                 if k > MAX_K then Recv_none
                 else if plen > MAX_PAYLOAD then Recv_none
                 else if n < WIRE_HDR_SIZE + k + plen then Recv_none
                 else if \<not> (inside buf WIRE_HDR_SIZE k \<and> inside (coeffs junk) 0 k \<and>
                            inside buf (WIRE_HDR_SIZE + k) plen \<and> inside (data junk) 0 plen) then Recv_overrun
                 else Recv_data hdr
                        (junk\<lparr>coeffs := memcpy (coeffs junk) (drop WIRE_HDR_SIZE buf) k,
                              data := memcpy (data junk) (drop (WIRE_HDR_SIZE + k) buf) plen,
                              len := h_payload_len hdr\<rparr>) path_idx
               else if h_type hdr = TYPE_PROBE \<or> h_type hdr = TYPE_PROBE_ECHO then
                 if n < WIRE_HDR_SIZE + 8 then Recv_none
                 else if \<not> (inside buf WIRE_HDR_SIZE 4 \<and> inside buf (WIRE_HDR_SIZE + 4) 4) then Recv_overrun
                 else
                   let ts = push_bit 32 (ucast (rd32 buf WIRE_HDR_SIZE)) OR ucast (rd32 buf (WIRE_HDR_SIZE + 4))
                   in if h_type hdr = TYPE_PROBE then Recv_probe path_idx ts else Recv_probe_echo path_idx ts
               else Recv_none))"

section \<open>Numbers on the wire\<close>

lemma join16: "push_bit 8 (ucast (ucast (drop_bit 8 w) :: u8)) OR ucast (ucast w :: u8) = (w :: u16)"
  by (rule bit_word_eqI) (auto simp: bit_simps)

lemma join32:
  "push_bit 24 (ucast (ucast (drop_bit 24 w) :: u8)) OR push_bit 16 (ucast (ucast (drop_bit 16 w) :: u8)) OR
   push_bit 8 (ucast (ucast (drop_bit 8 w) :: u8)) OR ucast (ucast w :: u8) = (w :: u32)" (is "?l = _")
proof (rule bit_word_eqI)
  fix n assume "n < LENGTH(32)"
  then consider "n < 8" | "8 \<le> n" "n < 16" | "16 \<le> n" "n < 24" | "24 \<le> n" "n < 32" by fastforce
  then show "bit ?l n = bit w n" by cases (auto simp: bit_simps)
qed

lemma join64:
  "push_bit 32 (ucast (ucast (drop_bit 32 t) :: u32)) OR ucast (ucast (t AND 0xFFFFFFFF) :: u32) = (t :: u64)"
  (is "?l = _")
proof (rule bit_word_eqI)
  have "t AND 0xFFFFFFFF = take_bit 32 t" by (simp add: take_bit_eq_mask mask_eq_exp_minus_1)
  then show "bit ?l n = bit t n" if "n < LENGTH(64)" for n
    using that by (cases "n < 32") (auto simp: bit_simps)
qed

lemma header_bytes_length [simp]: "length (header_bytes h) = 14"
  by (simp add: header_bytes_def be16_def be32_def)

lemma parse_header_bytes: "parse_header (header_bytes h @ r) = h"
  by (cases h) (simp add: parse_header_def header_bytes_def be16_def be32_def rd16_def rd32_def join16 join32)

lemma parse_header_take: "14 \<le> n \<Longrightarrow> 14 \<le> length b \<Longrightarrow> parse_header (take n b) = parse_header b"
  by (simp add: parse_header_def rd16_def rd32_def)

lemma rd32_be32: "rd32 (a @ be32 w @ r) (length a) = w"
  by (simp add: rd32_def be32_def nth_append join32)

section \<open>What is sent is received\<close>

text \<open>
  The contract of a message format: a decoder that reads every encoded message back. Two
  messages have different encodings, and a channel that loses nothing delivers the list sent.
\<close>

locale wire_format =
  fixes put :: "'m \<Rightarrow> bytes"
    and get :: "bytes \<Rightarrow> 'm option"
    and sendable :: "'m \<Rightarrow> bool"
  assumes get_put: "sendable m \<Longrightarrow> get (put m) = Some m"
begin

lemma put_inj: "sendable m \<Longrightarrow> sendable m' \<Longrightarrow> put m = put m' \<Longrightarrow> m = m'"
  by (metis get_put option.inject)

lemma lossless: "\<forall>m \<in> set ms. sendable m \<Longrightarrow> List.map_filter (get \<circ> put) ms = ms"
  by (induction ms) (simp_all add: List.map_filter_def get_put)

end

text \<open>A datagram that the receive buffer holds.\<close>

definition recv_frame :: "transport_ctx \<Rightarrow> bytes \<Rightarrow> u32 \<Rightarrow> shard \<Rightarrow> recv_result" where
  "recv_frame ctx buf sender junk =
     (let hdr = parse_header buf; path_idx = match_path ctx sender;
          k = unat (h_k hdr); plen = unat (h_payload_len hdr); n = length buf in
      if n < 14 \<or> h_magic hdr \<noteq> WIRE_MAGIC then Recv_none
      else if h_type hdr = TYPE_DATA then
        if k > MAX_K \<or> plen > MAX_PAYLOAD \<or> n < 14 + k + plen then Recv_none
        else if length (coeffs junk) < k \<or> length (data junk) < plen then Recv_overrun
        else Recv_data hdr
               (junk\<lparr>coeffs := memcpy (coeffs junk) (drop 14 buf) k,
                     data := memcpy (data junk) (drop (14 + k) buf) plen, len := h_payload_len hdr\<rparr>) path_idx
      else if (h_type hdr = TYPE_PROBE \<or> h_type hdr = TYPE_PROBE_ECHO) \<and> 22 \<le> n then
        let ts = push_bit 32 (ucast (rd32 buf 14)) OR ucast (rd32 buf 18)
        in if h_type hdr = TYPE_PROBE then Recv_probe path_idx ts else Recv_probe_echo path_idx ts
      else Recv_none)"

lemma recv_eq_frame: "transport_recv ctx (Some (b, sender)) junk = recv_frame ctx (take RECV_BUF b) sender junk"
proof -
  define buf where "buf = take RECV_BUF b"
  let ?h = "parse_header buf"
  show ?thesis
    unfolding transport_recv_def recv_frame_def inside_def WIRE_HDR_SIZE_def Let_def option.case prod.case buf_def[symmetric]
    by (cases "length buf < 14"; cases "h_magic ?h = WIRE_MAGIC"; cases "h_type ?h = TYPE_DATA";
        cases "unat (h_k ?h) \<le> MAX_K"; cases "unat (h_payload_len ?h) \<le> MAX_PAYLOAD";
        cases "length buf < 14 + unat (h_k ?h) + unat (h_payload_len ?h)"; cases "length buf < 22"; simp add: not_less)
qed

lemma recv_small: "length b \<le> RECV_BUF \<Longrightarrow> transport_recv ctx (Some (b, sender)) junk = recv_frame ctx b sender junk"
  by (simp add: recv_eq_frame)

lemma RECV_BUF_eq: "RECV_BUF = 1430"
  by (simp add: RECV_BUF_def limits WIRE_HDR_SIZE_def)

text \<open>Two full-size arrays, as every \<open>struct shard\<close> has them.\<close>

definition shard_arrays :: "shard \<Rightarrow> bool" where
  "shard_arrays s \<longleftrightarrow> length (coeffs s) = MAX_K \<and> length (data s) = MAX_PAYLOAD"

text \<open>A shard that fits the receiver's buffers.\<close>

definition sendable_shard :: "u8 \<Rightarrow> shard \<Rightarrow> bool" where
  "sendable_shard k s \<longleftrightarrow> unat k \<le> MAX_K \<and> unat (len s) \<le> MAX_PAYLOAD \<and>
     unat k \<le> length (coeffs s) \<and> unat (len s) \<le> length (data s)"

lemma shard_bytes_length:
  "sendable_shard k s \<Longrightarrow> length (shard_bytes block_id i k n s) = 14 + unat k + unat (len s)"
  by (simp add: shard_bytes_def sendable_shard_def)

lemma shard_bytes_drop:
  assumes "sendable_shard k s"
  shows "drop 14 (shard_bytes block_id i k n s) = take (unat k) (coeffs s) @ take (unat (len s)) (data s)"
    "drop (14 + unat k) (shard_bytes block_id i k n s) = take (unat (len s)) (data s)"
  using assms by (simp_all add: shard_bytes_def sendable_shard_def min_def)

lemma recv_shard:
  assumes "sendable_shard k s" "shard_arrays junk"
  shows "transport_recv ctx (Some (shard_bytes block_id i k n s, sender)) junk =
    Recv_data (shard_header block_id i k n s)
      (junk\<lparr>coeffs := memcpy (coeffs junk) (coeffs s) (unat k),
            data := memcpy (data junk) (data s) (unat (len s)), len := len s\<rparr>) (match_path ctx sender)"
proof -
  let ?b = "shard_bytes block_id i k n s"
  have L: "length ?b = 14 + unat k + unat (len s)" by (rule shard_bytes_length[OF assms(1)])
  have fit: "unat k \<le> MAX_K" "unat (len s) \<le> MAX_PAYLOAD" "unat k \<le> length (coeffs s)"
    "unat k \<le> length (coeffs junk)" "unat (len s) \<le> length (data junk)"
    using assms by (simp_all add: sendable_shard_def shard_arrays_def)
  then have t: "length ?b \<le> RECV_BUF" using L by (simp add: RECV_BUF_eq limits)
  have h: "parse_header ?b = shard_header block_id i k n s"
    by (simp add: shard_bytes_def parse_header_bytes)
  have c: "memcpy (coeffs junk) (take (unat k) (coeffs s) @ take (unat (len s)) (data s)) (unat k) =
      memcpy (coeffs junk) (coeffs s) (unat k)"
    using fit(3) by (simp add: memcpy_def)
  have d: "memcpy (data junk) (take (unat (len s)) (data s)) (unat (len s)) =
      memcpy (data junk) (data s) (unat (len s))" by (simp add: memcpy_def)
  show ?thesis using L fit
    by (simp add: recv_small[OF t] recv_frame_def Let_def h shard_header_def shard_bytes_drop[OF assms(1)] c d not_less)
qed

lemma probe_bytes_length: "length (probe_bytes type ts) = 22"
  by (simp add: probe_bytes_def be32_def)

lemma recv_probe_bytes:
  assumes "type = TYPE_PROBE \<or> type = TYPE_PROBE_ECHO"
  shows "transport_recv ctx (Some (probe_bytes type ts, sender)) junk =
    (if type = TYPE_PROBE then Recv_probe (match_path ctx sender) ts
     else Recv_probe_echo (match_path ctx sender) ts)"
proof -
  define hd where "hd = \<lparr>h_magic = WIRE_MAGIC, h_version = WIRE_VERSION, h_type = type, h_block_id = 0,
       h_shard_idx = 0, h_k = 0, h_n = 0, h_reserved = 0, h_payload_len = 0\<rparr>"
  let ?hi = "ucast (drop_bit 32 ts) :: u32"
  let ?lo = "ucast (ts AND 0xFFFFFFFF) :: u32"
  have b: "probe_bytes type ts = header_bytes hd @ be32 ?hi @ be32 ?lo"
    by (simp add: probe_bytes_def hd_def)
  have L: "length (probe_bytes type ts) = 22" by (rule probe_bytes_length)
  then have t: "length (probe_bytes type ts) \<le> RECV_BUF" by (simp add: RECV_BUF_eq)
  have h: "parse_header (probe_bytes type ts) = hd" unfolding b by (rule parse_header_bytes)
  have hi: "rd32 (probe_bytes type ts) 14 = ?hi"
    using rd32_be32[of "header_bytes hd" ?hi "be32 ?lo"] by (simp add: b)
  have lo: "rd32 (probe_bytes type ts) 18 = ?lo"
    using rd32_be32[of "header_bytes hd @ be32 ?hi" ?lo "[]"] by (simp add: b be32_def[of ?hi])
  have ts: "push_bit 32 (ucast ?hi) OR ucast ?lo = ts" by (rule join64)
  have ty: "h_magic hd = WIRE_MAGIC" "h_type hd = type" by (simp_all add: hd_def)
  have nd: "type \<noteq> TYPE_DATA" "TYPE_PROBE_ECHO \<noteq> TYPE_PROBE" using assms by (auto simp: wire_constants)
  show ?thesis
    unfolding recv_small[OF t] recv_frame_def Let_def h hi lo ts ty L using assms nd by auto
qed

text \<open>The shard message as sent and as read, and the probe message.\<close>

type_synonym shard_msg = "u32 \<times> u8 \<times> u8 \<times> u8 \<times> bytes \<times> bytes"

definition put_shard :: "shard_msg \<Rightarrow> bytes" where
  "put_shard m = (case m of (b, i, k, n, cs, ds) \<Rightarrow>
     shard_bytes b i k n \<lparr>coeffs = cs, data = ds, len = of_nat (length ds)\<rparr>)"

definition get_shard :: "bytes \<Rightarrow> shard_msg option" where
  "get_shard dgram =
     (case transport_recv \<lparr>tc_paths = [], tc_path_count = 0, tc_recv_fd = 0\<rparr> (Some (dgram, 0))
            \<lparr>coeffs = replicate MAX_K 0, data = replicate MAX_PAYLOAD 0, len = 0\<rparr> of
        Recv_data h s _ \<Rightarrow> Some (h_block_id h, h_shard_idx h, h_k h, h_n h,
          take (unat (h_k h)) (coeffs s), take (unat (len s)) (data s))
      | _ \<Rightarrow> None)"

definition sendable_msg :: "shard_msg \<Rightarrow> bool" where
  "sendable_msg m = (case m of (b, i, k, n, cs, ds) \<Rightarrow>
     length cs = unat k \<and> unat k \<le> MAX_K \<and> length ds \<le> MAX_PAYLOAD)"

interpretation shard_wire: wire_format put_shard get_shard sendable_msg
proof
  show "get_shard (put_shard m) = Some m" if "sendable_msg m" for m
  proof -
    obtain b i k n cs ds where m: "m = (b, i, k, n, cs, ds)" by (cases m) auto
    have s: "length cs = unat k" "unat k \<le> MAX_K" "length ds \<le> MAX_PAYLOAD"
      using that by (simp_all add: m sendable_msg_def)
    have l: "unat (of_nat (length ds) :: u16) = length ds"
      using s(3) by (simp add: unat_of_nat take_bit_nat_eq_self limits)
    have "sendable_shard k \<lparr>coeffs = cs, data = ds, len = of_nat (length ds)\<rparr>"
      using s l by (simp add: sendable_shard_def)
    from recv_shard[OF this, of "\<lparr>coeffs = replicate MAX_K 0, data = replicate MAX_PAYLOAD 0, len = 0\<rparr>"] show ?thesis
      using s l by (simp add: m put_shard_def get_shard_def shard_header_def memcpy_def shard_arrays_def)
  qed
qed

definition get_probe :: "u8 \<Rightarrow> bytes \<Rightarrow> u64 option" where
  "get_probe type dgram =
     (case transport_recv \<lparr>tc_paths = [], tc_path_count = 0, tc_recv_fd = 0\<rparr> (Some (dgram, 0))
            \<lparr>coeffs = [], data = [], len = 0\<rparr> of
        Recv_probe _ ts \<Rightarrow> if type = TYPE_PROBE then Some ts else None
      | Recv_probe_echo _ ts \<Rightarrow> if type = TYPE_PROBE_ECHO then Some ts else None
      | _ \<Rightarrow> None)"

interpretation probe_wire: wire_format "probe_bytes TYPE_PROBE" "get_probe TYPE_PROBE" "\<lambda>_. True"
  by unfold_locales (simp add: get_probe_def recv_probe_bytes)

interpretation echo_wire: wire_format "probe_bytes TYPE_PROBE_ECHO" "get_probe TYPE_PROBE_ECHO" "\<lambda>_. True"
  by unfold_locales (simp add: get_probe_def recv_probe_bytes wire_constants)

section \<open>What the receiver accepts\<close>

lemma recv_frame_data:
  assumes "recv_frame ctx b sender junk = Recv_data h s p"
  shows "14 \<le> length b" "h = parse_header b" "h_magic h = WIRE_MAGIC" "h_type h = TYPE_DATA"
    "unat (h_k h) \<le> MAX_K" "unat (h_payload_len h) \<le> MAX_PAYLOAD"
    "14 + unat (h_k h) + unat (h_payload_len h) \<le> length b" "p = match_path ctx sender"
    "s = junk\<lparr>coeffs := memcpy (coeffs junk) (drop 14 b) (unat (h_k h)),
       data := memcpy (data junk) (drop (14 + unat (h_k h)) b) (unat (h_payload_len h)), len := h_payload_len h\<rparr>"
  using assms by (auto simp: recv_frame_def Let_def not_less split: if_splits)

lemma recv_data:
  assumes "transport_recv ctx (Some (dgram, sender)) junk = Recv_data h s p"
  shows "h = parse_header dgram" "h_magic h = WIRE_MAGIC" "h_type h = TYPE_DATA"
    "unat (h_k h) \<le> MAX_K" "unat (h_payload_len h) \<le> MAX_PAYLOAD"
    "14 + unat (h_k h) + unat (h_payload_len h) \<le> length dgram"
    "len s = h_payload_len h" "p = match_path ctx sender"
    "take (unat (h_k h)) (coeffs s) = take (unat (h_k h)) (drop 14 dgram)"
    "take (unat (h_payload_len h)) (data s) = take (unat (h_payload_len h)) (drop (14 + unat (h_k h)) dgram)"
proof -
  let ?b = "take RECV_BUF dgram"
  have r: "recv_frame ctx ?b sender junk = Recv_data h s p" using assms by (simp add: recv_eq_frame)
  note c = recv_frame_data[OF r]
  have ph: "parse_header ?b = parse_header dgram"
    using c(1) by (intro parse_header_take) (simp_all add: RECV_BUF_eq)
  from c(2-9) ph show "h = parse_header dgram" "h_magic h = WIRE_MAGIC" "h_type h = TYPE_DATA"
    "unat (h_k h) \<le> MAX_K" "unat (h_payload_len h) \<le> MAX_PAYLOAD"
    "len s = h_payload_len h" "p = match_path ctx sender" by simp_all
  show "14 + unat (h_k h) + unat (h_payload_len h) \<le> length dgram" using c(7) by simp
  have R: "14 + unat (h_k h) + unat (h_payload_len h) \<le> RECV_BUF" using c(5,6) by (simp add: RECV_BUF_eq limits)
  then have tk: "take (unat (h_k h)) (drop 14 ?b) = take (unat (h_k h)) (drop 14 dgram)"
    "take (unat (h_payload_len h)) (drop (14 + unat (h_k h)) ?b) =
     take (unat (h_payload_len h)) (drop (14 + unat (h_k h)) dgram)"
    by (simp_all add: drop_take min_def)
  have m: "take m (memcpy d x m) = take m x" if "m \<le> length x" for m and d x :: bytes
    using that by (simp add: memcpy_def)
  have l: "unat (h_k h) \<le> length (drop 14 ?b)" "unat (h_payload_len h) \<le> length (drop (14 + unat (h_k h)) ?b)"
    using c(7) unfolding length_drop by linarith+
  show "take (unat (h_k h)) (coeffs s) = take (unat (h_k h)) (drop 14 dgram)"
    by (simp add: c(9) tk(1)[symmetric] m[OF l(1)])
  show "take (unat (h_payload_len h)) (data s) = take (unat (h_payload_len h)) (drop (14 + unat (h_k h)) dgram)"
    by (simp add: c(9) tk(2)[symmetric] m[OF l(2)])
qed

lemma recv_data_arrays:
  assumes "transport_recv ctx (Some (dgram, sender)) junk = Recv_data h s p" "shard_arrays junk"
  shows "shard_arrays s"
proof -
  obtain b where r: "recv_frame ctx b sender junk = Recv_data h s p" using assms by (auto simp: recv_eq_frame)
  note c = recv_frame_data[OF r]
  have "unat (h_k h) \<le> length (drop 14 b)" "unat (h_payload_len h) \<le> length (drop (14 + unat (h_k h)) b)"
    using c(7) by simp_all
  then show ?thesis using assms(2) c(5,6) by (simp add: c(9) shard_arrays_def length_memcpy)
qed

lemma match_path_bound: "tc_path_count ctx \<le> MAX_PATHS \<Longrightarrow> match_path ctx sender < MAX_PATHS"
  by (auto simp: match_path_def find_Some_iff limits split: option.splits)

text \<open>The guards of the code keep every copy inside its arrays.\<close>

lemma recv_no_overrun: "shard_arrays junk \<Longrightarrow> transport_recv ctx input junk \<noteq> Recv_overrun"
  by (auto simp: transport_recv_def inside_def shard_arrays_def Let_def not_less WIRE_HDR_SIZE_def split: option.split)

lemma recv_probe_path:
  "transport_recv ctx (Some (dgram, sender)) junk = Recv_probe p ts \<Longrightarrow> p = match_path ctx sender"
  "transport_recv ctx (Some (dgram, sender)) junk = Recv_probe_echo p ts \<Longrightarrow> p = match_path ctx sender"
  by (auto simp: recv_eq_frame recv_frame_def Let_def split: if_splits)

lemma match_path_range: "0 < tc_path_count ctx \<Longrightarrow> match_path ctx sender < tc_path_count ctx"
  by (auto simp: match_path_def find_Some_iff split: option.splits)

text \<open>The sender's address decides, its port does not: of paths with one address the first gets
  every datagram.\<close>

lemma match_path_first:
  assumes "i < tc_path_count ctx" "s_enabled (tc_paths ctx ! i)" "s_addr (tc_paths ctx ! i) = a"
    and "\<And>j. j < i \<Longrightarrow> \<not> (s_enabled (tc_paths ctx ! j) \<and> s_addr (tc_paths ctx ! j) = a)"
  shows "match_path ctx a = i"
proof -
  have "find (\<lambda>i. s_enabled (tc_paths ctx ! i) \<and> s_addr (tc_paths ctx ! i) = a) [0..<tc_path_count ctx] = Some i"
    unfolding find_Some_iff by (rule exI[of _ i]) (use assms in simp)
  then show ?thesis by (simp add: match_path_def)
qed

text \<open>The version byte and the reserved byte are not looked at.\<close>

lemma recv_ignores_version:
  "transport_recv ctx (Some (header_bytes (h\<lparr>h_version := v\<rparr>) @ body, sender)) junk =
   (case transport_recv ctx (Some (header_bytes h @ body, sender)) junk of
      Recv_data h' s p \<Rightarrow> Recv_data (h'\<lparr>h_version := v\<rparr>) s p
    | r \<Rightarrow> r)"
proof -
  define b where "b = take (RECV_BUF - 14) body"
  have t: "take RECV_BUF (header_bytes g @ body) = header_bytes g @ b" for g
    by (simp add: b_def RECV_BUF_eq)
  have rd: "rd32 (header_bytes (h\<lparr>h_version := v\<rparr>) @ b) 14 = rd32 (header_bytes h @ b) 14"
    "rd32 (header_bytes (h\<lparr>h_version := v\<rparr>) @ b) 18 = rd32 (header_bytes h @ b) 18"
    by (simp_all add: rd32_def nth_append)
  let ?bad = "MAX_K < unat (h_k h) \<or> MAX_PAYLOAD < unat (h_payload_len h) \<or>
    length b < unat (h_k h) + unat (h_payload_len h)"
  show ?thesis
    unfolding recv_eq_frame t recv_frame_def Let_def parse_header_bytes rd
    by (cases "h_magic h = WIRE_MAGIC"; cases "h_type h = TYPE_DATA"; cases ?bad;
        cases "(h_type h = TYPE_PROBE \<or> h_type h = TYPE_PROBE_ECHO) \<and> 8 \<le> length b";
        cases "h_type h = TYPE_PROBE") simp_all
qed

section \<open>Sending on a path\<close>

lemma send_buf_cases:
  "send_buf net ctx i buf sent = (r, sent') \<Longrightarrow>
     (sent' = sent \<and> r = - 1 \<and> (\<not> s_enabled (tc_paths ctx ! i) \<or> s_fd (tc_paths ctx ! i) < 0)) \<or>
     (\<exists>d. sent' = sent @ [d] \<and> d_bytes d = buf \<and> d_addr d = s_addr (tc_paths ctx ! i) \<and>
        d_port d = s_port (tc_paths ctx ! i) \<and> d_fd d = s_fd (tc_paths ctx ! i) \<and>
        s_enabled (tc_paths ctx ! i) \<and> 0 \<le> s_fd (tc_paths ctx ! i) \<and>
        (r = 0 \<longleftrightarrow> net (length sent) = int (length buf)))"
  by (auto simp: send_buf_def Let_def split: if_splits)

text \<open>After the start each path's socket has the address, the port and the flag of the configuration.\<close>

lemma init_socks:
  assumes "n \<le> length ps" "i < length ps"
  shows "fold (\<lambda>i ps. ps[i := init_sock os i (c ! i) (ps ! i)]) [0..<n] ps ! i =
    (if i < n then init_sock os i (c ! i) (ps ! i) else ps ! i)"
    and "length (fold (\<lambda>i ps. ps[i := init_sock os i (c ! i) (ps ! i)]) [0..<n] ps) = length ps"
  using nth_for_upd[OF assms(2), of n "\<lambda>i. init_sock os i (c ! i)"]
    length_for_upd[of n "\<lambda>i. init_sock os i (c ! i)" ps]
  by (simp_all add: for_upd_def)

lemma transport_init_path:
  assumes "transport_init os cfg port = Some ctx" "i < cfg_path_count cfg" "cfg_path_count cfg \<le> MAX_PATHS"
  shows "tc_paths ctx ! i = init_sock os i (cfg_paths cfg ! i) zero_sock"
    and "tc_path_count ctx = cfg_path_count cfg"
  using assms init_socks(1)[of "cfg_path_count cfg" "replicate MAX_PATHS zero_sock" i os "cfg_paths cfg"]
  by (auto simp: transport_init_def split: if_splits)

lemma transport_init_sendable:
  assumes "transport_init os cfg port = Some ctx" "i < cfg_path_count cfg" "cfg_path_count cfg \<le> MAX_PATHS"
    and "pc_enabled (cfg_paths cfg ! i)" "0 \<le> os_path_fd os i" "inet_pton (pc_remote_ip (cfg_paths cfg ! i)) = Some a"
  shows "tc_paths ctx ! i = \<lparr>s_fd = os_path_fd os i, s_addr = a, s_port = pc_remote_port (cfg_paths cfg ! i), s_enabled = True\<rparr>"
  using assms(4-6) transport_init_path[OF assms(1-3)] by (simp add: init_sock_def zero_sock_def Let_def)

section \<open>Properties\<close>

text \<open>C20: A shard that is sent is received as it was sent: header, the \<open>k\<close> coefficients and the payload,
  whatever the receiver's uninitialised buffer held, and it is attributed to the path of the sender.\<close>

theorem shard_message_roundtrip:
  assumes "sendable_shard k s" "shard_arrays junk"
  shows "\<exists>s'. transport_recv ctx (Some (shard_bytes block_id i k n s, sender)) junk =
      Recv_data \<lparr>h_magic = WIRE_MAGIC, h_version = WIRE_VERSION, h_type = TYPE_DATA, h_block_id = block_id,
        h_shard_idx = i, h_k = k, h_n = n, h_reserved = 0, h_payload_len = len s\<rparr> s' (match_path ctx sender) \<and>
    len s' = len s \<and> take (unat k) (coeffs s') = take (unat k) (coeffs s) \<and>
    take (unat (len s)) (data s') = take (unat (len s)) (data s) \<and> shard_arrays s'"
  using assms recv_shard[OF assms] by (auto simp: shard_header_def sendable_shard_def shard_arrays_def memcpy_def)

theorem shard_message_roundtrip_witness:
  "\<exists>s'. transport_recv \<lparr>tc_paths = [zero_sock], tc_path_count = 1, tc_recv_fd = 3\<rparr>
      (Some (shard_bytes 7 1 2 3 \<lparr>coeffs = [0, 1], data = [9], len = 1\<rparr>, 0))
      \<lparr>coeffs = replicate MAX_K 0, data = replicate MAX_PAYLOAD 0, len = 0\<rparr> = Recv_data
        \<lparr>h_magic = WIRE_MAGIC, h_version = WIRE_VERSION, h_type = TYPE_DATA, h_block_id = 7,
        h_shard_idx = 1, h_k = 2, h_n = 3, h_reserved = 0, h_payload_len = 1\<rparr> s' 0 \<and>
    take 2 (coeffs s') = [0, 1]"
  using shard_message_roundtrip[of 2 "\<lparr>coeffs = [0, 1], data = [9], len = 1\<rparr>"
      "\<lparr>coeffs = replicate MAX_K 0, data = replicate MAX_PAYLOAD 0, len = 0\<rparr>"
      "\<lparr>tc_paths = [zero_sock], tc_path_count = 1, tc_recv_fd = 3\<rparr>" 7 1 3 0]
  by (auto simp: sendable_shard_def shard_arrays_def limits match_path_def zero_sock_def)

text \<open>A probe and its echo carry the 64-bit time stamp unchanged and are told apart by their type.\<close>

lemma probe_roundtrip:
  "transport_recv ctx (Some (probe_bytes TYPE_PROBE ts, sender)) junk = Recv_probe (match_path ctx sender) ts \<and>
   transport_recv ctx (Some (probe_bytes TYPE_PROBE_ECHO ts, sender)) junk = Recv_probe_echo (match_path ctx sender) ts"
  by (simp add: recv_probe_bytes wire_constants)

text \<open>C21: No datagram, of whatever length and content, makes \<open>transport_recv\<close> read past what was received or write
  outside the shard: into a shard with arrays of the declared sizes it never overruns, neither for data nor for truncated
  probes. A data shard is accepted only when its \<open>k\<close> and payload fit their arrays and are contained in the datagram;
  the arrays keep their sizes, and every path index, of data, probes and echoes, is inside the array of paths when
  the number of configured paths is.\<close>

theorem received_shard_in_bounds:
  assumes "shard_arrays junk" "tc_path_count ctx \<le> MAX_PATHS"
  shows "case transport_recv ctx input junk of
      Recv_none \<Rightarrow> True
    | Recv_overrun \<Rightarrow> False
    | Recv_data h s p \<Rightarrow> (\<exists>dgram sender. input = Some (dgram, sender) \<and> h = parse_header dgram \<and>
        WIRE_HDR_SIZE + unat (h_k h) + unat (h_payload_len h) \<le> length dgram) \<and>
        unat (h_k h) \<le> MAX_K \<and> unat (h_payload_len h) \<le> MAX_PAYLOAD \<and> h_magic h = WIRE_MAGIC \<and>
        len s = h_payload_len h \<and> shard_arrays s \<and> p < MAX_PATHS
    | Recv_probe p ts \<Rightarrow> p < MAX_PATHS
    | Recv_probe_echo p ts \<Rightarrow> p < MAX_PATHS"
proof (cases input)
  case None
  then show ?thesis by (simp add: transport_recv_def)
next
  case (Some x)
  obtain dgram sender where x: "input = Some (dgram, sender)" using Some by (cases x) auto
  have p: "match_path ctx sender < MAX_PATHS" using match_path_bound[OF assms(2)] .
  show ?thesis
  proof (cases "transport_recv ctx input junk")
    case Recv_overrun
    then show ?thesis using recv_no_overrun[OF assms(1)] by simp
  next
    case (Recv_data h s q)
    note r = Recv_data[unfolded x]
    show ?thesis unfolding Recv_data recv_result.case
      using recv_data[OF r] recv_data_arrays[OF r assms(1)] p x by (intro conjI) (simp_all add: WIRE_HDR_SIZE_def)
  next
    case (Recv_probe q ts)
    then show ?thesis using p recv_probe_path x by simp
  next
    case (Recv_probe_echo q ts)
    then show ?thesis using p recv_probe_path x by simp
  qed simp
qed

theorem received_shard_in_bounds_witness:
  "\<exists>s. transport_recv \<lparr>tc_paths = [zero_sock], tc_path_count = 1, tc_recv_fd = 3\<rparr>
       (Some (shard_bytes 7 1 2 3 \<lparr>coeffs = [0, 1], data = [9], len = 1\<rparr>, 0))
       \<lparr>coeffs = replicate MAX_K 0, data = replicate MAX_PAYLOAD 0, len = 0\<rparr> =
     Recv_data (shard_header 7 1 2 3 \<lparr>coeffs = [0, 1], data = [9], len = 1\<rparr>) s 0 \<and> shard_arrays s"
proof -
  let ?ctx = "\<lparr>tc_paths = [zero_sock], tc_path_count = 1, tc_recv_fd = 3\<rparr>"
  let ?m = "\<lparr>coeffs = [0, 1], data = [9], len = 1 :: u16\<rparr>"
  let ?j = "\<lparr>coeffs = replicate MAX_K 0, data = replicate MAX_PAYLOAD 0, len = 0 :: u16\<rparr>"
  have "sendable_shard 2 ?m" by (simp add: sendable_shard_def limits)
  moreover have j: "shard_arrays ?j" by (simp add: shard_arrays_def)
  ultimately obtain s where r: "transport_recv ?ctx (Some (shard_bytes 7 1 2 3 ?m, 0)) ?j =
      Recv_data (shard_header 7 1 2 3 ?m) s (match_path ?ctx 0)" using recv_shard by blast
  have "match_path ?ctx 0 = 0" by (simp add: match_path_def zero_sock_def)
  moreover have "shard_arrays s"
    using received_shard_in_bounds[OF j, of ?ctx "Some (shard_bytes 7 1 2 3 ?m, 0)"] unfolding r by (simp add: limits)
  ultimately show ?thesis using r by simp
qed

text \<open>A shard is sent only on an enabled path with an open socket, as one datagram to that path's
  address; the result is 0 exactly when the system took all of it, and on a path without a socket
  nothing is sent and the result is -1.\<close>

lemma shard_sent_on_its_path:
  "transport_send_shard net ctx i block_id idx k n s sent =
   (let ps = tc_paths ctx ! i; b = shard_bytes block_id idx k n s in
    if s_enabled ps \<and> 0 \<le> s_fd ps
    then (if net (length sent) = int (length b) then 0 else - 1,
          sent @ [\<lparr>d_fd = s_fd ps, d_addr = s_addr ps, d_port = s_port ps, d_bytes = b\<rparr>])
    else (- 1, sent))"
  by (simp add: transport_send_shard_def send_buf_def Let_def not_less)

text \<open>A datagram is attributed by the sender's IP address alone, to the first enabled path with that
  address: two paths to the same address with different ports cannot be told apart, and the second is
  never credited with a probe echo.\<close>

lemma same_address_first_path:
  assumes "i < j" "j < tc_path_count ctx" "s_enabled (tc_paths ctx ! i)" "s_enabled (tc_paths ctx ! j)"
    and "s_addr (tc_paths ctx ! i) = s_addr (tc_paths ctx ! j)"
    and "\<And>l. l < i \<Longrightarrow> \<not> (s_enabled (tc_paths ctx ! l) \<and> s_addr (tc_paths ctx ! l) = s_addr (tc_paths ctx ! i))"
  shows "transport_recv ctx (Some (probe_bytes TYPE_PROBE_ECHO ts, s_addr (tc_paths ctx ! j))) junk = Recv_probe_echo i ts"
proof -
  have "match_path ctx (s_addr (tc_paths ctx ! j)) = i"
    using assms by (intro match_path_first) simp_all
  then show ?thesis using recv_probe_bytes[of TYPE_PROBE_ECHO ctx ts] by (simp add: wire_constants)
qed

end
