(* ===== verification/Metrics.thy ===== *)
theory Metrics
  imports Config
begin

text \<open>
  \<open>src/metrics.c\<close>: the counters, the latency histogram and the text of the \<open>/metrics\<close>
  response. The answers of \<open>socket\<close>, \<open>bind\<close>, \<open>listen\<close> and \<open>accept\<close> are arguments.
  \<open>snprintf\<close> into the response buffer is modelled with its truncation; a write position
  past the end of the buffer would be undefined behaviour: \<open>None\<close>.
\<close>

section \<open>Counters\<close>

definition METRICS_LATENCY_BUCKETS :: nat where "METRICS_LATENCY_BUCKETS = 8"

record metrics =
  m_shards_sent :: "u64 list"
  m_shards_received :: "u64 list"
  m_decode_success :: u64
  m_decode_failure :: u64
  m_blocks_encoded :: u64
  m_latency_bucket :: "u64 list"
  m_latency_count :: u64
  m_latency_sum_ms :: cfloat

definition zero_metrics :: metrics where
  "zero_metrics = \<lparr>m_shards_sent = replicate MAX_PATHS 0, m_shards_received = replicate MAX_PATHS 0,
     m_decode_success = 0, m_decode_failure = 0, m_blocks_encoded = 0,
     m_latency_bucket = replicate METRICS_LATENCY_BUCKETS 0, m_latency_count = 0, m_latency_sum_ms = Fin 0\<rparr>"

text \<open>\<open>g_metrics.counter[i]++\<close> on an array.\<close>

definition count_at :: "nat \<Rightarrow> u64 list \<Rightarrow> u64 list" where
  "count_at i cs = cs[i := cs ! i + 1]"

definition latency_bounds :: "rat list" where
  "latency_bounds = [1, 5, 10, 25, 50, 100, 250, 500]"

text \<open>Addition and division of \<open>double\<close>.\<close>

fun dadd :: "cfloat \<Rightarrow> cfloat \<Rightarrow> cfloat" where
  "dadd (Fin x) (Fin y) = f64 (x + y)"
| "dadd v w = fadd v w"

fun ddiv :: "cfloat \<Rightarrow> rat \<Rightarrow> cfloat" where
  "ddiv (Fin x) y = f64 (x / y)"
| "ddiv v y = fdiv v y"

definition metrics_record_latency :: "u64 \<Rightarrow> metrics \<Rightarrow> metrics" where
  "metrics_record_latency latency_us g =
     (let ms = ddiv (f64 (of_nat (unat latency_us))) 1000 in
      g\<lparr>m_latency_bucket :=
          for_upd METRICS_LATENCY_BUCKETS
            (\<lambda>i b. if fle ms (Fin (latency_bounds ! i)) then b + 1 else b) (m_latency_bucket g),
        m_latency_count := m_latency_count g + 1,
        m_latency_sum_ms := dadd (m_latency_sum_ms g) ms\<rparr>)"

definition metrics_listen :: "int \<Rightarrow> bool \<Rightarrow> bool \<Rightarrow> int" where
  "metrics_listen sock bound listening =
     (if sock < 0 then - 1 else if \<not> bound then - 1 else if \<not> listening then - 1 else sock)"

section \<open>Printing\<close>

fun digits :: "nat \<Rightarrow> string" where
  "digits n = (if n < 10 then [char_of (48 + n)] else digits (n div 10) @ [char_of (48 + n mod 10)])"

declare digits.simps [simp del]

text \<open>\<open>\<percent>.pf\<close>: correctly rounded, with \<open>p\<close> digits after the point.\<close>

definition pad_digits :: "nat \<Rightarrow> nat \<Rightarrow> string" where
  "pad_digits p n = (let d = digits n in replicate (p - length d) (CHR ''0'') @ d)"

fun fmt_fixed :: "nat \<Rightarrow> cfloat \<Rightarrow> string" where
  "fmt_fixed p (Fin x) =
     (let r = nat (round_half_even (\<bar>x\<bar> * 10 ^ p)) in
      (if x < 0 then ''-'' else []) @ digits (r div 10 ^ p) @
      (if p = 0 then [] else CHR ''.'' # pad_digits p (r mod 10 ^ p)))"
| "fmt_fixed p PInf = ''inf''"
| "fmt_fixed p NInf = ''-inf''"
| "fmt_fixed p NaN = ''nan''"

definition llu :: "u64 \<Rightarrow> string" where
  "llu w = digits (unat w)"

definition nl :: string where "nl = [newline]"
definition quote :: string where "quote = [CHR 0x22]"
definition crlf :: string where "crlf = [CHR 0x0D, CHR 0x0A]"

definition RESP_MAX :: nat where "RESP_MAX = 8192"

text \<open>\<open>blen += snprintf(body + blen, RESP_MAX - blen, ...)\<close>.\<close>

definition emit :: "string \<Rightarrow> string \<times> nat \<Rightarrow> (string \<times> nat) option" where
  "emit txt st = (case st of (body, blen) \<Rightarrow>
     if blen \<ge> RESP_MAX then None
     else Some (take blen body @ take (RESP_MAX - blen - 1) txt, blen + length txt))"

fun emits :: "string list \<Rightarrow> string \<times> nat \<Rightarrow> (string \<times> nat) option" where
  "emits [] st = Some st"
| "emits (t # ts) st = (case emit t st of None \<Rightarrow> None | Some st' \<Rightarrow> emits ts st')"

text \<open>A line with a path label.\<close>

definition labelled :: "string \<Rightarrow> string \<Rightarrow> string \<Rightarrow> string" where
  "labelled metric name val = metric @ ''{path='' @ quote @ name @ quote @ ''} '' @ val @ nl"

definition plain :: "string \<Rightarrow> string \<Rightarrow> string" where
  "plain metric val = metric @ '' '' @ val @ nl"

text \<open>The running sum \<open>cum\<close> of the histogram.\<close>

fun cumulate :: "u64 \<Rightarrow> u64 list \<Rightarrow> u64 list" where
  "cumulate cum [] = []"
| "cumulate cum (b # bs) = (cum + b) # cumulate (cum + b) bs"

definition bucket_line :: "nat \<Rightarrow> u64 \<Rightarrow> string" where
  "bucket_line i cum = ''coding_gateway_block_latency_ms_bucket{le='' @ quote @
     fmt_fixed 0 (Fin (latency_bounds ! i)) @ quote @ ''} '' @ llu cum @ nl"

definition metrics_lines ::
  "metrics \<Rightarrow> string list \<Rightarrow> nat \<Rightarrow> cfloat list \<Rightarrow> cfloat list \<Rightarrow> cfloat \<Rightarrow> string list" where
  "metrics_lines g path_names path_count loss_rates rtt_ms redundancy_ratio =
     map (\<lambda>i. labelled ''coding_gateway_shards_sent_total'' (path_names ! i) (llu (m_shards_sent g ! i)))
       [0..<path_count] @
     map (\<lambda>i. labelled ''coding_gateway_shards_received_total'' (path_names ! i) (llu (m_shards_received g ! i)))
       [0..<path_count] @
     [plain ''coding_gateway_decode_success_total'' (llu (m_decode_success g)),
      plain ''coding_gateway_decode_failure_total'' (llu (m_decode_failure g)),
      plain ''coding_gateway_blocks_encoded_total'' (llu (m_blocks_encoded g))] @
     concat (map (\<lambda>i.
       [labelled ''coding_gateway_path_loss_rate'' (path_names ! i) (fmt_fixed 6 (loss_rates ! i)),
        labelled ''coding_gateway_path_rtt_ms'' (path_names ! i) (fmt_fixed 3 (rtt_ms ! i))]) [0..<path_count]) @
     [plain ''coding_gateway_redundancy_ratio_current'' (fmt_fixed 4 redundancy_ratio)] @
     map (\<lambda>i. bucket_line i (cumulate 0 (m_latency_bucket g) ! i)) [0..<METRICS_LATENCY_BUCKETS] @
     [''coding_gateway_block_latency_ms_bucket{le='' @ quote @ ''+Inf'' @ quote @ ''} '' @
        llu (m_latency_count g) @ nl,
      plain ''coding_gateway_block_latency_ms_sum'' (fmt_fixed 3 (m_latency_sum_ms g)),
      plain ''coding_gateway_block_latency_ms_count'' (llu (m_latency_count g))]"

definition RESP_SIZE :: nat where "RESP_SIZE = RESP_MAX + 256"

text \<open>\<open>rlen = snprintf(resp, sizeof(resp), ...)\<close> and \<open>write(conn, resp, rlen)\<close>: the buffer holds at most
  \<open>RESP_SIZE - 1\<close> characters of the text and the terminator, \<open>rlen\<close> is the length of the whole text; to write more than
  the buffer holds would be undefined behaviour.\<close>

definition write_response :: "string \<Rightarrow> string option" where
  "write_response txt =
     (let resp = take (RESP_SIZE - 1) txt @ [NUL]; rlen = length txt
      in if rlen > RESP_SIZE then None else Some (take rlen resp))"

text \<open>What is written to the connection; nothing when \<open>accept\<close> fails.\<close>

definition metrics_handle ::
  "int \<Rightarrow> metrics \<Rightarrow> string list \<Rightarrow> nat \<Rightarrow> cfloat list \<Rightarrow> cfloat list \<Rightarrow> cfloat \<Rightarrow> string option" where
  "metrics_handle conn g path_names path_count loss_rates rtt_ms redundancy_ratio =
     (if conn < 0 then Some []
      else case emits (metrics_lines g path_names path_count loss_rates rtt_ms redundancy_ratio) ([], 0) of
        None \<Rightarrow> None
      | Some (body, blen) \<Rightarrow>
          write_response (''HTTP/1.1 200 OK'' @ crlf @
                ''Content-Type: text/plain; version=0.0.4; charset=utf-8'' @ crlf @
                ''Content-Length: '' @ digits blen @ crlf @
                ''Connection: close'' @ crlf @ crlf @ body))"

section \<open>The buffer is large enough\<close>

lemma emits_all:
  assumes "blen = length body" "length body + length (concat ts) < RESP_MAX"
  shows "emits ts (body, blen) = Some (body @ concat ts, blen + length (concat ts))"
  using assms
proof (induction ts arbitrary: body blen)
  case (Cons t ts)
  have "emit t (body, blen) = Some (body @ t, blen + length t)"
    using Cons.prems by (simp add: emit_def)
  then show ?case using Cons.IH[of "blen + length t" "body @ t"] Cons.prems by simp
qed simp

lemma digits_length: "n < 10 ^ d \<Longrightarrow> 0 < d \<Longrightarrow> length (digits n) \<le> d"
proof (induction d arbitrary: n)
  case (Suc d)
  show ?case
  proof (cases "n < 10")
    case True
    then show ?thesis by (simp add: digits.simps[of n])
  next
    case False
    then have "d \<noteq> 0" using Suc.prems(1) by (cases d) auto
    moreover have "n div 10 < 10 ^ d" using Suc.prems(1) by (simp add: less_mult_imp_div_less mult.commute)
    ultimately have "length (digits (n div 10)) \<le> d" using Suc.IH by simp
    then show ?thesis using False by (simp add: digits.simps[of n])
  qed
qed simp

lemma llu_length: "length (llu w) \<le> 20"
proof -
  have "unat w < 2 ^ 64" using unsigned_less[of w] by simp
  then show ?thesis unfolding llu_def by (intro digits_length) simp_all
qed

lemma pad_digits_length: "n < 10 ^ p \<Longrightarrow> 0 < p \<Longrightarrow> length (pad_digits p n) = p"
  using digits_length[of n p] by (simp add: pad_digits_def Let_def)

text \<open>A number below \<open>10 ^ d\<close> needs a sign, \<open>d + 1\<close> digits, the point and \<open>p\<close> digits.\<close>

lemma fmt_fixed_length:
  assumes "\<And>x. v = Fin x \<Longrightarrow> \<bar>x\<bar> \<le> 10 ^ d" "0 < d"
  shows "length (fmt_fixed p v) \<le> d + p + 3"
proof (cases v)
  case (Fin x)
  let ?r = "nat (round_half_even (\<bar>x\<bar> * 10 ^ p))"
  have "\<bar>x\<bar> * 10 ^ p \<le> 10 ^ d * 10 ^ p" using assms(1)[OF Fin] by (intro mult_right_mono) simp_all
  then have "\<bar>x\<bar> * 10 ^ p \<le> of_int (10 ^ d * 10 ^ p)" by simp
  then have "round_half_even (\<bar>x\<bar> * 10 ^ p) \<le> 10 ^ d * 10 ^ p" by (rule round_half_even_le)
  then have "int ?r \<le> 10 ^ d * 10 ^ p" by simp
  then have "?r \<le> 10 ^ d * 10 ^ p" by (simp flip: of_nat_le_iff[where 'a = int])
  then have "?r div 10 ^ p \<le> 10 ^ d * 10 ^ p div 10 ^ p" by (rule div_le_mono)
  then have "?r div 10 ^ p < 10 ^ Suc d" using zero_less_power[of "10 :: nat" d] by (simp add: le_less_trans)
  then have "length (digits (?r div 10 ^ p)) \<le> Suc d" by (rule digits_length) simp
  moreover have "length (pad_digits p (?r mod 10 ^ p)) = p" if "0 < p" using that by (intro pad_digits_length) simp_all
  ultimately show ?thesis using Fin by (auto simp: Let_def)
qed (use assms(2) in simp_all)

text \<open>What the counters and the gauges hold in every run.\<close>

definition below :: "nat \<Rightarrow> cfloat \<Rightarrow> bool" where
  "below d v \<longleftrightarrow> (\<forall>x. v = Fin x \<longrightarrow> \<bar>x\<bar> \<le> 10 ^ d)"

definition metrics_ok :: "metrics \<Rightarrow> bool" where
  "metrics_ok g \<longleftrightarrow> length (m_shards_sent g) = MAX_PATHS \<and> length (m_shards_received g) = MAX_PATHS \<and>
     length (m_latency_bucket g) = METRICS_LATENCY_BUCKETS \<and> below 309 (m_latency_sum_ms g)"

lemma fmt_fixed_below: "below d v \<Longrightarrow> 0 < d \<Longrightarrow> length (fmt_fixed p v) \<le> d + p + 3"
  by (rule fmt_fixed_length) (simp_all add: below_def)

lemma concat_map_le:
  "(\<And>i. i < n \<Longrightarrow> length (f i) \<le> B) \<Longrightarrow> length (concat (map f [0..<n])) \<le> n * B"
  by (induction n) (auto simp: add.commute intro!: add_mono)

lemma concat_concat_map_le:
  "(\<And>i. i < n \<Longrightarrow> length (concat (f i)) \<le> B) \<Longrightarrow> length (concat (concat (map f [0..<n]))) \<le> n * B"
  by (induction n) (auto simp: add.commute intro!: add_mono)

lemma labelled_length: "length (labelled m name v) = length m + length name + length v + 11"
  by (simp add: labelled_def quote_def nl_def)

lemma plain_length: "length (plain m v) = length m + length v + 2"
  by (simp add: plain_def nl_def)

lemma bucket_line_length: "i < METRICS_LATENCY_BUCKETS \<Longrightarrow> length (bucket_line i c) \<le> 80"
proof -
  assume i: "i < METRICS_LATENCY_BUCKETS"
  have "below 3 (Fin (latency_bounds ! i))"
    using i by (auto simp: below_def latency_bounds_def METRICS_LATENCY_BUCKETS_def less_Suc_eq eval_nat_numeral)
  then have "length (fmt_fixed 0 (Fin (latency_bounds ! i))) \<le> 3 + 0 + 3" by (rule fmt_fixed_below) simp
  then show ?thesis using llu_length[of c]
    by (simp add: bucket_line_def quote_def nl_def del: fmt_fixed.simps)
qed

definition gauges_ok :: "string list \<Rightarrow> nat \<Rightarrow> cfloat list \<Rightarrow> cfloat list \<Rightarrow> cfloat \<Rightarrow> bool" where
  "gauges_ok names n loss rtt ratio \<longleftrightarrow> n \<le> MAX_PATHS \<and>
     (\<forall>i < n. length (names ! i) < 32 \<and> below 1 (loss ! i) \<and> below 17 (rtt ! i)) \<and> below 39 ratio"

text \<open>The whole text fits the buffer: nothing is truncated, and \<open>Content-Length\<close> is right.\<close>

lemma metrics_lines_length:
  assumes "metrics_ok g" "gauges_ok names n loss rtt ratio"
  shows "length (concat (metrics_lines g names n loss rtt ratio)) < RESP_MAX"
proof -
  have n: "n \<le> 8" using assms(2) by (simp add: gauges_ok_def limits)
  have nm: "length (names ! i) \<le> 31" if "i < n" for i using assms(2) that by (auto simp: gauges_ok_def)
  have lo: "length (fmt_fixed 6 (loss ! i)) \<le> 10" if "i < n" for i
    using fmt_fixed_below[of 1 "loss ! i" 6] assms(2) that by (simp add: gauges_ok_def del: fmt_fixed.simps)
  have rt: "length (fmt_fixed 3 (rtt ! i)) \<le> 23" if "i < n" for i
    using fmt_fixed_below[of 17 "rtt ! i" 3] assms(2) that by (simp add: gauges_ok_def del: fmt_fixed.simps)
  have ra: "length (fmt_fixed 4 ratio) \<le> 46"
    using fmt_fixed_below[of 39 ratio 4] assms(2) by (simp add: gauges_ok_def del: fmt_fixed.simps)
  have su: "length (fmt_fixed 3 (m_latency_sum_ms g)) \<le> 315"
    using fmt_fixed_below[of 309 "m_latency_sum_ms g" 3] assms(1) by (simp add: metrics_ok_def del: fmt_fixed.simps)
  have 1: "length (concat (map (\<lambda>i. labelled ''coding_gateway_shards_sent_total'' (names ! i) (llu (m_shards_sent g ! i)))
      [0..<n])) \<le> n * 100"
    by (rule concat_map_le) (use nm llu_length in \<open>fastforce simp: labelled_length intro: order.trans[OF add_mono]\<close>)
  have 2: "length (concat (map (\<lambda>i. labelled ''coding_gateway_shards_received_total'' (names ! i)
      (llu (m_shards_received g ! i))) [0..<n])) \<le> n * 100"
    by (rule concat_map_le) (use nm llu_length in \<open>fastforce simp: labelled_length intro: order.trans[OF add_mono]\<close>)
  have 3: "length (concat (concat (map (\<lambda>i.
       [labelled ''coding_gateway_path_loss_rate'' (names ! i) (fmt_fixed 6 (loss ! i)),
        labelled ''coding_gateway_path_rtt_ms'' (names ! i) (fmt_fixed 3 (rtt ! i))]) [0..<n]))) \<le> n * 180"
  proof (rule concat_concat_map_le)
    fix i assume i: "i < n"
    show "length (concat [labelled ''coding_gateway_path_loss_rate'' (names ! i) (fmt_fixed 6 (loss ! i)),
        labelled ''coding_gateway_path_rtt_ms'' (names ! i) (fmt_fixed 3 (rtt ! i))]) \<le> 180"
      using nm[OF i] lo[OF i] rt[OF i] by (simp add: labelled_length del: fmt_fixed.simps)
  qed
  have 4: "length (concat (map (\<lambda>i. bucket_line i (cumulate 0 (m_latency_bucket g) ! i)) [0..<METRICS_LATENCY_BUCKETS]))
     \<le> METRICS_LATENCY_BUCKETS * 80"
    by (rule concat_map_le) (rule bucket_line_length)
  have 5: "length (concat [plain ''coding_gateway_decode_success_total'' (llu (m_decode_success g)),
      plain ''coding_gateway_decode_failure_total'' (llu (m_decode_failure g)),
      plain ''coding_gateway_blocks_encoded_total'' (llu (m_blocks_encoded g))]) \<le> 200"
    using llu_length[of "m_decode_success g"] llu_length[of "m_decode_failure g"] llu_length[of "m_blocks_encoded g"]
    by (simp add: plain_length)
  have 6: "length (concat [plain ''coding_gateway_redundancy_ratio_current'' (fmt_fixed 4 ratio)]) \<le> 100"
    using ra by (simp add: plain_length del: fmt_fixed.simps)
  have 7: "length (concat [''coding_gateway_block_latency_ms_bucket{le='' @ quote @ ''+Inf'' @ quote @ ''} '' @
        llu (m_latency_count g) @ nl,
      plain ''coding_gateway_block_latency_ms_sum'' (fmt_fixed 3 (m_latency_sum_ms g)),
      plain ''coding_gateway_block_latency_ms_count'' (llu (m_latency_count g))]) \<le> 600"
    using su llu_length[of "m_latency_count g"] by (simp add: plain_length quote_def nl_def del: fmt_fixed.simps)
  have "n * 100 + n * 100 + n * 180 + METRICS_LATENCY_BUCKETS * 80 + 900 < RESP_MAX"
    using n by (simp add: RESP_MAX_def METRICS_LATENCY_BUCKETS_def)
  then show ?thesis
    unfolding metrics_lines_def concat_append length_append using 1 2 3 4 5 6 7 by linarith
qed

lemma write_response_fits: "length txt < RESP_SIZE \<Longrightarrow> write_response txt = Some txt"
  by (simp add: write_response_def)

lemma metrics_handle_complete:
  assumes "metrics_ok g" "gauges_ok names n loss rtt ratio" "0 \<le> conn"
  defines "body \<equiv> concat (metrics_lines g names n loss rtt ratio)"
  shows "metrics_handle conn g names n loss rtt ratio =
    Some (''HTTP/1.1 200 OK'' @ crlf @
          ''Content-Type: text/plain; version=0.0.4; charset=utf-8'' @ crlf @
          ''Content-Length: '' @ digits (length body) @ crlf @
          ''Connection: close'' @ crlf @ crlf @ body)"
proof -
  have body: "length body < RESP_MAX" unfolding body_def by (rule metrics_lines_length[OF assms(1,2)])
  then have "length (digits (length body)) \<le> 4" by (intro digits_length) (simp_all add: RESP_MAX_def)
  then have "length (''HTTP/1.1 200 OK'' @ crlf @
          ''Content-Type: text/plain; version=0.0.4; charset=utf-8'' @ crlf @
          ''Content-Length: '' @ digits (length body) @ crlf @
          ''Connection: close'' @ crlf @ crlf @ body) < RESP_SIZE"
    using body by (simp add: RESP_SIZE_def crlf_def)
  from write_response_fits[OF this] show ?thesis
    using body assms(3) emits_all[of 0 "[]" "metrics_lines g names n loss rtt ratio"]
    by (simp add: metrics_handle_def body_def)
qed

section \<open>The histogram\<close>

text \<open>
  A sample already counts in every bucket whose bound it does not exceed, so the buckets are
  cumulative; the response adds them up once more.
\<close>

lemma cumulate_nth:
  "i < length bs \<Longrightarrow> cumulate c bs ! i = c + sum_list (take (Suc i) bs)"
  by (induction bs arbitrary: c i) (auto simp: nth_Cons' take_Cons' split: nat.splits)

lemma latency_bounds_sorted: "i \<le> j \<Longrightarrow> j < 8 \<Longrightarrow> latency_bounds ! i \<le> latency_bounds ! j"
proof -
  have "sorted latency_bounds" by (simp add: latency_bounds_def)
  moreover assume "i \<le> j" "j < 8"
  ultimately show ?thesis by (intro sorted_nth_mono) (simp_all add: latency_bounds_def)
qed

lemma record_latency_bucket:
  assumes "length (m_latency_bucket g) = METRICS_LATENCY_BUCKETS" "i < METRICS_LATENCY_BUCKETS"
  shows "m_latency_bucket (metrics_record_latency us g) ! i = m_latency_bucket g ! i +
    (if fle (ddiv (f64 (of_nat (unat us))) 1000) (Fin (latency_bounds ! i)) then 1 else 0)"
  using assms by (simp add: metrics_record_latency_def Let_def nth_for_upd)

lemma dadd_below: "dadd v w = Fin x \<Longrightarrow> \<bar>x\<bar> \<le> 2 powi 1024"
  by (cases v; cases w) (auto simp: f64_def fround_def Let_def not_le simp del: power_int_numeral split: if_splits)

lemma record_latency_ok: "metrics_ok g \<Longrightarrow> metrics_ok (metrics_record_latency us g)"
proof -
  assume "metrics_ok g"
  moreover have "below 309 (dadd v w)" for v w
  proof -
    have "(2 :: rat) powi 1024 \<le> 10 ^ 309" by (simp add: power_int_def)
    then show ?thesis using dadd_below[of v w] by (fastforce simp: below_def)
  qed
  ultimately show ?thesis by (simp add: metrics_ok_def metrics_record_latency_def Let_def)
qed

section \<open>Properties\<close>

text \<open>C40: The two buffers of the exporter, \<open>body\<close> and \<open>resp\<close>, are large enough for every set of counters and gauges
  the program can have (at most \<open>MAX_PATHS\<close> paths, names of at most 31 characters, a redundancy ratio below
  \<open>10 ^ 39\<close>): no line is cut, header and body are written in full and nothing beyond them, and the \<open>Content-Length\<close> that is announced is
  the length of the body that is sent.\<close>

theorem metrics_response_complete:
  assumes "metrics_ok g" "gauges_ok names n loss rtt ratio" "0 \<le> conn"
  shows "\<exists>body. body = concat (metrics_lines g names n loss rtt ratio) \<and>
    metrics_handle conn g names n loss rtt ratio =
    Some (''HTTP/1.1 200 OK'' @ crlf @
          ''Content-Type: text/plain; version=0.0.4; charset=utf-8'' @ crlf @
          ''Content-Length: '' @ digits (length body) @ crlf @
          ''Connection: close'' @ crlf @ crlf @ body)"
  using metrics_handle_complete[OF assms] by blast

theorem metrics_response_complete_witness:
  "\<exists>body. body = concat (metrics_lines zero_metrics [''a''] 1 [Fin 0] [Fin 5] (Fin 1)) \<and>
    metrics_handle 4 zero_metrics [''a''] 1 [Fin 0] [Fin 5] (Fin 1) =
    Some (''HTTP/1.1 200 OK'' @ crlf @
          ''Content-Type: text/plain; version=0.0.4; charset=utf-8'' @ crlf @
          ''Content-Length: '' @ digits (length body) @ crlf @
          ''Connection: close'' @ crlf @ crlf @ body)"
proof -
  have "metrics_ok zero_metrics" by (simp add: metrics_ok_def zero_metrics_def below_def)
  moreover have "gauges_ok [''a''] 1 [Fin 0] [Fin 5] (Fin 1)" by (simp add: gauges_ok_def below_def limits)
  ultimately show ?thesis by (intro metrics_response_complete) simp_all
qed

text \<open>The latency histogram counts twice: a sample is recorded in every bucket whose bound it does not
  exceed, and the response adds the buckets up once more, so after one sample of at most a millisecond
  the last finite bucket shows 8 while the total shows 1.\<close>

lemma histogram_counts_twice:
  assumes "fle (ddiv (f64 (of_nat (unat us))) 1000) (Fin 1)"
  shows "cumulate 0 (m_latency_bucket (metrics_record_latency us zero_metrics)) ! 7 = 8 \<and>
    m_latency_count (metrics_record_latency us zero_metrics) = 1"
proof
  let ?g = "metrics_record_latency us zero_metrics"
  let ?ms = "ddiv (f64 (of_nat (unat us))) 1000"
  have z: "length (m_latency_bucket zero_metrics) = METRICS_LATENCY_BUCKETS" by (simp add: zero_metrics_def)
  have le: "fle ?ms (Fin (latency_bounds ! i))" if "i < 8" for i
  proof -
    have "1 \<le> latency_bounds ! i" using latency_bounds_sorted[of 0 i] that by (simp add: latency_bounds_def)
    then show ?thesis using assms by (cases ?ms) (auto simp: fle_def feq_def)
  qed
  have len: "length (m_latency_bucket ?g) = 8" using z by (simp add: metrics_record_latency_def Let_def METRICS_LATENCY_BUCKETS_def)
  have "m_latency_bucket ?g = replicate 8 1"
  proof (rule nth_equalityI)
    fix i assume "i < length (m_latency_bucket ?g)"
    then have i: "i < 8" using len by simp
    then show "m_latency_bucket ?g ! i = replicate 8 1 ! i"
      using record_latency_bucket[OF z, of i us] le[OF i] by (simp add: zero_metrics_def METRICS_LATENCY_BUCKETS_def)
  qed (simp add: len)
  then show "cumulate 0 (m_latency_bucket ?g) ! 7 = 8" by (simp add: cumulate_nth sum_list_replicate)
  show "m_latency_count ?g = 1" by (simp add: metrics_record_latency_def zero_metrics_def Let_def)
qed

end
