(* ===== verification/Tx.thy ===== *)
theory Tx
  imports Crypto Strategy Transport Metrics
begin

text \<open>
  \<open>src/tx.c\<close>: the block of packets that is being collected, and its flush: pad, encode, encrypt,
  and send shard by shard on the paths the scheduler picks. \<open>rand\<close> is the stream \<open>rnd\<close>, the
  values of \<open>sendto\<close> are the stream \<open>net\<close>; the uninitialised array of shards is an argument. The guards
  \<open>inside\<close> are the accesses to the arrays: outside of them the result is \<open>None\<close>.
\<close>

section \<open>The code\<close>

record tx_block =
  tb_block_id :: u32
  tb_pkts :: "bytes list"
  tb_pkt_len :: "u16 list"
  tb_pkt_count :: nat
  tb_first_pkt_time :: timeval

definition tx_block_init :: "u32 \<Rightarrow> tx_block" where
  "tx_block_init block_id =
     \<lparr>tb_block_id = block_id, tb_pkts = replicate MAX_K (replicate MAX_PAYLOAD 0),
      tb_pkt_len = replicate MAX_K 0, tb_pkt_count = 0, tb_first_pkt_time = (0, 0)\<rparr>"

definition tx_block_add_pkt ::
  "timeval \<Rightarrow> tx_block \<Rightarrow> bytes \<Rightarrow> u16 \<Rightarrow> nat \<Rightarrow> tx_block \<times> bool" where
  "tx_block_add_pkt now blk pkt plen k =
     (let blk = (if tb_pkt_count blk = 0 then blk\<lparr>tb_first_pkt_time := now\<rparr> else blk);
          c = tb_pkt_count blk;
          blk = (if c < k then
                   blk\<lparr>tb_pkts := (tb_pkts blk)[c := memcpy (tb_pkts blk ! c) pkt (unat plen)],
                       tb_pkt_len := (tb_pkt_len blk)[c := plen], tb_pkt_count := c + 1\<rparr>
                 else blk)
      in (blk, tb_pkt_count blk \<ge> k))"

text \<open>The accesses of \<open>tx_block_add_pkt\<close> stay inside the packet, the row of the block and its lengths.\<close>

definition add_inside :: "tx_block \<Rightarrow> bytes \<Rightarrow> u16 \<Rightarrow> nat \<Rightarrow> bool" where
  "add_inside blk pkt plen k \<longleftrightarrow>
     (let c = tb_pkt_count blk in
      c < k \<longrightarrow> inside (tb_pkts blk) c 1 \<and> inside (tb_pkt_len blk) c 1 \<and>
        inside (tb_pkts blk ! c) 0 (unat plen) \<and> inside pkt 0 (unat plen))"

definition tx_block_needs_flush :: "timeval \<Rightarrow> tx_block \<Rightarrow> int \<Rightarrow> bool" where
  "tx_block_needs_flush now blk timeout_ms =
     (if tb_pkt_count blk = 0 then False
      else elapsed_ms now (tb_first_pkt_time blk) \<ge> timeout_ms)"

text \<open>\<open>memset(row + off, 0, n)\<close>.\<close>

definition clear_at :: "nat \<Rightarrow> nat \<Rightarrow> bytes \<Rightarrow> bytes" where
  "clear_at off n row = take off row @ replicate n 0 @ drop (off + n) row"

definition pad_pkts :: "tx_block \<Rightarrow> tx_block" where
  "pad_pkts blk =
     (let max_len = max_src_len (tb_pkt_len blk) (tb_pkt_count blk) in
      blk\<lparr>tb_pkts := for_upd (tb_pkt_count blk)
            (\<lambda>j row. if tb_pkt_len blk ! j < max_len
                     then clear_at (unat (tb_pkt_len blk ! j)) (unat (max_len - tb_pkt_len blk ! j)) row
                     else row) (tb_pkts blk)\<rparr>)"

definition fill_slot :: "nat \<Rightarrow> tx_block \<Rightarrow> tx_block" where
  "fill_slot j blk =
     blk\<lparr>tb_pkts := (tb_pkts blk)[j := memset (tb_pkts blk ! j) 0 MAX_PAYLOAD],
         tb_pkt_len := (tb_pkt_len blk)[j := tb_pkt_len blk ! 0]\<rparr>"

definition fill_slots :: "nat \<Rightarrow> tx_block \<Rightarrow> tx_block" where
  "fill_slots k blk = fold fill_slot [tb_pkt_count blk..<k] blk"

definition shard_nonce :: "u32 \<Rightarrow> nat \<Rightarrow> u64" where
  "shard_nonce block_id i = push_bit 8 (ucast block_id) OR of_nat i"

definition encrypt_shards :: "crypto_ctx \<Rightarrow> u32 \<Rightarrow> nat \<Rightarrow> shard list \<Rightarrow> shard list" where
  "encrypt_shards crypto block_id n shards =
     (if enabled crypto then
        for_upd n (\<lambda>i s. s\<lparr>data := crypto_xor crypto (data s) (unat (len s)) (shard_nonce block_id i)\<rparr>) shards
      else shards)"

text \<open>What a flush changes besides the block: the scheduler, the datagrams sent, the counters
  and the position in the stream of random numbers.\<close>

record tx_state =
  ts_strategy :: strategy_ctx
  ts_sent :: "datagram list"
  ts_metrics :: metrics
  ts_rand :: nat

text \<open>The accesses of \<open>transport_send_shard\<close> to the shard and to its buffer, which has the size of that
  of \<open>transport_recv\<close>.\<close>

definition message_inside :: "nat \<Rightarrow> shard \<Rightarrow> bool" where
  "message_inside k s \<longleftrightarrow> inside (coeffs s) 0 k \<and> inside (data s) 0 (unat (len s)) \<and>
     WIRE_HDR_SIZE + k + unat (len s) \<le> RECV_BUF"

text \<open>\<open>None\<close> is undefined behaviour: a conversion of the scheduler, or an access past the end of an array.\<close>

definition send_one ::
  "(nat \<Rightarrow> int) \<Rightarrow> transport_ctx \<Rightarrow> u32 \<Rightarrow> nat \<Rightarrow> nat \<Rightarrow> shard list \<Rightarrow> nat \<Rightarrow> tx_state \<Rightarrow> tx_state option" where
  "send_one net tctx block_id k n shards i st =
     (case strategy_next_path (ts_strategy st) of
        None \<Rightarrow> None
      | Some (path, sctx) \<Rightarrow>
          (let st = st\<lparr>ts_strategy := sctx\<rparr> in
           case path of
             None \<Rightarrow> Some st
           | Some p \<Rightarrow>
               if \<not> (inside (tc_paths tctx) p 1 \<and> inside (m_shards_sent (ts_metrics st)) p 1 \<and>
                      inside shards i 1 \<and> message_inside k (shards ! i)) then None
               else
               (case transport_send_shard net tctx p block_id (of_nat i) (of_nat k) (of_nat n)
                       (shards ! i) (ts_sent st) of
                  (r, sent) \<Rightarrow>
                    (let st = st\<lparr>ts_sent := sent\<rparr> in
                     if r \<noteq> 0 then Some st
                     else Some (st\<lparr>ts_metrics :=
                       (ts_metrics st)\<lparr>m_shards_sent := count_at p (m_shards_sent (ts_metrics st))\<rparr>\<rparr>)))))"

text \<open>The accesses of the rest of \<open>tx_block_flush\<close> and of \<open>encode_block\<close>: the rows and lengths of the block, the
  array of shards and their arrays.\<close>

definition flush_inside :: "nat \<Rightarrow> nat \<Rightarrow> shard list \<Rightarrow> tx_block \<Rightarrow> bool" where
  "flush_inside k n junk blk \<longleftrightarrow>
     (let m = max k (tb_pkt_count blk); max_len = unat (max_src_len (tb_pkt_len blk) (tb_pkt_count blk)) in
      inside (tb_pkts blk) 0 m \<and> inside (tb_pkt_len blk) 0 m \<and>
      (\<forall>j < m. inside (tb_pkts blk ! j) 0 max_len) \<and>
      (\<forall>j < k. tb_pkt_count blk \<le> j \<longrightarrow> inside (tb_pkts blk ! j) 0 MAX_PAYLOAD) \<and>
      inside junk 0 n \<and> (\<forall>i < n. inside (coeffs (junk ! i)) 0 k \<and> inside (data (junk ! i)) 0 max_len))"

definition tx_block_flush ::
  "(nat \<Rightarrow> int) \<Rightarrow> (nat \<Rightarrow> nat) \<Rightarrow> shard list \<Rightarrow> crypto_ctx \<Rightarrow> transport_ctx \<Rightarrow> nat \<Rightarrow>
     tx_block \<Rightarrow> tx_state \<Rightarrow> (tx_block \<times> tx_state) option" where
  "tx_block_flush net rnd junk crypto tctx k blk st =
     (if tb_pkt_count blk = 0 then Some (blk, st)
      else
        case strategy_compute_n (ts_strategy st) (int k) of
          None \<Rightarrow> None
        | Some ni \<Rightarrow>
            (let n = nat ni in
             if \<not> flush_inside k n junk blk then None
             else
             let blk = fill_slots k (pad_pkts blk) in
             case encode_block (tb_pkts blk) (tb_pkt_len blk) k n rnd junk (ts_rand st) of
               (shards, c) \<Rightarrow>
                 (let shards = encrypt_shards crypto (tb_block_id blk) n shards in
                  case for_opt (send_one net tctx (tb_block_id blk) k n shards) [0..<n] (st\<lparr>ts_rand := c\<rparr>) of
                    None \<Rightarrow> None
                  | Some st \<Rightarrow>
                      Some (blk, st\<lparr>ts_metrics := (ts_metrics st)\<lparr>m_blocks_encoded :=
                                     m_blocks_encoded (ts_metrics st) + 1\<rparr>\<rparr>))))"


section \<open>Collecting packets\<close>

text \<open>The block holds the packets \<open>ps\<close>.\<close>

definition collected :: "nat \<Rightarrow> bytes list \<Rightarrow> tx_block \<Rightarrow> bool" where
  "collected k ps blk \<longleftrightarrow> length (tb_pkts blk) = MAX_K \<and> (\<forall>i < MAX_K. length (tb_pkts blk ! i) = MAX_PAYLOAD) \<and>
     length (tb_pkt_len blk) = MAX_K \<and> tb_pkt_count blk = length ps \<and> length ps \<le> k \<and> k \<le> MAX_K \<and>
     (\<forall>i < length ps. length (ps ! i) \<le> MAX_PAYLOAD \<and> unat (tb_pkt_len blk ! i) = length (ps ! i) \<and>
        take (length (ps ! i)) (tb_pkts blk ! i) = ps ! i)"

lemma collectedD:
  assumes "collected k ps blk"
  shows "length (tb_pkts blk) = MAX_K" "i < MAX_K \<Longrightarrow> length (tb_pkts blk ! i) = MAX_PAYLOAD"
    "length (tb_pkt_len blk) = MAX_K" "tb_pkt_count blk = length ps" "length ps \<le> k" "k \<le> MAX_K"
    "i < length ps \<Longrightarrow> length (ps ! i) \<le> MAX_PAYLOAD" "i < length ps \<Longrightarrow> unat (tb_pkt_len blk ! i) = length (ps ! i)"
    "i < length ps \<Longrightarrow> take (length (ps ! i)) (tb_pkts blk ! i) = ps ! i"
  using assms by (simp_all add: collected_def)

lemma init_collected: "k \<le> MAX_K \<Longrightarrow> collected k [] (tx_block_init bid)"
  by (simp add: collected_def tx_block_init_def)

lemma add_pkt_collected:
  assumes "collected k ps blk" "length ps < k" "length pkt = MAX_PAYLOAD" "unat plen \<le> MAX_PAYLOAD"
    and "tx_block_add_pkt now blk pkt plen k = (blk', full)"
  shows "collected k (ps @ [take (unat plen) pkt]) blk'" "full \<longleftrightarrow> length ps + 1 = k" "tb_block_id blk' = tb_block_id blk"
proof -
  note c = collectedD[OF assms(1)]
  let ?i = "length ps"
  have i: "?i < MAX_K" using assms(2) c(6) by simp
  have eq: "blk' = blk\<lparr>tb_pkts := (tb_pkts blk)[?i := memcpy (tb_pkts blk ! ?i) pkt (unat plen)],
      tb_pkt_len := (tb_pkt_len blk)[?i := plen], tb_pkt_count := ?i + 1,
      tb_first_pkt_time := (if ?i = 0 then now else tb_first_pkt_time blk)\<rparr>" "full \<longleftrightarrow> k \<le> ?i + 1"
    using assms(2,5) c(4) by (auto simp: tx_block_add_pkt_def Let_def split: if_splits)
  have len: "length (memcpy (tb_pkts blk ! ?i) pkt (unat plen)) = MAX_PAYLOAD"
    using c(2)[OF i] assms(3,4) by (simp add: mem)
  have tk: "take (unat plen) (memcpy (tb_pkts blk ! ?i) pkt (unat plen)) = take (unat plen) pkt"
    using assms(3,4) by (simp add: memcpy_def)
  show "collected k (ps @ [take (unat plen) pkt]) blk'"
    unfolding collected_def eq(1)
    using c assms(2-4) i len tk by (auto simp: nth_upd nth_append less_Suc_eq)
  show "full \<longleftrightarrow> length ps + 1 = k" using eq(2) assms(2) by auto
  show "tb_block_id blk' = tb_block_id blk" by (simp add: eq(1))
qed

lemma add_pkt_inside:
  "collected k ps blk \<Longrightarrow> length pkt = MAX_PAYLOAD \<Longrightarrow> unat plen \<le> MAX_PAYLOAD \<Longrightarrow> add_inside blk pkt plen k"
  by (auto simp: add_inside_def collected_def inside_def)

section \<open>Padding\<close>

lemma max_src_len_attained: "0 < k \<Longrightarrow> \<exists>i < k. src_len ! i = max_src_len src_len k"
proof -
  assume "0 < k"
  have "\<forall>t \<le> k. max_src_len src_len t = 0 \<or> (\<exists>i < t. src_len ! i = max_src_len src_len t)"
  proof (intro allI impI)
    fix t show "max_src_len src_len t = 0 \<or> (\<exists>i < t. src_len ! i = max_src_len src_len t)"
      unfolding max_src_len_def
      by (rule fold_invariant_upt[where P = "\<lambda>t m. m = 0 \<or> (\<exists>i < t. src_len ! i = m)"]) (auto simp: less_Suc_eq)
  qed
  then have or: "max_src_len src_len k = 0 \<or> (\<exists>i < k. src_len ! i = max_src_len src_len k)" by blast
  have "src_len ! 0 \<le> max_src_len src_len k" using \<open>0 < k\<close> by (rule max_src_len_upper)
  then show ?thesis using or \<open>0 < k\<close> by (metis word_le_0_iff)
qed

lemma max_src_len_eq:
  assumes "\<And>i. i < k \<Longrightarrow> src_len ! i \<le> m" "i < k" "src_len ! i = m"
  shows "max_src_len src_len k = m"
  using max_src_len_attained[of k src_len] max_src_len_upper[OF assms(2), of src_len] assms by fastforce

lemma clear_at_row:
  assumes "length row = MAX_PAYLOAD" "a \<le> L" "L \<le> MAX_PAYLOAD"
  shows "length (clear_at a (L - a) row) = MAX_PAYLOAD" "take L (clear_at a (L - a) row) = take a row @ replicate (L - a) 0"
  using assms by (simp_all add: clear_at_def)

text \<open>The row of a packet, and of a slot that no packet fills.\<close>

definition row_of :: "nat \<Rightarrow> bytes list \<Rightarrow> nat \<Rightarrow> bytes" where
  "row_of L ps i = (if i < length ps then ps ! i @ replicate (L - length (ps ! i)) 0 else replicate L 0)"

lemma pad_pkts_simps [simp]:
  "tb_pkt_len (pad_pkts blk) = tb_pkt_len blk" "tb_pkt_count (pad_pkts blk) = tb_pkt_count blk"
  "tb_block_id (pad_pkts blk) = tb_block_id blk" "length (tb_pkts (pad_pkts blk)) = length (tb_pkts blk)"
  by (simp_all add: pad_pkts_def Let_def)

lemma fill_slots_spec:
  fixes blk :: tx_block
  assumes "k \<le> length (tb_pkts blk)" "k \<le> length (tb_pkt_len blk)" "0 < tb_pkt_count blk" "tb_pkt_count blk \<le> k"
  shows "tb_pkts (fill_slots k blk) ! i = (if tb_pkt_count blk \<le> i \<and> i < k then memset (tb_pkts blk ! i) 0 MAX_PAYLOAD else tb_pkts blk ! i)"
    "tb_pkt_len (fill_slots k blk) ! i = (if tb_pkt_count blk \<le> i \<and> i < k then tb_pkt_len blk ! 0 else tb_pkt_len blk ! i)"
    "tb_block_id (fill_slots k blk) = tb_block_id blk" "tb_pkt_count (fill_slots k blk) = tb_pkt_count blk"
    "length (tb_pkts (fill_slots k blk)) = length (tb_pkts blk)"
proof -
  let ?P = "\<lambda>t (b :: tx_block). (\<forall>i. tb_pkts b ! i = (if tb_pkt_count blk \<le> i \<and> i < t then memset (tb_pkts blk ! i) 0 MAX_PAYLOAD else tb_pkts blk ! i)) \<and>
    (\<forall>i. tb_pkt_len b ! i = (if tb_pkt_count blk \<le> i \<and> i < t then tb_pkt_len blk ! 0 else tb_pkt_len blk ! i)) \<and>
    tb_block_id b = tb_block_id blk \<and> tb_pkt_count b = tb_pkt_count blk \<and>
    length (tb_pkts b) = length (tb_pkts blk) \<and> length (tb_pkt_len b) = length (tb_pkt_len blk)"
  have "?P k (fill_slots k blk)"
    unfolding fill_slots_def
  proof (rule fold_invariant_upt[where P = ?P])
    fix t b assume "tb_pkt_count blk \<le> t" "t < k" "?P t b"
    then show "?P (Suc t) (fill_slot t b)" using assms by (auto simp: fill_slot_def nth_upd less_Suc_eq)
  qed (use assms in auto)
  then show "tb_pkts (fill_slots k blk) ! i = (if tb_pkt_count blk \<le> i \<and> i < k then memset (tb_pkts blk ! i) 0 MAX_PAYLOAD else tb_pkts blk ! i)"
    "tb_pkt_len (fill_slots k blk) ! i = (if tb_pkt_count blk \<le> i \<and> i < k then tb_pkt_len blk ! 0 else tb_pkt_len blk ! i)"
    "tb_block_id (fill_slots k blk) = tb_block_id blk" "tb_pkt_count (fill_slots k blk) = tb_pkt_count blk"
    "length (tb_pkts (fill_slots k blk)) = length (tb_pkts blk)" by simp_all
qed


text \<open>What the encoder is given.\<close>

lemma longest_packet:
  assumes col: "collected k ps blk" and ne: "ps \<noteq> []"
  defines "m \<equiv> max_src_len (tb_pkt_len blk) (tb_pkt_count blk)"
  shows "i < length ps \<Longrightarrow> tb_pkt_len blk ! i \<le> m" "i < length ps \<Longrightarrow> length (ps ! i) \<le> unat m"
    "\<exists>a < length ps. tb_pkt_len blk ! a = m \<and> length (ps ! a) = unat m" "unat m \<le> MAX_PAYLOAD"
proof -
  note c = collectedD[OF col]
  show up: "tb_pkt_len blk ! i \<le> m" if "i < length ps" for i
    using max_src_len_upper[of i "tb_pkt_count blk"] that c(4) by (simp add: m_def)
  show "length (ps ! i) \<le> unat m" if "i < length ps"
    using up[OF that] c(8)[OF that] by (simp add: word_le_nat_alt)
  obtain a where a: "a < length ps" "tb_pkt_len blk ! a = m"
    using max_src_len_attained[of "length ps" "tb_pkt_len blk"] ne c(4) by (auto simp: m_def)
  then have l: "length (ps ! a) = unat m" using c(8)[OF a(1)] by simp
  then show "\<exists>a < length ps. tb_pkt_len blk ! a = m \<and> length (ps ! a) = unat m" using a by blast
  show "unat m \<le> MAX_PAYLOAD" using l c(7) a(1) by fastforce
qed

lemma padded_row:
  assumes col: "collected k ps blk" and ne: "ps \<noteq> []" and i: "i < length ps"
  defines "L \<equiv> unat (max_src_len (tb_pkt_len blk) (tb_pkt_count blk))"
  shows "length (tb_pkts (pad_pkts blk) ! i) = MAX_PAYLOAD \<and>
    take L (tb_pkts (pad_pkts blk) ! i) = ps ! i @ replicate (L - length (ps ! i)) 0"
proof -
  note c = collectedD[OF col]
  note lp = longest_packet(1,2)[OF col ne i] longest_packet(4)[OF col ne]
  let ?m = "max_src_len (tb_pkt_len blk) (tb_pkt_count blk)"
  have row: "length (tb_pkts blk ! i) = MAX_PAYLOAD" using c(2,5,6) i by simp
  have sub: "unat (?m - tb_pkt_len blk ! i) = L - length (ps ! i)"
    using lp(1) c(8)[OF i] by (simp add: L_def unat_sub word_le_nat_alt)
  have pad: "tb_pkts (pad_pkts blk) ! i = (if tb_pkt_len blk ! i < ?m
      then clear_at (unat (tb_pkt_len blk ! i)) (unat (?m - tb_pkt_len blk ! i)) (tb_pkts blk ! i) else tb_pkts blk ! i)"
    using i c by (simp add: pad_pkts_def Let_def nth_for_upd)
  show ?thesis
  proof (cases "tb_pkt_len blk ! i < ?m")
    case True
    then show ?thesis using pad sub c(8)[OF i] clear_at_row[OF row lp(2,3)] c(9)[OF i] by (simp add: L_def)
  next
    case False
    then have "L = length (ps ! i)" using lp(1) c(8)[OF i] by (simp add: L_def)
    then show ?thesis using False pad row c(9)[OF i] by simp
  qed
qed

lemma padded_source:
  assumes col: "collected k ps blk" and ne: "ps \<noteq> []"
  defines "b \<equiv> fill_slots k (pad_pkts blk)" and "L \<equiv> unat (max_src_len (tb_pkt_len blk) (tb_pkt_count blk))"
  shows "padded k (tb_pkts b) (tb_pkt_len b)" "unat (max_src_len (tb_pkt_len b) k) = L" "L \<le> MAX_PAYLOAD"
    "tb_block_id b = tb_block_id blk"
    "i < k \<Longrightarrow> L \<le> length (tb_pkts b ! i) \<and> take L (tb_pkts b ! i) = row_of L ps i"
    "i < length ps \<Longrightarrow> length (ps ! i) \<le> L" "\<exists>i < length ps. length (ps ! i) = L"
proof -
  note c = collectedD[OF col]
  note lp = longest_packet[OF col ne, folded L_def]
  let ?n = "length ps" and ?m = "max_src_len (tb_pkt_len blk) (tb_pkt_count blk)"
  have n: "0 < ?n" using ne by simp
  show L: "L \<le> MAX_PAYLOAD" by (rule lp(4))
  show "length (ps ! i) \<le> L" if "i < ?n" using that by (rule lp(2))
  show "\<exists>i < ?n. length (ps ! i) = L" using lp(3) by blast
  have fs: "k \<le> length (tb_pkts (pad_pkts blk))" "k \<le> length (tb_pkt_len (pad_pkts blk))"
    "0 < tb_pkt_count (pad_pkts blk)" "tb_pkt_count (pad_pkts blk) \<le> k" using c n by simp_all
  note f = fill_slots_spec[OF fs, folded b_def]
  show "tb_block_id b = tb_block_id blk" using f(3) by simp
  have lenb: "tb_pkt_len b ! i = (if ?n \<le> i \<and> i < k then tb_pkt_len blk ! 0 else tb_pkt_len blk ! i)" for i
    using f(2) c(4) by simp
  obtain a where a: "a < ?n" "tb_pkt_len blk ! a = ?m" using lp(3) by blast
  have "max_src_len (tb_pkt_len b) k = ?m"
    using a c(5) lenb lp(1) n by (intro max_src_len_eq[of _ _ _ a]) auto
  then show mb: "unat (max_src_len (tb_pkt_len b) k) = L" by (simp add: L_def)
  have low: "length (tb_pkts b ! i) = MAX_PAYLOAD \<and> take L (tb_pkts b ! i) = ps ! i @ replicate (L - length (ps ! i)) 0"
    if i: "i < ?n" for i
    using padded_row[OF col ne i] f(1)[of i] i c(4) by (simp add: L_def)
  have high: "length (tb_pkts b ! i) = MAX_PAYLOAD \<and> tb_pkts b ! i = replicate MAX_PAYLOAD 0" if "?n \<le> i" "i < k" for i
    using f(1)[of i] that c(1,2,4,6) by (simp add: memset_def pad_pkts_def Let_def nth_for_upd)
  show rows: "L \<le> length (tb_pkts b ! i) \<and> take L (tb_pkts b ! i) = row_of L ps i" if "i < k" for i
    using low[of i] high[of i] that L by (cases "i < ?n") (auto simp: row_of_def)
  show "padded k (tb_pkts b) (tb_pkt_len b)"
    unfolding padded_def mb
  proof (intro allI impI conjI)
    fix i assume i: "i < k"
    show "L \<le> length (tb_pkts b ! i)" using rows[OF i] by simp
    fix j assume j: "unat (tb_pkt_len b ! i) \<le> j \<and> j < L"
    then have "tb_pkts b ! i ! j = row_of L ps i ! j" using rows[OF i] by (metis nth_take)
    also have "\<dots> = 0" using j lenb[of i] c(8)[of i] by (cases "i < ?n") (auto simp: row_of_def nth_append)
    finally show "tb_pkts b ! i ! j = 0" .
  qed
qed

section \<open>Sending the shards\<close>

text \<open>The bytes of shard \<open>i\<close>, and the datagram that carries them on a path.\<close>

definition shard_message :: "u32 \<Rightarrow> nat \<Rightarrow> nat \<Rightarrow> shard list \<Rightarrow> nat \<Rightarrow> bytes" where
  "shard_message bid k n shards i = shard_bytes bid (of_nat i) (of_nat k) (of_nat n) (shards ! i)"

definition on_path :: "transport_ctx \<Rightarrow> nat \<Rightarrow> bytes \<Rightarrow> datagram" where
  "on_path tctx p b = (let ps = tc_paths tctx ! p in \<lparr>d_fd = s_fd ps, d_addr = s_addr ps, d_port = s_port ps, d_bytes = b\<rparr>)"

text \<open>Every path the scheduler can pick has an open socket.\<close>

definition all_open :: "transport_ctx \<Rightarrow> strategy_ctx \<Rightarrow> bool" where
  "all_open tctx ctx \<longleftrightarrow> usable_paths ctx \<noteq> {} \<and>
     (\<forall>p \<in> usable_paths ctx. s_enabled (tc_paths tctx ! p) \<and> 0 \<le> s_fd (tc_paths tctx ! p))"

text \<open>The array of sockets has its declared size.\<close>

definition sockets_ok :: "transport_ctx \<Rightarrow> bool" where
  "sockets_ok tctx \<longleftrightarrow> length (tc_paths tctx) = MAX_PATHS \<and> tc_path_count tctx \<le> MAX_PATHS"

text \<open>What sending changes in the state: the credits, the datagrams sent, one counter.\<close>

definition sent_more :: "transport_ctx \<Rightarrow> tx_state \<Rightarrow> tx_state \<Rightarrow> datagram list \<Rightarrow> bool" where
  "sent_more tctx st st' ds \<longleftrightarrow> strategy_ok (ts_strategy st') \<and>
     (\<exists>cs. ts_strategy st' = (ts_strategy st)\<lparr>sc_path_credit := cs\<rparr>) \<and> ts_sent st' = ts_sent st @ ds \<and> ts_rand st' = ts_rand st \<and>
     metrics_ok (ts_metrics st') \<and>
     (\<forall>d \<in> set ds. \<exists>p \<in> usable_paths (ts_strategy st). d = on_path tctx p (d_bytes d))"

lemma sent_more_trans: "sent_more tctx s1 s2 d1 \<Longrightarrow> sent_more tctx s2 s3 d2 \<Longrightarrow> sent_more tctx s1 s3 (d1 @ d2)"
  by (auto simp: sent_more_def)

lemma sent_more_usable: "sent_more tctx st st' ds \<Longrightarrow> usable_paths (ts_strategy st') = usable_paths (ts_strategy st)"
  by (auto simp: sent_more_def)

lemma all_open_sent: "sent_more tctx st st' ds \<Longrightarrow> all_open tctx (ts_strategy st') = all_open tctx (ts_strategy st)"
  by (simp add: all_open_def sent_more_usable)

lemma send_one_spec:
  assumes ok: "strategy_ok (ts_strategy st)" and so: "sockets_ok tctx" "metrics_ok (ts_metrics st)"
    and sh: "i < length shards" "message_inside k (shards ! i)"
  obtains st' ds where "send_one net tctx bid k n shards i st = Some st'" "sent_more tctx st st' ds"
    "ds = [] \<or> map d_bytes ds = [shard_message bid k n shards i]"
    "all_open tctx (ts_strategy st) \<longrightarrow> ds \<noteq> []"
proof (cases "\<exists>p < sc_path_count (ts_strategy st). usable (ts_strategy st) p")
  case False
  then have "strategy_next_path (ts_strategy st) = Some (None, ts_strategy st)" by (intro next_path_none) auto
  then have "send_one net tctx bid k n shards i st = Some st" by (simp add: send_one_def)
  moreover have "sent_more tctx st st []" using ok so by (auto simp: sent_more_def intro: exI[of _ "sc_path_credit (ts_strategy st)"])
  moreover have "\<not> all_open tctx (ts_strategy st)" using False by (auto simp: all_open_def usable_paths_def)
  ultimately show thesis using that by blast
next
  case True
  then obtain q where q: "q < sc_path_count (ts_strategy st)" "usable (ts_strategy st) q" by blast
  obtain p cs where np: "strategy_next_path (ts_strategy st) = Some (Some p, (ts_strategy st)\<lparr>sc_path_credit := cs\<rparr>)"
    and p: "p < sc_path_count (ts_strategy st)" "usable (ts_strategy st) p" by (rule next_path_some[OF ok q]) blast
  have ok': "strategy_ok ((ts_strategy st)\<lparr>sc_path_credit := cs\<rparr>)" using next_path_ok[OF ok] np by auto
  have pu: "p \<in> usable_paths (ts_strategy st)" using p by (simp add: usable_paths_def)
  let ?m = "shard_message bid k n shards i"
  obtain r sent where sb: "send_buf net tctx p ?m (ts_sent st) = (r, sent)" by fastforce
  have in_p: "p < length (tc_paths tctx)" "p < length (m_shards_sent (ts_metrics st))"
    using p(1) ok so by (simp_all add: sockets_ok_def metrics_ok_def strategy_ok_def)
  have "\<exists>st'. send_one net tctx bid k n shards i st = Some st' \<and>
    ts_strategy st' = (ts_strategy st)\<lparr>sc_path_credit := cs\<rparr> \<and> ts_sent st' = sent \<and> ts_rand st' = ts_rand st \<and>
    metrics_ok (ts_metrics st')"
    using np sb in_p sh so(2) by (cases "r = 0")
      (simp_all add: inside_def send_one_def transport_send_shard_def Let_def metrics_ok_def count_at_def flip: shard_message_def)
  then obtain st' where st': "send_one net tctx bid k n shards i st = Some st'"
    "ts_strategy st' = (ts_strategy st)\<lparr>sc_path_credit := cs\<rparr>" "ts_sent st' = sent" "ts_rand st' = ts_rand st"
    "metrics_ok (ts_metrics st')" by blast
  show thesis
  proof (cases "s_enabled (tc_paths tctx ! p) \<and> 0 \<le> s_fd (tc_paths tctx ! p)")
    case o: True
    then have "sent = ts_sent st @ [on_path tctx p ?m]" using sb by (auto simp: send_buf_def on_path_def Let_def)
    moreover have "d_bytes (on_path tctx p ?m) = ?m" by (simp add: on_path_def Let_def)
    ultimately show thesis
      using st' ok' pu by (intro that[of st' "[on_path tctx p ?m]"]) (auto simp: sent_more_def)
  next
    case o: False
    then have "sent = ts_sent st" using sb by (auto simp: send_buf_def Let_def split: if_splits)
    moreover have "\<not> all_open tctx (ts_strategy st)" using o pu by (auto simp: all_open_def)
    ultimately show thesis using st' ok' by (intro that[of st' "[]"]) (auto simp: sent_more_def)
  qed
qed

text \<open>The shards are sent in order, each at most once, and all of them when every path is open.\<close>

lemma send_all:
  assumes "strategy_ok (ts_strategy st)" "sockets_ok tctx" "metrics_ok (ts_metrics st)"
    and sh: "m \<le> length shards" "\<And>i. i < m \<Longrightarrow> message_inside k (shards ! i)"
  obtains st' ds sel where "for_opt (send_one net tctx bid k n shards) [0..<m] st = Some st'" "sent_more tctx st st' ds"
    "map d_bytes ds = map (shard_message bid k n shards) sel" "sorted sel" "distinct sel" "set sel \<subseteq> {..<m}"
    "all_open tctx (ts_strategy st) \<Longrightarrow> sel = [0..<m]"
proof -
  let ?P = "\<lambda>t s. \<exists>ds sel. sent_more tctx st s ds \<and> map d_bytes ds = map (shard_message bid k n shards) sel \<and>
    sorted sel \<and> distinct sel \<and> set sel \<subseteq> {..<t} \<and> (all_open tctx (ts_strategy st) \<longrightarrow> sel = [0..<t])"
  have "\<exists>t. for_opt (send_one net tctx bid k n shards) [0..<m] st = Some t \<and> ?P m t"
  proof (rule for_opt_total[where P = ?P])
    show "?P 0 st"
      using assms by (intro exI[of _ "[]"]) (auto simp: sent_more_def intro: exI[of _ "sc_path_credit (ts_strategy st)"])
    fix i s assume i: "i < m" and "?P i s"
    then obtain ds sel where h: "sent_more tctx st s ds" "map d_bytes ds = map (shard_message bid k n shards) sel"
      "sorted sel" "distinct sel" "set sel \<subseteq> {..<i}" "all_open tctx (ts_strategy st) \<longrightarrow> sel = [0..<i]" by blast
    have s: "strategy_ok (ts_strategy s)" "metrics_ok (ts_metrics s)" using h(1) by (simp_all add: sent_more_def)
    have il: "i < length shards" using i sh(1) by simp
    obtain s' d where s': "send_one net tctx bid k n shards i s = Some s'" "sent_more tctx s s' d"
      "d = [] \<or> map d_bytes d = [shard_message bid k n shards i]" "all_open tctx (ts_strategy s) \<longrightarrow> d \<noteq> []"
      by (rule send_one_spec[OF s(1) assms(2) s(2) il sh(2)[OF i], where net = net and bid = bid and n = n]) (rule that)
    have "?P (Suc i) s'"
    proof (cases "d = []")
      case True
      then show ?thesis
        using sent_more_trans[OF h(1) s'(2)] h(2-5) s'(4) all_open_sent[OF h(1)]
        by (intro exI[of _ ds] exI[of _ sel]) (auto simp: less_Suc_eq)
    next
      case False
      then show ?thesis
        using sent_more_trans[OF h(1) s'(2)] h(2-6) s'(3)
        by (intro exI[of _ "ds @ d"] exI[of _ "sel @ [i]"]) (auto simp: sorted_append less_Suc_eq intro: less_imp_le)
    qed
    then show "\<exists>s'. send_one net tctx bid k n shards i s = Some s' \<and> ?P (Suc i) s'" using s'(1) by blast
  qed simp
  then show thesis using that by blast
qed


section \<open>Flushing a block\<close>

definition encrypted :: "crypto_ctx \<Rightarrow> u32 \<Rightarrow> nat \<Rightarrow> shard \<Rightarrow> shard" where
  "encrypted crypto bid i s =
     (if enabled crypto then s\<lparr>data := crypto_xor crypto (data s) (unat (len s)) (shard_nonce bid i)\<rparr> else s)"

lemma encrypt_shards_nth:
  "i < n \<Longrightarrow> n \<le> length shards \<Longrightarrow> encrypt_shards crypto bid n shards ! i = encrypted crypto bid i (shards ! i)"
  by (simp add: encrypt_shards_def encrypted_def nth_for_upd)

lemma encode_block_length: "length (fst (encode_block src src_len k n rnd out c)) = length out"
proof -
  let ?f = "\<lambda>s (out, c). case encode_shard src src_len k (max_src_len src_len k) rnd s (out ! s) c of (sh, c') \<Rightarrow> (out[s := sh], c')"
  have "length (fst (fold ?f xs (out, c))) = length out" for xs
    by (induction xs arbitrary: out c) (auto split: prod.splits)
  then show ?thesis by (simp add: encode_block_def Let_def)
qed

text \<open>The padded packets \<open>ps\<close> as rows of \<open>L\<close> bytes.\<close>

definition rows :: "nat \<Rightarrow> nat \<Rightarrow> bytes list \<Rightarrow> bytes list \<Rightarrow> bool" where
  "rows k L ps src \<longleftrightarrow> L \<le> MAX_PAYLOAD \<and> (\<forall>i < k. L \<le> length (src ! i) \<and> take L (src ! i) = row_of L ps i) \<and>
     (\<forall>i < length ps. length (ps ! i) \<le> L) \<and> (\<exists>i < length ps. length (ps ! i) = L)"

text \<open>The datagrams \<open>ds\<close> carry the shards with the indices \<open>sel\<close> of a block of the packets \<open>ps\<close>.\<close>

definition block_sent ::
  "crypto_ctx \<Rightarrow> u32 \<Rightarrow> nat \<Rightarrow> nat \<Rightarrow> nat \<Rightarrow> bytes list \<Rightarrow> nat list \<Rightarrow> datagram list \<Rightarrow> bool" where
  "block_sent crypto bid k n L src sel ds \<longleftrightarrow> (\<exists>plain.
     (\<forall>i < n. coded k L src i (plain ! i)) \<and> sorted sel \<and> distinct sel \<and> set sel \<subseteq> {..<n} \<and>
     map d_bytes ds = map (\<lambda>i. shard_bytes bid (of_nat i) (of_nat k) (of_nat n) (encrypted crypto bid i (plain ! i))) sel)"

lemma flush_spec:
  assumes col: "collected k ps blk" and ne: "ps \<noteq> []" and ok: "strategy_ok (ts_strategy st)"
    and n: "strategy_compute_n (ts_strategy st) (int k) = Some (int n)" "k \<le> n" "n \<le> MAX_N"
    and junk: "length junk = MAX_N" "\<forall>s \<in> set junk. shard_arrays s"
    and so: "sockets_ok tctx" "metrics_ok (ts_metrics st)"
  obtains blk' st' sel ds src L where
    "tx_block_flush net rnd junk crypto tctx k blk st = Some (blk', st')"
    "rows k L ps src" "block_sent crypto (tb_block_id blk) k n L src sel ds" "ts_sent st' = ts_sent st @ ds"
    "all_open tctx (ts_strategy st) \<longrightarrow> sel = [0..<n]" "strategy_ok (ts_strategy st')"
    "\<exists>cs. ts_strategy st' = (ts_strategy st)\<lparr>sc_path_credit := cs\<rparr>"
    "metrics_ok (ts_metrics st')"
proof -
  define b where "b = fill_slots k (pad_pkts blk)"
  define L where "L = unat (max_src_len (tb_pkt_len blk) (tb_pkt_count blk))"
  note ps = padded_source[OF col ne, folded b_def L_def]
  obtain shards c where enc: "encode_block (tb_pkts b) (tb_pkt_len b) k n rnd junk (ts_rand st) = (shards, c)" by fastforce
  have kK: "k \<le> MAX_K" using col by (rule collectedD)
  have cod: "coded k L (tb_pkts b) i (shards ! i)" if "i < n" for i
  proof -
    have "coded k (unat (max_src_len (tb_pkt_len b) k)) (tb_pkts b) i
        (fst (encode_block (tb_pkts b) (tb_pkt_len b) k n rnd junk (ts_rand st)) ! i)"
    proof (rule encode_block_coded[OF ps(1) n(2) _ _ that])
      show "n \<le> length junk" using n(3) junk(1) by simp
      show "shard_room k (unat (max_src_len (tb_pkt_len b) k)) (junk ! s)" if "s < n" for s
        using bspec[OF junk(2), of "junk ! s"] that n(3) junk(1) kK ps(2,3) by (simp add: shard_room_def shard_arrays_def)
    qed
    then show ?thesis by (simp add: enc ps(2))
  qed
  let ?sh = "encrypt_shards crypto (tb_block_id blk) n shards"
  have ls: "n \<le> length shards" using encode_block_length[of "tb_pkts b" "tb_pkt_len b" k n rnd junk "ts_rand st"] enc n(3) junk(1) by simp
  have ok': "strategy_ok (ts_strategy (st\<lparr>ts_rand := c\<rparr>))" "metrics_ok (ts_metrics (st\<lparr>ts_rand := c\<rparr>))" using ok so by simp_all
  have lsh: "n \<le> length ?sh" using ls by (simp add: encrypt_shards_def)
  have msg: "message_inside k (?sh ! i)" if "i < n" for i
    using cod[OF that] kK ps(3) that ls
    by (simp add: message_inside_def inside_def encrypt_shards_nth encrypted_def crypto_xor_length coded_def carries_def RECV_BUF_def)
  have ins: "flush_inside k n junk blk"
  proof -
    note c = collectedD[OF col]
    have "shard_arrays (junk ! i)" if "i < n" for i using junk n(3) that by simp
    then show ?thesis using c kK junk(1) n(3) ps(3)
      by (simp add: flush_inside_def inside_def shard_arrays_def L_def Let_def)
  qed
  obtain st1 ds sel where send: "for_opt (send_one net tctx (tb_block_id blk) k n ?sh) [0..<n] (st\<lparr>ts_rand := c\<rparr>) = Some st1"
    and s: "sent_more tctx (st\<lparr>ts_rand := c\<rparr>) st1 ds" "map d_bytes ds = map (shard_message (tb_block_id blk) k n ?sh) sel"
      "sorted sel" "distinct sel" "set sel \<subseteq> {..<n}" "all_open tctx (ts_strategy (st\<lparr>ts_rand := c\<rparr>)) \<Longrightarrow> sel = [0..<n]"
    by (rule send_all[OF ok'(1) so(1) ok'(2) lsh msg, where net = net and bid = "tb_block_id blk" and n = n]) (assumption, rule that)
  let ?st = "st1\<lparr>ts_metrics := (ts_metrics st1)\<lparr>m_blocks_encoded := m_blocks_encoded (ts_metrics st1) + 1\<rparr>\<rparr>"
  have cnt: "tb_pkt_count blk \<noteq> 0" using col ne by (simp add: collected_def)
  have flush: "tx_block_flush net rnd junk crypto tctx k blk st = Some (b, ?st)"
    using cnt n(1) enc send ps(4) ins by (simp add: tx_block_flush_def flip: b_def)
  have "map (shard_message (tb_block_id blk) k n ?sh) sel =
      map (\<lambda>i. shard_bytes (tb_block_id blk) (of_nat i) (of_nat k) (of_nat n) (encrypted crypto (tb_block_id blk) i (shards ! i))) sel"
    using s(5) ls by (auto simp: shard_message_def encrypt_shards_nth)
  then have sent: "block_sent crypto (tb_block_id blk) k n L (tb_pkts b) sel ds"
    using cod s(2-5) by (auto simp: block_sent_def)
  have "rows k L ps (tb_pkts b)" using ps(3,5-7) by (simp add: rows_def)
  then show thesis by (rule that[OF flush _ sent]) (use s in \<open>auto simp: sent_more_def metrics_ok_def\<close>)
qed

section \<open>Properties\<close>

lemma shard_nonce_inj:
  assumes "i < 256" "j < 256" "shard_nonce bid i = shard_nonce bid' j"
  shows "bid = bid' \<and> i = j"
proof -
  have bits: "bit (shard_nonce b m) l \<longleftrightarrow> (if l < 8 then bit (of_nat m :: u64) l else l < 40 \<and> bit b (l - 8))"
    if "m < 256" for b m l
  proof -
    have "\<not> bit (of_nat m :: u64) l" if "8 \<le> l"
    proof -
      have "(of_nat m :: u64) = take_bit 8 (of_nat m)" using \<open>m < 256\<close> by (simp add: take_bit_of_nat take_bit_nat_eq_self)
      then show ?thesis using that by (metis bit_take_bit_iff not_less)
    qed
    then show ?thesis
      by (auto simp: shard_nonce_def bit_or_iff bit_push_bit_iff bit_ucast_iff not_less dest: bit_imp_le_length)
  qed
  have "bid = bid'"
  proof (rule bit_word_eqI)
    fix l assume "l < LENGTH(32)"
    then show "bit bid l = bit bid' l"
      using bits[OF assms(1), of bid "l + 8"] bits[OF assms(2), of bid' "l + 8"] assms(3) by simp
  qed
  moreover have "(of_nat i :: u64) = of_nat j"
  proof (rule bit_word_eqI)
    fix l assume "l < LENGTH(64)"
    show "bit (of_nat i :: u64) l = bit (of_nat j :: u64) l"
    proof (cases "l < 8")
      case True
      then show ?thesis using bits[OF assms(1), of bid l] bits[OF assms(2), of bid' l] assms(3) by simp
    next
      case False
      have "(of_nat m :: u64) = take_bit 8 (of_nat m)" if "m < 256" for m using that by (simp add: take_bit_of_nat take_bit_nat_eq_self)
      then show ?thesis using False assms(1,2) by (metis bit_take_bit_iff not_less)
    qed
  qed
  then have "unat (of_nat i :: u64) = unat (of_nat j :: u64)" by simp
  then have "i = j" using assms(1,2) by (simp add: unat_of_nat take_bit_nat_eq_self)
  ultimately show ?thesis by simp
qed

text \<open>C30: No two shards that the sender encrypts in the life of \<open>2 ^ 32\<close> block numbers are encrypted alike:
  the same payload of at least 8 bytes in different blocks, or at different places of a block, gives
  different bytes on the wire (two nonces would have to be exceptional for the key, equal to its hash).\<close>

theorem shards_encrypted_differently:
  assumes "enabled crypto" "(bid, i) \<noteq> (bid', j)" "i < n" "n \<le> length shards" "j < n'" "n' \<le> length shards'" "n \<le> MAX_N" "n' \<le> MAX_N"
    and "shards ! i = s" "shards' ! j = s" "8 \<le> unat (len s)" "unat (len s) \<le> length (data s)"
    and "shard_nonce bid i \<noteq> hash_key (key crypto)" "shard_nonce bid' j \<noteq> hash_key (key crypto)"
  shows "data (encrypt_shards crypto bid n shards ! i) \<noteq> data (encrypt_shards crypto bid' n' shards' ! j)"
proof -
  have "shard_nonce bid i \<noteq> shard_nonce bid' j" using shard_nonce_inj[of i j bid bid'] assms(2,3,5,7,8) by (auto simp: limits)
  from distinct_nonces_differ[OF assms(1) this assms(13,14,11,12)] show ?thesis
    using assms(1,3-6,9,10) by (simp add: encrypt_shards_nth encrypted_def)
qed

theorem shards_encrypted_differently_witness:
  "\<exists>crypto shards. data (encrypt_shards crypto 7 2 shards ! 0) \<noteq> data (encrypt_shards crypto 7 2 shards ! 1)"
proof -
  let ?c = "crypto_init (Some (replicate 32 1))" and ?s = "\<lparr>coeffs = [], data = replicate 8 0, len = 8\<rparr>"
  have e: "enabled ?c" "shard_nonce 7 0 \<noteq> hash_key (key ?c)" "shard_nonce 7 1 \<noteq> hash_key (key ?c)" by code_simp+
  have "data (encrypt_shards ?c 7 2 [?s, ?s] ! 0) \<noteq> data (encrypt_shards ?c 7 2 [?s, ?s] ! 1)"
    by (rule shards_encrypted_differently[OF e(1), where s = ?s]) (use e(2,3) in \<open>simp_all add: limits\<close>)
  then show ?thesis by blast
qed

end
