(* ===== verification/Rx.thy ===== *)
theory Rx
  imports Crypto Transport
begin

text \<open>
  \<open>src/rx.c\<close>: the window of blocks that are being received. The clock \<open>now_us()\<close> is the stream
  \<open>clk\<close>, whose \<open>c\<close>-th reading is \<open>clk c\<close>; a pointer into the array of slots is an index. The
  packets that \<open>tun_write\<close> is called with are returned, in order. The uninitialised local arrays
  of \<open>try_decode\<close> and \<open>decode_block\<close> are arguments. \<open>rx_inside\<close> collects the array accesses that a shard
  causes; the loop is undefined when it fails (\<open>on_data\<close> in \<open>Gateway\<close>), and it is shown to hold in every session.
\<close>

section \<open>The code\<close>

definition RX_BLOCK_TIMEOUT_US :: u64 where "RX_BLOCK_TIMEOUT_US = 50000"

record rx_block =
  rb_block_id :: u32
  rb_shards :: "shard list"
  rb_received :: "bool list"
  rb_recv_count :: nat
  rb_decoded :: bool
  rb_first_recv_us :: u64

record rx_window =
  rw_slots :: "rx_block list"
  rw_base_id :: u32

definition zero_shard :: shard where
  "zero_shard = \<lparr>coeffs = replicate MAX_K 0, data = replicate MAX_PAYLOAD 0, len = 0\<rparr>"

definition zero_block :: rx_block where
  "zero_block = \<lparr>rb_block_id = 0, rb_shards = replicate MAX_N zero_shard, rb_received = replicate MAX_N False,
     rb_recv_count = 0, rb_decoded = False, rb_first_recv_us = 0\<rparr>"

definition rx_window_init :: rx_window where
  "rx_window_init = \<lparr>rw_slots = replicate MAX_WINDOW zero_block, rw_base_id = 0\<rparr>"

text \<open>\<open>(int32_t)(block_id - base_id)\<close>.\<close>

definition ahead :: "rx_window \<Rightarrow> u32 \<Rightarrow> int" where
  "ahead win block_id = sint (block_id - rw_base_id win)"

definition set_slot :: "nat \<Rightarrow> rx_block \<Rightarrow> rx_window \<Rightarrow> rx_window" where
  "set_slot i b win = win\<lparr>rw_slots := (rw_slots win)[i := b]\<rparr>"

definition rx_find :: "rx_window \<Rightarrow> u32 \<Rightarrow> nat \<Rightarrow> nat option \<times> rx_window" where
  "rx_find win block_id window_size =
     (if ahead win block_id < 0 then (None, win)
      else if ahead win block_id \<ge> int window_size then (None, win)
      else case find (\<lambda>i. rb_recv_count (rw_slots win ! i) > 0 \<and> rb_block_id (rw_slots win ! i) = block_id)
                     [0..<window_size] of
        Some i \<Rightarrow> (Some i, win)
      | None \<Rightarrow>
          (case find (\<lambda>i. rb_recv_count (rw_slots win ! i) = 0) [0..<window_size] of
             Some i \<Rightarrow> (Some i, set_slot i (zero_block\<lparr>rb_block_id := block_id\<rparr>) win)
           | None \<Rightarrow> (None, win)))"

definition rx_nonce :: "u32 \<Rightarrow> nat \<Rightarrow> u64" where
  "rx_nonce block_id idx = push_bit 8 (ucast block_id) OR of_nat idx"

text \<open>The index at which a shard is stored, unless \<open>rx_window_insert\<close> returns before it looks at the
  arrays of the block. Storing a shard in its block; \<open>c\<close> counts the readings of the clock.\<close>

definition stored_at :: "wire_header \<Rightarrow> rx_block \<Rightarrow> nat option" where
  "stored_at hdr blk =
     (if rb_decoded blk then None
      else let idx = unat (h_shard_idx hdr) in if idx \<ge> MAX_N then None else Some idx)"

definition store_shard ::
  "(nat \<Rightarrow> u64) \<Rightarrow> crypto_ctx \<Rightarrow> wire_header \<Rightarrow> shard \<Rightarrow> rx_block \<Rightarrow> nat \<Rightarrow> rx_block \<times> nat" where
  "store_shard clk crypto hdr s blk c =
     (case stored_at hdr blk of
        None \<Rightarrow> (blk, c)
      | Some idx \<Rightarrow>
        if rb_received blk ! idx then (blk, c)
        else
        let s' = (if enabled crypto then
                    s\<lparr>data := crypto_xor crypto (data s) (unat (len s)) (rx_nonce (h_block_id hdr) idx)\<rparr>
                  else s);
            blk = blk\<lparr>rb_shards := (rb_shards blk)[idx := s'], rb_received := (rb_received blk)[idx := True],
                      rb_recv_count := rb_recv_count blk + 1\<rparr>
        in if rb_recv_count blk = 1 then (blk\<lparr>rb_first_recv_us := clk c\<rparr>, c + 1) else (blk, c))"

definition rx_window_insert ::
  "(nat \<Rightarrow> u64) \<Rightarrow> crypto_ctx \<Rightarrow> nat \<Rightarrow> wire_header \<Rightarrow> shard \<Rightarrow> rx_window \<times> nat \<Rightarrow> rx_window \<times> nat" where
  "rx_window_insert clk crypto window_size hdr s st = (case st of (win, c) \<Rightarrow>
     (case rx_find win (h_block_id hdr) window_size of
        (None, win') \<Rightarrow> (win', c)
      | (Some i, win') \<Rightarrow>
          (case store_shard clk crypto hdr s (rw_slots win' ! i) c of
             (blk, c') \<Rightarrow> (set_slot i blk win', c'))))"

definition ip_packet_length :: "bytes \<Rightarrow> u16 \<Rightarrow> u16" where
  "ip_packet_length pkt padded_len =
     (if padded_len \<ge> 20 then
        let version = drop_bit 4 (pkt ! 0) AND 0x0F in
        if version = 4 then
          let total = push_bit 8 (ucast (pkt ! 2)) OR ucast (pkt ! 3) in
          if total \<ge> 20 \<and> total \<le> padded_len then total else padded_len
        else if version = 6 \<and> padded_len \<ge> 40 then
          let payload = push_bit 8 (ucast (pkt ! 4)) OR ucast (pkt ! 5); total = payload + 40 in
          if total \<ge> 40 \<and> total \<le> padded_len then total else padded_len
        else padded_len
      else padded_len)"

text \<open>The shards with the \<open>k\<close> lowest indices received, in a zeroed array of \<open>MAX_K\<close>.\<close>

definition collect :: "nat \<Rightarrow> rx_block \<Rightarrow> shard list" where
  "collect k blk =
     (let is = take k (filter (\<lambda>i. rb_received blk ! i) [0..<MAX_N])
      in map (\<lambda>i. rb_shards blk ! i) is @ replicate (MAX_K - length is) zero_shard)"

text \<open>Whether \<open>try_decode\<close> gets past its two early returns. The result of \<open>try_decode\<close>: newly decoded
  or not, the block, the packets written to the TUN device.\<close>

definition decodes_now :: "nat \<Rightarrow> rx_block \<Rightarrow> bool" where
  "decodes_now k blk = (if rb_decoded blk then False else if rb_recv_count blk < k then False else True)"

definition try_decode ::
  "gj \<Rightarrow> bytes list \<times> u16 list \<Rightarrow> nat \<Rightarrow> rx_block \<Rightarrow> bool \<times> rx_block \<times> bytes list" where
  "try_decode junk out k blk =
     (if \<not> decodes_now k blk then (False, blk, [])
      else case decode_block junk (collect k blk) k out of
        None \<Rightarrow> (False, blk, [])
      | Some (ob, ol) \<Rightarrow>
          (True, blk\<lparr>rb_decoded := True\<rparr>,
           map (\<lambda>i. take (unat (ip_packet_length (ob ! i) (ol ! i))) (ob ! i)) [0..<k]))"

definition rx_window_try_decode ::
  "gj \<Rightarrow> bytes list \<times> u16 list \<Rightarrow> nat \<Rightarrow> u32 \<Rightarrow> nat \<Rightarrow> rx_window \<Rightarrow> bool \<times> rx_window \<times> bytes list" where
  "rx_window_try_decode junk out window_size block_id k win =
     (case rx_find win block_id window_size of
        (None, win') \<Rightarrow> (False, win', [])
      | (Some i, win') \<Rightarrow>
          (case try_decode junk out k (rw_slots win' ! i) of
             (r, blk, pkts) \<Rightarrow> (r, set_slot i blk win', pkts)))"

text \<open>
  One iteration of the loop of \<open>rx_window_advance\<close>: the result says whether \<open>found\<close> was set.
  The loop has no bound of its own; \<open>None\<close> is a loop that does not end.
\<close>

definition occupied :: "rx_window \<Rightarrow> nat \<Rightarrow> bool" where
  "occupied win i \<longleftrightarrow> rb_recv_count (rw_slots win ! i) > 0"

definition next_base :: "rx_window \<Rightarrow> rx_window" where
  "next_base win = win\<lparr>rw_base_id := rw_base_id win + 1\<rparr>"

definition skip_missing :: "nat \<Rightarrow> rx_window \<Rightarrow> bool \<times> rx_window" where
  "skip_missing window_size win =
     (if list_ex (\<lambda>i. occupied win i \<and> ahead win (rb_block_id (rw_slots win ! i)) > 0) [0..<window_size]
      then (True, next_base win) else (False, win))"

definition advance_once ::
  "(nat \<Rightarrow> u64) \<Rightarrow> nat \<Rightarrow> rx_window \<times> nat \<Rightarrow> bool \<times> rx_window \<times> nat" where
  "advance_once clk window_size st = (case st of (win, c) \<Rightarrow>
     (case find (\<lambda>i. occupied win i \<and> rb_block_id (rw_slots win ! i) = rw_base_id win) [0..<window_size] of
        None \<Rightarrow> (case skip_missing window_size win of (f, win') \<Rightarrow> (f, win', c))
      | Some i \<Rightarrow>
          (let b = rw_slots win ! i;
               expired = (\<not> rb_decoded b \<and> clk c - rb_first_recv_us b \<ge> RX_BLOCK_TIMEOUT_US);
               c' = (if rb_decoded b then c else c + 1)
           in if rb_decoded b \<or> expired
              then (True, next_base (set_slot i zero_block win), c')
              else (case skip_missing window_size win of (f, win') \<Rightarrow> (f, win', c')))))"

partial_function (option) rx_window_advance ::
  "(nat \<Rightarrow> u64) \<Rightarrow> nat \<Rightarrow> rx_window \<times> nat \<Rightarrow> (rx_window \<times> nat) option" where
  "rx_window_advance clk window_size st =
     (case advance_once clk window_size st of
        (found, st') \<Rightarrow> if found then rx_window_advance clk window_size st' else Some st')"

declare rx_window_advance.simps [code]

section \<open>Slots and identifiers\<close>

lemma set_slot_simps [simp]:
  "rw_base_id (set_slot i b win) = rw_base_id win"
  "length (rw_slots (set_slot i b win)) = length (rw_slots win)"
  "ahead (set_slot i b win) = ahead win"
  by (simp_all add: set_slot_def ahead_def fun_eq_iff)

lemma next_base_simps [simp]:
  "rw_slots (next_base win) = rw_slots win" "rw_base_id (next_base win) = rw_base_id win + 1"
  "occupied (next_base win) = occupied win"
  by (simp_all add: next_base_def occupied_def fun_eq_iff)

lemma slot_set: "rw_slots (set_slot i b win) ! j =
    (if i = j \<and> i < length (rw_slots win) then b else rw_slots win ! j)"
  by (simp add: set_slot_def nth_upd)

lemma sint_u32_bounds: "- (2 ^ 31) \<le> sint (w :: u32)" "sint (w :: u32) < 2 ^ 31"
  using sint_ge[of w] sint_lt[of w] by simp_all

lemma ahead_eq_0 [simp]: "ahead win b = 0 \<longleftrightarrow> b = rw_base_id win"
proof -
  have "ahead win b = 0 \<longleftrightarrow> b - rw_base_id win = 0"
    unfolding ahead_def by (metis signed_0 signed_word_eqI)
  then show ?thesis by simp
qed

lemma sint_pred:
  assumes "- (2 ^ 31) < sint (w :: u32)"
  shows "sint (w - 1) = sint w - 1"
proof -
  have "sint (w - 1) = signed_take_bit 31 (sint w - 1)" by (simp add: sint_word_ariths)
  also have "\<dots> = sint w - 1"
    using assms sint_u32_bounds[of w] by (intro signed_take_bit_int_eq_self) simp_all
  finally show ?thesis .
qed

lemma ahead_next_base: "- (2 ^ 31) < ahead win b \<Longrightarrow> ahead (next_base win) b = ahead win b - 1"
  using sint_pred[of "b - rw_base_id win"] by (simp add: ahead_def diff_diff_eq)

section \<open>The loop over the window ends\<close>

text \<open>
  Every iteration that continues moves the base forward by one. When all occupied slots are
  less than \<open>m\<close> ahead (and none so far behind that the 32-bit difference would wrap within
  \<open>m\<close> steps) the loop ends after at most \<open>m\<close> steps.
\<close>

definition near :: "nat \<Rightarrow> nat \<Rightarrow> rx_window \<Rightarrow> bool" where
  "near ws m win \<longleftrightarrow> (\<forall>i < ws. occupied win i \<longrightarrow>
     - (2 ^ 31) + int m \<le> ahead win (rb_block_id (rw_slots win ! i)) \<and>
     ahead win (rb_block_id (rw_slots win ! i)) < int m)"

text \<open>What a number of iterations does: slots are kept, or cleared when the base reaches them.\<close>

definition moved :: "nat \<Rightarrow> nat \<Rightarrow> rx_window \<Rightarrow> rx_window \<Rightarrow> bool" where
  "moved ws d win win' \<longleftrightarrow> rw_base_id win' = rw_base_id win + of_nat d \<and>
     length (rw_slots win') = length (rw_slots win) \<and>
     (\<forall>i. rw_slots win' ! i = rw_slots win ! i \<or>
          (rw_slots win' ! i = zero_block \<and> i < ws \<and> occupied win i \<and>
           0 \<le> ahead win (rb_block_id (rw_slots win ! i)) \<and>
           ahead win (rb_block_id (rw_slots win ! i)) < int d))"

lemma moved_0: "moved ws 0 win win"
  by (simp add: moved_def)

definition none_newer :: "nat \<Rightarrow> rx_window \<Rightarrow> bool" where
  "none_newer ws win \<longleftrightarrow> (\<forall>i < ws. occupied win i \<longrightarrow> ahead win (rb_block_id (rw_slots win ! i)) \<le> 0)"

lemma zero_block_free [simp]: "rb_recv_count zero_block = 0"
  by (simp add: zero_block_def)

lemma occupied_zero [simp]: "occupied (set_slot i zero_block win) j \<longleftrightarrow> occupied win j \<and> \<not> (i = j \<and> i < length (rw_slots win))"
  by (simp add: occupied_def slot_set)

text \<open>One iteration.\<close>

lemma advance_once_cases:
  assumes "advance_once clk ws (win, c) = (found, win', c')"
  obtains (stop) "\<not> found" "win' = win" "none_newer ws win"
  | (skip) "found" "win' = next_base win"
      "\<exists>i < ws. occupied win i \<and> 0 < ahead win (rb_block_id (rw_slots win ! i))"
  | (clear) i where "found" "i < ws" "occupied win i" "rb_block_id (rw_slots win ! i) = rw_base_id win"
      "win' = next_base (set_slot i zero_block win)"
      "rb_decoded (rw_slots win ! i) \<or> clk c - rb_first_recv_us (rw_slots win ! i) \<ge> RX_BLOCK_TIMEOUT_US"
proof -
  have skip: "thesis" if "skip_missing ws win = (found, win')"
  proof (cases "\<exists>i < ws. occupied win i \<and> 0 < ahead win (rb_block_id (rw_slots win ! i))")
    case True
    then have "skip_missing ws win = (True, next_base win)" by (auto simp: skip_missing_def list_ex_iff)
    then show thesis using that skip True by simp
  next
    case False
    then have "skip_missing ws win = (False, win)" by (auto simp: skip_missing_def list_ex_iff)
    then show thesis using that stop False by (fastforce simp: none_newer_def)
  qed
  show thesis
  proof (cases "find (\<lambda>i. occupied win i \<and> rb_block_id (rw_slots win ! i) = rw_base_id win) [0..<ws]")
    case None
    then have "skip_missing ws win = (found, win')" using assms
      by (auto simp: advance_once_def split: prod.splits)
    then show thesis by (rule skip)
  next
    case (Some i)
    then have i: "i < ws" "occupied win i" "rb_block_id (rw_slots win ! i) = rw_base_id win"
      by (auto simp: find_Some_iff)
    let ?b = "rw_slots win ! i"
    show thesis
    proof (cases "rb_decoded ?b \<or> clk c - rb_first_recv_us ?b \<ge> RX_BLOCK_TIMEOUT_US")
      case True
      then have "found" "win' = next_base (set_slot i zero_block win)"
        using assms Some by (auto simp: advance_once_def Let_def split: if_splits)
      then show thesis using i True clear by blast
    next
      case False
      then have "skip_missing ws win = (found, win')" using assms Some
        by (auto simp: advance_once_def Let_def split: prod.splits if_splits)
      then show thesis by (rule skip)
    qed
  qed
qed

lemma near_next:
  assumes "near ws (Suc m) win"
  shows "near ws m (next_base win)"
  using assms ahead_next_base by (auto simp: near_def)

lemma near_clear: "near ws m win \<Longrightarrow> near ws m (set_slot i zero_block win)"
  by (auto simp: near_def slot_set)

lemma moved_next:
  assumes "moved ws d (next_base win) win'" "near ws (Suc m) win"
  shows "moved ws (Suc d) win win'"
  unfolding moved_def
proof (intro conjI allI)
  show "rw_base_id win' = rw_base_id win + of_nat (Suc d)" "length (rw_slots win') = length (rw_slots win)"
    using assms(1) by (simp_all add: moved_def add.assoc add.commute)
  fix i
  consider "rw_slots win' ! i = rw_slots win ! i"
    | "rw_slots win' ! i = zero_block" "i < ws" "occupied win i"
      "0 \<le> ahead (next_base win) (rb_block_id (rw_slots win ! i))"
      "ahead (next_base win) (rb_block_id (rw_slots win ! i)) < int d"
    using assms(1) by (auto simp: moved_def)
  then show "rw_slots win' ! i = rw_slots win ! i \<or> rw_slots win' ! i = zero_block \<and> i < ws \<and> occupied win i \<and>
      0 \<le> ahead win (rb_block_id (rw_slots win ! i)) \<and> ahead win (rb_block_id (rw_slots win ! i)) < int (Suc d)"
  proof cases
    case 2
    then have "- (2 ^ 31) < ahead win (rb_block_id (rw_slots win ! i))" using assms(2) by (auto simp: near_def)
    then show ?thesis using 2 ahead_next_base by simp
  qed simp
qed

text \<open>A slot that is cleared was at the base.\<close>

lemma moved_clear:
  assumes "moved ws d (next_base (set_slot i zero_block win)) win'" "near ws (Suc m) win"
    and "i < ws" "occupied win i" "rb_block_id (rw_slots win ! i) = rw_base_id win"
  shows "moved ws (Suc d) win win'"
proof -
  have m: "moved ws (Suc d) (set_slot i zero_block win) win'"
    using assms(1) near_clear[OF assms(2)] by (rule moved_next)
  have z: "0 \<le> ahead win (rb_block_id (rw_slots win ! i)) \<and> ahead win (rb_block_id (rw_slots win ! i)) < int (Suc d)"
    using assms(5) by (metis ahead_eq_0 order_refl of_nat_0_less_iff zero_less_Suc)
  show ?thesis
    unfolding moved_def
  proof (intro conjI allI)
    show "rw_base_id win' = rw_base_id win + of_nat (Suc d)" "length (rw_slots win') = length (rw_slots win)"
      using m by (simp_all add: moved_def)
    fix j
    have "rw_slots win' ! j = rw_slots (set_slot i zero_block win) ! j \<or>
        (rw_slots win' ! j = zero_block \<and> j < ws \<and> occupied (set_slot i zero_block win) j \<and>
         0 \<le> ahead win (rb_block_id (rw_slots (set_slot i zero_block win) ! j)) \<and>
         ahead win (rb_block_id (rw_slots (set_slot i zero_block win) ! j)) < int (Suc d))"
      using m by (auto simp: moved_def)
    then show "rw_slots win' ! j = rw_slots win ! j \<or> rw_slots win' ! j = zero_block \<and> j < ws \<and> occupied win j \<and>
        0 \<le> ahead win (rb_block_id (rw_slots win ! j)) \<and> ahead win (rb_block_id (rw_slots win ! j)) < int (Suc d)"
      using z assms(3,4) by (auto simp: slot_set split: if_splits)
  qed
qed

lemma advance_terminates:
  assumes "near ws m win"
  shows "\<exists>d win' c'. rx_window_advance clk ws (win, c) = Some (win', c') \<and> d \<le> m \<and>
    moved ws d win win' \<and> none_newer ws win'"
  using assms
proof (induction m arbitrary: win c)
  case (0 win c)
  obtain f win' c' where o: "advance_once clk ws (win, c) = (f, win', c')" by (metis prod_cases3)
  have neg: "\<not> (0 \<le> ahead win (rb_block_id (rw_slots win ! i)))" if "i < ws" "occupied win i" for i
    using 0 that by (auto simp: near_def)
  have "\<not> f \<and> win' = win \<and> none_newer ws win"
    using o
  proof (cases rule: advance_once_cases)
    case skip
    then show ?thesis using neg by force
  next
    case (clear i)
    then show ?thesis using neg[OF clear(2,3)] by (metis ahead_eq_0 order_refl)
  qed simp
  then show ?case using o moved_0 by (subst rx_window_advance.simps) fastforce
next
  case (Suc m win c)
  obtain f win1 c1 where o: "advance_once clk ws (win, c) = (f, win1, c1)" by (metis prod_cases3)
  show ?case
    using o
  proof (cases rule: advance_once_cases)
    case stop
    then show ?thesis using o moved_0 by (subst rx_window_advance.simps) fastforce
  next
    case skip
    obtain d win' c' where r: "rx_window_advance clk ws (win1, c1) = Some (win', c')" "d \<le> m"
      "moved ws d win1 win'" "none_newer ws win'"
      using Suc.IH[OF near_next[OF Suc.prems]] skip(2) by blast
    have "moved ws (Suc d) win win'" using r(3) Suc.prems unfolding skip(2) by (rule moved_next)
    then show ?thesis using r o skip(1) by (subst rx_window_advance.simps) fastforce
  next
    case (clear i)
    have "near ws m win1" unfolding clear(5) by (intro near_next near_clear Suc.prems)
    from Suc.IH[OF this] obtain d win' c' where r: "rx_window_advance clk ws (win1, c1) = Some (win', c')" "d \<le> m"
      "moved ws d win1 win'" "none_newer ws win'" by blast
    have "moved ws (Suc d) win win'"
      using r(3) Suc.prems clear(2,3,4) unfolding clear(5) by (rule moved_clear)
    then show ?thesis using r o clear(1) by (subst rx_window_advance.simps) fastforce
  qed
qed

section \<open>The invariant of the window\<close>

definition rx_block_ok :: "rx_block \<Rightarrow> bool" where
  "rx_block_ok b \<longleftrightarrow> length (rb_shards b) = MAX_N \<and> length (rb_received b) = MAX_N \<and>
     rb_recv_count b = length (filter (\<lambda>i. rb_received b ! i) [0..<MAX_N]) \<and>
     (\<forall>s \<in> set (rb_shards b). shard_arrays s)"

definition window_ok :: "nat \<Rightarrow> rx_window \<Rightarrow> bool" where
  "window_ok ws win \<longleftrightarrow> ws \<le> MAX_WINDOW \<and> length (rw_slots win) = MAX_WINDOW \<and>
     (\<forall>i < MAX_WINDOW. rx_block_ok (rw_slots win ! i)) \<and>
     (\<forall>i < ws. \<forall>j < ws. occupied win i \<and> occupied win j \<and>
        rb_block_id (rw_slots win ! i) = rb_block_id (rw_slots win ! j) \<longrightarrow> i = j)"

lemma window_okD:
  assumes "window_ok ws win"
  shows "ws \<le> MAX_WINDOW" "length (rw_slots win) = MAX_WINDOW"
    "i < ws \<Longrightarrow> rx_block_ok (rw_slots win ! i)" "i < ws \<Longrightarrow> i < length (rw_slots win)"
    "i < ws \<Longrightarrow> j < ws \<Longrightarrow> occupied win i \<Longrightarrow> occupied win j \<Longrightarrow>
       rb_block_id (rw_slots win ! i) = rb_block_id (rw_slots win ! j) \<Longrightarrow> i = j"
  using assms by (auto simp: window_ok_def)

lemma zero_shard_arrays: "shard_arrays zero_shard"
  by (simp add: zero_shard_def shard_arrays_def)

lemma zero_block_ok: "rx_block_ok (zero_block\<lparr>rb_block_id := bid\<rparr>)"
proof -
  have "filter (\<lambda>i. replicate MAX_N False ! i) [0..<MAX_N] = []" by (auto simp: filter_empty_conv)
  then show ?thesis using zero_shard_arrays by (auto simp: rx_block_ok_def zero_block_def)
qed

lemma zero_block_ok': "rx_block_ok zero_block"
  using zero_block_ok[of 0] by (simp add: zero_block_def)

lemma window_init_ok: "ws \<le> MAX_WINDOW \<Longrightarrow> window_ok ws rx_window_init"
  by (simp add: window_ok_def rx_window_init_def zero_block_ok' occupied_def)

text \<open>What \<open>rx_find\<close> returns.\<close>

lemma find_outside: "ahead win bid < 0 \<or> int ws \<le> ahead win bid \<Longrightarrow> rx_find win bid ws = (None, win)"
  by (auto simp: rx_find_def)

lemma rx_find_cases:
  assumes "rx_find win bid ws = (r, win')"
  obtains (none) "r = None" "win' = win"
      "ahead win bid < 0 \<or> int ws \<le> ahead win bid \<or>
       ((\<forall>i < ws. occupied win i) \<and> (\<forall>i < ws. rb_block_id (rw_slots win ! i) \<noteq> bid))"
  | (old) i where "r = Some i" "win' = win" "i < ws" "occupied win i" "rb_block_id (rw_slots win ! i) = bid"
      "0 \<le> ahead win bid" "ahead win bid < int ws"
  | (fresh) i where "r = Some i" "win' = set_slot i (zero_block\<lparr>rb_block_id := bid\<rparr>) win" "i < ws" "\<not> occupied win i"
      "\<And>j. j < ws \<Longrightarrow> occupied win j \<Longrightarrow> rb_block_id (rw_slots win ! j) \<noteq> bid"
      "0 \<le> ahead win bid" "ahead win bid < int ws"
proof (cases "ahead win bid < 0 \<or> int ws \<le> ahead win bid")
  case True
  then show thesis using assms none find_outside by auto
next
  case False
  note in_window = this
  let ?f = "find (\<lambda>i. rb_recv_count (rw_slots win ! i) > 0 \<and> rb_block_id (rw_slots win ! i) = bid) [0..<ws]"
  let ?g = "find (\<lambda>i. rb_recv_count (rw_slots win ! i) = 0) [0..<ws]"
  show thesis
  proof (cases ?f)
    case (Some i)
    then have "i < ws" "occupied win i" "rb_block_id (rw_slots win ! i) = bid"
      by (auto simp: find_Some_iff occupied_def)
    then show thesis using assms in_window Some by (intro old[of i]) (auto simp: rx_find_def)
  next
    case None
    note f = this
    then have ne: "\<And>j. j < ws \<Longrightarrow> occupied win j \<Longrightarrow> rb_block_id (rw_slots win ! j) \<noteq> bid"
      by (auto simp: find_None_iff occupied_def)
    show thesis
    proof (cases ?g)
      case (Some i)
      then have "i < ws" "\<not> occupied win i" by (auto simp: find_Some_iff occupied_def)
      then show thesis using assms in_window f Some ne by (intro fresh[of i]) (auto simp: rx_find_def)
    next
      case None
      then have "\<forall>i < ws. occupied win i" by (auto simp: find_None_iff occupied_def)
      then show thesis using assms in_window f None ne by (intro none) (auto simp: rx_find_def)
    qed
  qed
qed

text \<open>Replacing a slot by a block with the same identifier as an occupied slot keeps the invariant.\<close>

lemma window_ok_set:
  assumes "window_ok ws win" "rx_block_ok b"
    and "\<And>j. j < ws \<Longrightarrow> j \<noteq> i \<Longrightarrow> occupied win j \<Longrightarrow> 0 < rb_recv_count b \<Longrightarrow>
      rb_block_id (rw_slots win ! j) \<noteq> rb_block_id b"
  shows "window_ok ws (set_slot i b win)"
  unfolding window_ok_def
proof (intro conjI allI impI)
  show "ws \<le> MAX_WINDOW" "length (rw_slots (set_slot i b win)) = MAX_WINDOW"
    using window_okD[OF assms(1)] by simp_all
  show "rx_block_ok (rw_slots (set_slot i b win) ! j)" if "j < MAX_WINDOW" for j
    using assms(1,2) that by (simp add: slot_set window_ok_def)
  fix j l
  assume *: "j < ws" "l < ws" "occupied (set_slot i b win) j \<and> occupied (set_slot i b win) l \<and>
    rb_block_id (rw_slots (set_slot i b win) ! j) = rb_block_id (rw_slots (set_slot i b win) ! l)"
  show "j = l"
  proof (cases "j = i \<or> l = i")
    case False
    then have "occupied win j" "occupied win l" "rb_block_id (rw_slots win ! j) = rb_block_id (rw_slots win ! l)"
      using *(3) by (simp_all add: occupied_def slot_set)
    then show ?thesis using window_okD(5)[OF assms(1) *(1,2)] by blast
  next
    case True
    then have "i < length (rw_slots win)" using *(1,2) window_okD(1,2)[OF assms(1)] by auto
    then show ?thesis using True * assms(3) by (auto simp: occupied_def slot_set split: if_splits)
  qed
qed

lemma rx_find_ok:
  assumes "window_ok ws win" "rx_find win bid ws = (r, win')"
  shows "window_ok ws win'"
  using assms(2)
proof (cases rule: rx_find_cases)
  case (fresh i)
  show ?thesis unfolding fresh(2) by (rule window_ok_set[OF assms(1) zero_block_ok]) (simp add: zero_block_def)
qed (use assms(1) in simp_all)

text \<open>The slot that was found, in the new window.\<close>

lemma rx_find_slot:
  assumes "window_ok ws win" "rx_find win bid ws = (Some i, win')"
  shows "i < ws" "rb_block_id (rw_slots win' ! i) = bid" "rw_base_id win' = rw_base_id win"
    "0 \<le> ahead win bid" "ahead win bid < int ws"
    "j < ws \<Longrightarrow> j \<noteq> i \<Longrightarrow> rw_slots win' ! j = rw_slots win ! j"
    "j < ws \<Longrightarrow> j \<noteq> i \<Longrightarrow> occupied win' j \<Longrightarrow> rb_block_id (rw_slots win' ! j) \<noteq> bid"
  using assms(2)
  by (cases rule: rx_find_cases;
      use window_okD[OF assms(1)] in \<open>auto simp: slot_set occupied_def zero_block_def\<close>)+

section \<open>Storing a shard\<close>

lemma count_True_update:
  assumes "i < n" "\<not> bs ! i" "n \<le> length bs"
  shows "length (filter (\<lambda>j. bs[i := True] ! j) [0..<n]) = Suc (length (filter (\<lambda>j. bs ! j) [0..<n]))"
proof -
  have eq: "length (filter P [0..<n]) = card {j. j < n \<and> P j}" for P :: "nat \<Rightarrow> bool"
    by (subst distinct_card[symmetric]) (auto intro: arg_cong[where f = card])
  have "{j. j < n \<and> bs[i := True] ! j} = insert i {j. j < n \<and> bs ! j}"
    using assms by (auto simp: nth_upd)
  then show ?thesis using assms by (simp add: eq)
qed

text \<open>The shard that \<open>store_shard\<close> writes: decrypted when encryption is on.\<close>

definition decrypted :: "crypto_ctx \<Rightarrow> wire_header \<Rightarrow> shard \<Rightarrow> shard" where
  "decrypted crypto hdr s =
     (if enabled crypto then
        s\<lparr>data := crypto_xor crypto (data s) (unat (len s)) (rx_nonce (h_block_id hdr) (unat (h_shard_idx hdr)))\<rparr>
      else s)"

definition accepts :: "rx_block \<Rightarrow> wire_header \<Rightarrow> bool" where
  "accepts blk hdr \<longleftrightarrow> \<not> rb_decoded blk \<and> unat (h_shard_idx hdr) < MAX_N \<and>
     \<not> rb_received blk ! unat (h_shard_idx hdr)"

lemma store_shard_reject: "\<not> accepts blk hdr \<Longrightarrow> store_shard clk crypto hdr s blk c = (blk, c)"
  by (auto simp: store_shard_def stored_at_def accepts_def Let_def)

lemma store_shard_accept:
  assumes "accepts blk hdr"
  shows "store_shard clk crypto hdr s blk c =
    (blk\<lparr>rb_shards := (rb_shards blk)[unat (h_shard_idx hdr) := decrypted crypto hdr s],
         rb_received := (rb_received blk)[unat (h_shard_idx hdr) := True],
         rb_recv_count := rb_recv_count blk + 1,
         rb_first_recv_us := (if rb_recv_count blk = 0 then clk c else rb_first_recv_us blk)\<rparr>,
     if rb_recv_count blk = 0 then c + 1 else c)"
  using assms by (cases "rb_recv_count blk = 0") (auto simp: store_shard_def stored_at_def accepts_def decrypted_def Let_def)

lemma decrypted_arrays: "shard_arrays s \<Longrightarrow> shard_arrays (decrypted crypto hdr s)"
  by (simp add: decrypted_def shard_arrays_def crypto_xor_length)

lemma store_shard_ok:
  assumes "rx_block_ok blk" "shard_arrays s" "store_shard clk crypto hdr s blk c = (blk', c')"
  shows "rx_block_ok blk'" "rb_block_id blk' = rb_block_id blk" "rb_recv_count blk \<le> rb_recv_count blk'"
proof -
  show "rx_block_ok blk'"
  proof (cases "accepts blk hdr")
    case False
    then show ?thesis using assms(1,3) by (simp add: store_shard_reject)
  next
    case True
    let ?i = "unat (h_shard_idx hdr)"
    have "length (filter (\<lambda>j. (rb_received blk)[?i := True] ! j) [0..<MAX_N]) = Suc (rb_recv_count blk)"
      using True assms(1) by (simp add: accepts_def rx_block_ok_def count_True_update)
    moreover have "\<forall>x \<in> set ((rb_shards blk)[?i := decrypted crypto hdr s]). shard_arrays x"
      using assms(1,2) by (auto simp: rx_block_ok_def intro: decrypted_arrays
          dest!: set_update_subset_insert[THEN subsetD])
    ultimately show ?thesis using assms(1,3) store_shard_accept[OF True, of clk crypto s c]
      by (auto simp: rx_block_ok_def)
  qed
  show "rb_block_id blk' = rb_block_id blk" "rb_recv_count blk \<le> rb_recv_count blk'"
    using assms(3) store_shard_accept[of blk hdr clk crypto s c] store_shard_reject[of blk hdr clk crypto s c]
    by (cases "accepts blk hdr"; auto)+
qed

lemma insert_ok:
  assumes "window_ok ws win" "shard_arrays s"
    and "rx_window_insert clk crypto ws hdr s (win, c) = (win', c')"
  shows "window_ok ws win'"
proof (cases "rx_find win (h_block_id hdr) ws")
  case (Pair r win1)
  note ok1 = rx_find_ok[OF assms(1) Pair]
  show ?thesis
  proof (cases r)
    case None
    then show ?thesis using assms(3) Pair ok1 by (simp add: rx_window_insert_def)
  next
    case (Some i)
    obtain blk c1 where st: "store_shard clk crypto hdr s (rw_slots win1 ! i) c = (blk, c1)" by fastforce
    have w: "win' = set_slot i blk win1" using assms(3) Pair Some st by (simp add: rx_window_insert_def)
    note f = rx_find_slot[OF assms(1) Pair[unfolded Some]]
    note b = store_shard_ok[OF window_okD(3)[OF ok1 f(1)] assms(2) st]
    show ?thesis unfolding w
      by (rule window_ok_set[OF ok1 b(1)]) (use f(2,7) b(2) in auto)
  qed
qed

section \<open>Decoding a block\<close>

lemma try_decode_ok:
  assumes "rx_block_ok blk" "try_decode junk out k blk = (r, blk', pkts)"
  shows "rx_block_ok blk'" "rb_block_id blk' = rb_block_id blk" "rb_recv_count blk' = rb_recv_count blk"
    "r \<Longrightarrow> rb_decoded blk'" "rb_decoded blk \<Longrightarrow> \<not> r" "\<not> r \<Longrightarrow> blk' = blk \<and> pkts = []" "r \<Longrightarrow> length pkts = k"
  using assms by (auto simp: try_decode_def decodes_now_def rx_block_ok_def split: if_splits option.splits)

lemma window_try_decode_ok:
  assumes "window_ok ws win" "rx_window_try_decode junk out ws bid k win = (r, win', pkts)"
  shows "window_ok ws win'"
proof (cases "rx_find win bid ws")
  case (Pair r1 win1)
  note ok1 = rx_find_ok[OF assms(1) Pair]
  show ?thesis
  proof (cases r1)
    case None
    then show ?thesis using assms(2) Pair ok1 by (simp add: rx_window_try_decode_def)
  next
    case (Some i)
    obtain r2 blk ps where st: "try_decode junk out k (rw_slots win1 ! i) = (r2, blk, ps)" by (metis prod_cases3)
    have w: "win' = set_slot i blk win1" using assms(2) Pair Some st by (simp add: rx_window_try_decode_def)
    note f = rx_find_slot[OF assms(1) Pair[unfolded Some]]
    note b = try_decode_ok[OF window_okD(3)[OF ok1 f(1)] st]
    show ?thesis unfolding w
      by (rule window_ok_set[OF ok1 b(1)]) (use f(2,7) b(2) in auto)
  qed
qed

lemma moved_ok:
  assumes "window_ok ws win" "moved ws d win win'"
  shows "window_ok ws win'"
proof -
  have s: "rw_slots win' ! i = rw_slots win ! i \<or> rw_slots win' ! i = zero_block" for i
    using assms(2) by (auto simp: moved_def)
  have o: "occupied win' i \<Longrightarrow> rw_slots win' ! i = rw_slots win ! i \<and> occupied win i" for i
    using s[of i] by (auto simp: occupied_def)
  show ?thesis unfolding window_ok_def
  proof (intro conjI allI impI)
    show "ws \<le> MAX_WINDOW" "length (rw_slots win') = MAX_WINDOW"
      using window_okD[OF assms(1)] assms(2) by (simp_all add: moved_def)
    show "rx_block_ok (rw_slots win' ! i)" if "i < MAX_WINDOW" for i
      using s[of i] that assms(1) zero_block_ok' by (auto simp: window_ok_def)
    show "i = j" if "i < ws" "j < ws" "occupied win' i \<and> occupied win' j \<and>
        rb_block_id (rw_slots win' ! i) = rb_block_id (rw_slots win' ! j)" for i j
      using window_okD(5)[OF assms(1) that(1,2)] o[of i] o[of j] that(3) by metis
  qed
qed

section \<open>A shard arrives\<close>

text \<open>
  What \<open>main\<close> does with a data shard: insert, try to decode the block, advance the window. The
  result: newly decoded or not, the window, the position in the clock, the packets written.
\<close>

definition rx_on_shard ::
  "(nat \<Rightarrow> u64) \<Rightarrow> crypto_ctx \<Rightarrow> gj \<Rightarrow> bytes list \<times> u16 list \<Rightarrow> nat \<Rightarrow> wire_header \<Rightarrow> shard \<Rightarrow>
     rx_window \<times> nat \<Rightarrow> (bool \<times> rx_window \<times> nat \<times> bytes list) option" where
  "rx_on_shard clk crypto junk out ws hdr s st =
     (case rx_window_insert clk crypto ws hdr s st of (win1, c1) \<Rightarrow>
      case rx_window_try_decode junk out ws (h_block_id hdr) (unat (h_k hdr)) win1 of (r, win2, pkts) \<Rightarrow>
      case rx_window_advance clk ws (win2, c1) of
        None \<Rightarrow> None
      | Some (win3, c3) \<Rightarrow> Some (r, win3, c3, pkts))"

text \<open>
  Before the window is advanced the base is unchanged and the only new occupied slot is for the
  block of the shard.
\<close>

definition only_adds :: "nat \<Rightarrow> u32 \<Rightarrow> rx_window \<Rightarrow> rx_window \<Rightarrow> bool" where
  "only_adds ws bid win win' \<longleftrightarrow> rw_base_id win' = rw_base_id win \<and>
     (\<forall>i < ws. rw_slots win' ! i = rw_slots win ! i \<or>
        (rb_block_id (rw_slots win' ! i) = bid \<and> 0 \<le> ahead win bid \<and> ahead win bid < int ws))"

lemma only_adds_trans: "only_adds ws bid w1 w2 \<Longrightarrow> only_adds ws bid w2 w3 \<Longrightarrow> only_adds ws bid w1 w3"
  by (fastforce simp: only_adds_def ahead_def)

lemma only_adds_refl: "only_adds ws bid win win"
  by (simp add: only_adds_def)

lemma find_only_adds:
  assumes "window_ok ws win" "rx_find win bid ws = (r, win')"
  shows "only_adds ws bid win win'"
proof (cases r)
  case None
  then show ?thesis using assms(2) by (auto elim: rx_find_cases simp: only_adds_refl)
next
  case (Some i)
  note f = rx_find_slot[OF assms(1) assms(2)[unfolded Some]]
  show ?thesis unfolding only_adds_def
  proof (intro conjI allI impI)
    show "rw_base_id win' = rw_base_id win" by (rule f(3))
    show "rw_slots win' ! j = rw_slots win ! j \<or>
        (rb_block_id (rw_slots win' ! j) = bid \<and> 0 \<le> ahead win bid \<and> ahead win bid < int ws)" if "j < ws" for j
      using f(2,4,5) f(6)[OF that] by (cases "j = i") auto
  qed
qed

lemma set_only_adds:
  assumes "window_ok ws win" "rx_find win bid ws = (Some i, win')" "rb_block_id b = bid"
  shows "only_adds ws bid win (set_slot i b win')"
  using find_only_adds[OF assms(1,2)] rx_find_slot(4,5)[OF assms(1,2)] assms(3)
  by (auto simp: only_adds_def slot_set)

lemma insert_only_adds:
  assumes "window_ok ws win" "shard_arrays s" "rx_window_insert clk crypto ws hdr s (win, c) = (win', c')"
  shows "only_adds ws (h_block_id hdr) win win'"
proof (cases "rx_find win (h_block_id hdr) ws")
  case (Pair r win1)
  show ?thesis
  proof (cases r)
    case None
    then show ?thesis using assms(3) Pair find_only_adds[OF assms(1) Pair] by (simp add: rx_window_insert_def)
  next
    case (Some i)
    obtain blk c1 where st: "store_shard clk crypto hdr s (rw_slots win1 ! i) c = (blk, c1)" by fastforce
    have w: "win' = set_slot i blk win1" using assms(3) Pair Some st by (simp add: rx_window_insert_def)
    note f = rx_find_slot[OF assms(1) Pair[unfolded Some]]
    have "rb_block_id blk = h_block_id hdr"
      using store_shard_ok(2)[OF window_okD(3)[OF rx_find_ok[OF assms(1) Pair] f(1)] assms(2) st] f(2) by simp
    then show ?thesis unfolding w by (rule set_only_adds[OF assms(1) Pair[unfolded Some]])
  qed
qed

lemma try_decode_only_adds:
  assumes "window_ok ws win" "rx_window_try_decode junk out ws bid k win = (r, win', pkts)"
  shows "only_adds ws bid win win'"
proof (cases "rx_find win bid ws")
  case (Pair r1 win1)
  show ?thesis
  proof (cases r1)
    case None
    then show ?thesis using assms(2) Pair find_only_adds[OF assms(1) Pair] by (simp add: rx_window_try_decode_def)
  next
    case (Some i)
    obtain r2 blk ps where st: "try_decode junk out k (rw_slots win1 ! i) = (r2, blk, ps)" by (metis prod_cases3)
    have w: "win' = set_slot i blk win1" using assms(2) Pair Some st by (simp add: rx_window_try_decode_def)
    note f = rx_find_slot[OF assms(1) Pair[unfolded Some]]
    have "rb_block_id blk = bid"
      using try_decode_ok(2)[OF window_okD(3)[OF rx_find_ok[OF assms(1) Pair] f(1)] st] f(2) by simp
    then show ?thesis unfolding w by (rule set_only_adds[OF assms(1) Pair[unfolded Some]])
  qed
qed

section \<open>Sessions\<close>

text \<open>
  A session uses block identifiers up to \<open>H < 2 ^ 30\<close>: the sender numbers its blocks from 0, so
  this is the first billion blocks. In a session the signed 32-bit difference is the difference of
  the numbers, and the loop of \<open>rx_window_advance\<close> ends.
\<close>

definition session :: "nat \<Rightarrow> nat \<Rightarrow> rx_window \<Rightarrow> bool" where
  "session H ws win \<longleftrightarrow> window_ok ws win \<and> unat (rw_base_id win) \<le> H + 1 \<and>
     (\<forall>i < ws. occupied win i \<longrightarrow> unat (rb_block_id (rw_slots win ! i)) \<le> H)"

lemma sint_small:
  assumes "unat a < 2 ^ 31" "unat b < 2 ^ 31"
  shows "sint (a - b :: u32) = int (unat a) - int (unat b)"
proof -
  have fits: "signed_take_bit 31 (int m - int n) = int m - int n" if "m < 2 ^ 31" "n < 2 ^ 31" for m n :: nat
    using that by (intro signed_take_bit_int_eq_self) simp_all
  have s: "sint w = int (unat w)" if "unat w < 2 ^ 31" for w :: u32
    using fits[OF that, of 0] by (simp add: sint_uint)
  have "sint (a - b) = signed_take_bit 31 (sint a - sint b)" by (simp add: sint_word_ariths)
  then show ?thesis using fits[OF assms] s[OF assms(1)] s[OF assms(2)] by simp
qed

lemma ahead_session:
  "unat bid < 2 ^ 31 \<Longrightarrow> unat (rw_base_id win) < 2 ^ 31 \<Longrightarrow>
     ahead win bid = int (unat bid) - int (unat (rw_base_id win))"
  by (simp add: ahead_def sint_small)

lemma session_near:
  assumes "session H ws win" "H < 2 ^ 30"
  shows "near ws (H + 1 - unat (rw_base_id win)) win"
proof -
  have b: "unat (rw_base_id win) \<le> H + 1" using assms(1) by (simp add: session_def)
  have "ahead win (rb_block_id (rw_slots win ! i)) =
      int (unat (rb_block_id (rw_slots win ! i))) - int (unat (rw_base_id win))"
    and "unat (rb_block_id (rw_slots win ! i)) \<le> H" if "i < ws" "occupied win i" for i
    using assms that b by (auto simp: session_def simp del: of_nat_unat intro!: ahead_session)
  then show ?thesis unfolding near_def using b assms(2) by (intro allI impI) (force simp: of_nat_diff simp del: of_nat_unat)
qed

lemma session_advance:
  assumes "session H ws win" "H < 2 ^ 30"
  shows "\<exists>win' c' d. rx_window_advance clk ws (win, c) = Some (win', c') \<and> moved ws d win win' \<and>
    none_newer ws win' \<and> session H ws win' \<and> d \<le> H + 1 - unat (rw_base_id win)"
proof -
  obtain d win' c' where adv: "rx_window_advance clk ws (win, c) = Some (win', c')"
    "d \<le> H + 1 - unat (rw_base_id win)" "moved ws d win win'" "none_newer ws win'"
    using advance_terminates[OF session_near[OF assms]] by blast
  have ok: "window_ok ws win'" using assms(1) adv(3) by (auto simp: session_def intro: moved_ok)
  have b: "unat (rw_base_id win) \<le> H + 1" using assms(1) by (simp add: session_def)
  then have "unat (rw_base_id win + of_nat d) = unat (rw_base_id win) + d"
    using adv(2) assms(2) by (intro unat_add_lem[THEN iffD1, THEN trans]) (simp_all add: unat_of_nat take_bit_nat_eq_self)
  then have "unat (rw_base_id win') \<le> H + 1" using adv(2,3) b by (simp add: moved_def)
  moreover have "unat (rb_block_id (rw_slots win' ! i)) \<le> H" if "i < ws" "occupied win' i" for i
  proof -
    have "rw_slots win' ! i = rw_slots win ! i" using adv(3) that by (auto simp: moved_def occupied_def)
    then show ?thesis using assms(1) that by (simp add: session_def occupied_def)
  qed
  ultimately have "session H ws win'" using ok by (simp add: session_def)
  then show ?thesis using adv by blast
qed

lemma only_adds_session:
  assumes "session H ws win" "only_adds ws bid win win'" "window_ok ws win'" "unat bid \<le> H"
  shows "session H ws win'"
proof -
  have "unat (rb_block_id (rw_slots win' ! i)) \<le> H" if "i < ws" "occupied win' i" for i
  proof -
    consider "rw_slots win' ! i = rw_slots win ! i" | "rb_block_id (rw_slots win' ! i) = bid"
      using assms(2) \<open>i < ws\<close> by (auto simp: only_adds_def)
    then show ?thesis
    proof cases
      case 1
      then show ?thesis using assms(1) that by (simp add: session_def occupied_def)
    qed (use assms(4) in simp)
  qed
  then show ?thesis using assms(1-3) by (simp add: session_def only_adds_def)
qed

text \<open>A shard of a session is processed: the loop ends, and afterwards no slot is ahead of the base.\<close>

lemma on_shard_total:
  assumes ses: "session H ws win" "H < 2 ^ 30" and s: "shard_arrays s" and bid: "unat (h_block_id hdr) \<le> H"
  obtains r win1 c1 win2 pkts d win3 c3 where
    "rx_window_insert clk crypto ws hdr s (win, c) = (win1, c1)"
    "rx_window_try_decode junk out ws (h_block_id hdr) (unat (h_k hdr)) win1 = (r, win2, pkts)"
    "rx_window_advance clk ws (win2, c1) = Some (win3, c3)"
    "rx_on_shard clk crypto junk out ws hdr s (win, c) = Some (r, win3, c3, pkts)"
    "window_ok ws win1" "session H ws win2" "only_adds ws (h_block_id hdr) win win2"
    "moved ws d win2 win3" "none_newer ws win3" "session H ws win3" "d \<le> H + 1 - unat (rw_base_id win2)"
proof -
  obtain win1 c1 where i: "rx_window_insert clk crypto ws hdr s (win, c) = (win1, c1)" by fastforce
  obtain r win2 pkts where t: "rx_window_try_decode junk out ws (h_block_id hdr) (unat (h_k hdr)) win1 = (r, win2, pkts)"
    by (metis prod_cases3)
  have ok: "window_ok ws win" using ses(1) by (simp add: session_def)
  note ok1 = insert_ok[OF ok s i] and ok2 = window_try_decode_ok[OF insert_ok[OF ok s i] t]
  have add: "only_adds ws (h_block_id hdr) win win2"
    using insert_only_adds[OF ok s i] try_decode_only_adds[OF ok1 t] by (rule only_adds_trans)
  have ses2: "session H ws win2" by (rule only_adds_session[OF ses(1) add ok2 bid])
  obtain win3 c3 d where a: "rx_window_advance clk ws (win2, c1) = Some (win3, c3)" "moved ws d win2 win3"
    "none_newer ws win3" "session H ws win3" "d \<le> H + 1 - unat (rw_base_id win2)"
    using session_advance[OF ses2 ses(2)] by metis
  have "rx_on_shard clk crypto junk out ws hdr s (win, c) = Some (r, win3, c3, pkts)"
    by (simp add: rx_on_shard_def i t a(1))
  from that[OF i t a(1) this ok1 ses2 add a(2-5)] show thesis .
qed

section \<open>Blocks that fall behind\<close>

text \<open>A slot behind the base is not touched by a shard of a session: it is never used again and
  never freed.\<close>

definition stuck :: "rx_window \<Rightarrow> nat \<Rightarrow> bool" where
  "stuck win i \<longleftrightarrow> occupied win i \<and> ahead win (rb_block_id (rw_slots win ! i)) < 0"

lemma moved_steps:
  assumes "moved ws d win win'" "session H ws win" "H < 2 ^ 30" "d \<le> H + 1 - unat (rw_base_id win)"
  shows "unat (rw_base_id win') = unat (rw_base_id win) + d"
proof -
  have "unat (rw_base_id win) \<le> H + 1" using assms(2) by (simp add: session_def)
  then have "unat (rw_base_id win) + d < 2 ^ 32" using assms(3,4) by simp
  then show ?thesis using assms(1) by (simp add: moved_def unat_word_ariths unat_of_nat take_bit_nat_def)
qed

lemma moved_stuck:
  assumes "moved ws d win win'" "stuck win i" "session H ws win" "session H ws win'" "H < 2 ^ 30" "i < ws"
    and "d \<le> H + 1 - unat (rw_base_id win)"
  shows "stuck win' i \<and> rw_slots win' ! i = rw_slots win ! i"
proof -
  have eq: "rw_slots win' ! i = rw_slots win ! i" using assms(1,2) by (auto simp: moved_def stuck_def)
  let ?b = "rb_block_id (rw_slots win ! i)"
  have b: "unat ?b \<le> H" "unat (rw_base_id win) \<le> H + 1" "unat (rw_base_id win') \<le> H + 1"
    using assms(2-4,6) by (auto simp: session_def stuck_def)
  note base = moved_steps[OF assms(1,3,5,7)]
  have "ahead win ?b = int (unat ?b) - int (unat (rw_base_id win))"
    "ahead win' ?b = int (unat ?b) - int (unat (rw_base_id win'))"
    using b assms(5) by (auto intro!: ahead_session simp del: of_nat_unat)
  then show ?thesis using eq assms(2) base by (simp add: stuck_def occupied_def del: of_nat_unat)
qed

lemma find_keeps_stuck:
  assumes "window_ok ws win" "rx_find win bid ws = (Some j, win')" "stuck win i" "i < ws"
  shows "j \<noteq> i" "rw_slots win' ! i = rw_slots win ! i" "stuck win' i"
proof -
  show ne: "j \<noteq> i"
    using assms(2)
  proof (cases rule: rx_find_cases)
    case (old l)
    then show ?thesis using assms(3) by (auto simp: stuck_def)
  next
    case (fresh l)
    then show ?thesis using assms(3) by (auto simp: stuck_def)
  qed simp
  show same: "rw_slots win' ! i = rw_slots win ! i" using rx_find_slot(6)[OF assms(1,2,4)] ne by auto
  show "stuck win' i" using rx_find_slot(3)[OF assms(1,2)] same assms(3) by (simp add: stuck_def occupied_def ahead_def)
qed

lemma set_keeps_stuck: "stuck win i \<Longrightarrow> j \<noteq> i \<Longrightarrow>
    stuck (set_slot j b win) i \<and> rw_slots (set_slot j b win) ! i = rw_slots win ! i"
  by (simp add: stuck_def occupied_def slot_set)

lemma insert_keeps_stuck:
  assumes "window_ok ws win" "stuck win i" "i < ws" "rx_window_insert clk crypto ws hdr s (win, c) = (win', c')"
  shows "stuck win' i \<and> rw_slots win' ! i = rw_slots win ! i"
proof (cases "rx_find win (h_block_id hdr) ws")
  case (Pair r win1)
  show ?thesis
  proof (cases r)
    case None
    then show ?thesis using assms Pair by (auto simp: rx_window_insert_def elim: rx_find_cases)
  next
    case (Some j)
    note k = find_keeps_stuck[OF assms(1) Pair[unfolded Some] assms(2,3)]
    obtain blk c1 where "store_shard clk crypto hdr s (rw_slots win1 ! j) c = (blk, c1)" by fastforce
    then have "win' = set_slot j blk win1" using assms(4) Pair Some by (simp add: rx_window_insert_def)
    then show ?thesis using set_keeps_stuck[OF k(3,1)] k(2) by simp
  qed
qed

lemma try_decode_keeps_stuck:
  assumes "window_ok ws win" "stuck win i" "i < ws" "rx_window_try_decode junk out ws bid k win = (r, win', pkts)"
  shows "stuck win' i \<and> rw_slots win' ! i = rw_slots win ! i"
proof (cases "rx_find win bid ws")
  case (Pair r1 win1)
  show ?thesis
  proof (cases r1)
    case None
    then show ?thesis using assms Pair by (auto simp: rx_window_try_decode_def elim: rx_find_cases)
  next
    case (Some j)
    note k = find_keeps_stuck[OF assms(1) Pair[unfolded Some] assms(2,3)]
    obtain r2 blk ps where "try_decode junk out k (rw_slots win1 ! j) = (r2, blk, ps)" by (metis prod_cases3)
    then have "win' = set_slot j blk win1" using assms(4) Pair Some by (simp add: rx_window_try_decode_def)
    then show ?thesis using set_keeps_stuck[OF k(3,1)] k(2) by simp
  qed
qed

lemma on_shard_keeps_stuck:
  assumes ses: "session H ws win" "H < 2 ^ 30" and s: "shard_arrays s" and bid: "unat (h_block_id hdr) \<le> H"
    and st: "stuck win i" "i < ws" and on: "rx_on_shard clk crypto junk out ws hdr s (win, c) = Some (r, win', c', pkts)"
  shows "stuck win' i \<and> rw_slots win' ! i = rw_slots win ! i"
proof -
  have ok: "window_ok ws win" using ses(1) by (simp add: session_def)
  obtain r1 win1 c1 win2 pk d win3 c3 where
    i: "rx_window_insert clk crypto ws hdr s (win, c) = (win1, c1)"
    and t: "rx_window_try_decode junk out ws (h_block_id hdr) (unat (h_k hdr)) win1 = (r1, win2, pk)"
    and res: "rx_on_shard clk crypto junk out ws hdr s (win, c) = Some (r1, win3, c3, pk)"
    and ok1: "window_ok ws win1" and s2: "session H ws win2" and mv: "moved ws d win2 win3"
    and s3: "session H ws win3" and d: "d \<le> H + 1 - unat (rw_base_id win2)"
    by (rule on_shard_total[OF ses s bid])
  have 1: "stuck win1 i \<and> rw_slots win1 ! i = rw_slots win ! i" by (rule insert_keeps_stuck[OF ok st i])
  have 2: "stuck win2 i \<and> rw_slots win2 ! i = rw_slots win1 ! i"
    using 1 by (intro try_decode_keeps_stuck[OF ok1 _ st(2) t]) simp
  have "stuck win3 i \<and> rw_slots win3 ! i = rw_slots win2 ! i"
    using 2 by (intro moved_stuck[OF mv _ s2 s3 ses(2) st(2) d]) simp
  then show ?thesis using 1 2 on res by simp
qed

text \<open>
  How a block falls behind: while it is incomplete at the base and not yet timed out, one slot
  for a newer block is enough for the base to move past it.
\<close>

lemma skip_missing_eq: "skip_missing ws win = (\<not> none_newer ws win, if none_newer ws win then win else next_base win)"
proof -
  have "list_ex (\<lambda>i. occupied win i \<and> ahead win (rb_block_id (rw_slots win ! i)) > 0) [0..<ws] = (\<not> none_newer ws win)"
    by (auto simp: list_ex_iff none_newer_def not_le)
  then show ?thesis by (simp add: skip_missing_def)
qed

lemma advance_once_base:
  assumes "window_ok ws win" "i < ws" "occupied win i" "rb_block_id (rw_slots win ! i) = rw_base_id win"
  shows "advance_once clk ws (win, c) =
    (let b = rw_slots win ! i; c' = (if rb_decoded b then c else c + 1) in
     if rb_decoded b \<or> clk c - rb_first_recv_us b \<ge> RX_BLOCK_TIMEOUT_US
     then (True, next_base (set_slot i zero_block win), c')
     else (\<not> none_newer ws win, if none_newer ws win then win else next_base win, c'))"
proof -
  have "find (\<lambda>i. occupied win i \<and> rb_block_id (rw_slots win ! i) = rw_base_id win) [0..<ws] = Some i"
    unfolding find_Some_iff
  proof (intro exI[of _ i] conjI allI impI)
    fix j assume j: "j < i"
    show "\<not> (occupied win ([0..<ws] ! j) \<and> rb_block_id (rw_slots win ! ([0..<ws] ! j)) = rw_base_id win)"
      using window_okD(5)[OF assms(1), of j i] j assms(2-4) by auto
  qed (use assms in auto)
  then show ?thesis by (simp add: advance_once_def Let_def skip_missing_eq)
qed

lemma overtaken:
  assumes ses: "session H ws win" "H < 2 ^ 30"
    and i: "i < ws" "occupied win i" "rb_block_id (rw_slots win ! i) = rw_base_id win"
    and waiting: "\<not> rb_decoded (rw_slots win ! i)" "\<not> clk c - rb_first_recv_us (rw_slots win ! i) \<ge> RX_BLOCK_TIMEOUT_US"
    and newer: "j < ws" "occupied win j" "0 < ahead win (rb_block_id (rw_slots win ! j))"
  shows "\<exists>win' c'. rx_window_advance clk ws (win, c) = Some (win', c') \<and> session H ws win' \<and>
    stuck win' i \<and> rw_slots win' ! i = rw_slots win ! i"
proof -
  have ok: "window_ok ws win" using ses(1) by (simp add: session_def)
  have "\<not> none_newer ws win" using newer by (auto simp: none_newer_def not_le)
  then have once: "advance_once clk ws (win, c) = (True, next_base win, c + 1)"
    using advance_once_base[OF ok i, of clk c] waiting by simp
  have bounds: "unat (rb_block_id (rw_slots win ! j)) \<le> H" "unat (rw_base_id win) \<le> H + 1"
    using ses(1) newer(1,2) by (simp_all add: session_def)
  then have "ahead win (rb_block_id (rw_slots win ! j)) =
      int (unat (rb_block_id (rw_slots win ! j))) - int (unat (rw_base_id win))"
    using ses(2) by (intro ahead_session) simp_all
  then have lt: "unat (rw_base_id win) < unat (rb_block_id (rw_slots win ! j))" using newer(3) by (simp del: of_nat_unat)
  then have base1: "unat (rw_base_id (next_base win)) = unat (rw_base_id win) + 1"
    using bounds ses(2) by (simp add: unat_word_ariths)
  have ses1: "session H ws (next_base win)"
    using ses(1) base1 lt bounds by (simp add: session_def window_ok_def)
  have "ahead (next_base win) (rw_base_id win) = - 1"
    using ahead_next_base[of win "rw_base_id win"] by (metis ahead_eq_0 diff_0 neg_less_0_iff_less zero_less_numeral zero_less_power)
  then have st1: "stuck (next_base win) i" using i by (simp add: stuck_def)
  obtain d win' c' where a: "rx_window_advance clk ws (next_base win, c + 1) = Some (win', c')"
    "moved ws d (next_base win) win'" "session H ws win'" "d \<le> H + 1 - unat (rw_base_id (next_base win))"
    using session_advance[OF ses1 ses(2)] by metis
  have "stuck win' i \<and> rw_slots win' ! i = rw_slots (next_base win) ! i"
    by (rule moved_stuck[OF a(2) st1 ses1 a(3) ses(2) i(1) a(4)])
  then show ?thesis using a(1,3) once by (subst rx_window_advance.simps) auto
qed

section \<open>Runs of the receiver\<close>

text \<open>An arrival: the uninitialised arrays of the call, the header and the shard.\<close>

type_synonym arrival = "gj \<times> (bytes list \<times> u16 list) \<times> wire_header \<times> shard"

fun rx_run ::
  "(nat \<Rightarrow> u64) \<Rightarrow> crypto_ctx \<Rightarrow> nat \<Rightarrow> arrival list \<Rightarrow> rx_window \<times> nat \<Rightarrow> (rx_window \<times> nat \<times> bytes list) option" where
  "rx_run clk crypto ws [] (win, c) = Some (win, c, [])"
| "rx_run clk crypto ws ((junk, out, hdr, s) # es) (win, c) =
     (case rx_on_shard clk crypto junk out ws hdr s (win, c) of
        None \<Rightarrow> None
      | Some (r, win1, c1, pkts) \<Rightarrow>
          (case rx_run clk crypto ws es (win1, c1) of
             None \<Rightarrow> None
           | Some (win2, c2, pkts2) \<Rightarrow> Some (win2, c2, pkts @ pkts2)))"

definition in_session :: "nat \<Rightarrow> arrival \<Rightarrow> bool" where
  "in_session H e \<longleftrightarrow> (case e of (junk, out, hdr, s) \<Rightarrow> shard_arrays s \<and> unat (h_block_id hdr) \<le> H)"

lemma rx_run_session:
  assumes "session H ws win" "H < 2 ^ 30" "\<forall>e \<in> set es. in_session H e"
  shows "\<exists>win' c' pkts. rx_run clk crypto ws es (win, c) = Some (win', c', pkts) \<and> session H ws win' \<and>
    (\<forall>i < ws. stuck win i \<longrightarrow> stuck win' i \<and> rw_slots win' ! i = rw_slots win ! i)"
  using assms(1,3)
proof (induction es arbitrary: win c)
  case (Cons e es)
  obtain junk out hdr s where e: "e = (junk, out, hdr, s)" by (metis prod_cases4)
  have a: "shard_arrays s" "unat (h_block_id hdr) \<le> H" using Cons.prems(2) by (simp_all add: e in_session_def)
  obtain r win1 c1 pk where on: "rx_on_shard clk crypto junk out ws hdr s (win, c) = Some (r, win1, c1, pk)"
    and ses1: "session H ws win1"
    by (rule on_shard_total[OF Cons.prems(1) assms(2) a]) blast
  have keep: "stuck win1 i \<and> rw_slots win1 ! i = rw_slots win ! i" if "i < ws" "stuck win i" for i
    by (rule on_shard_keeps_stuck[OF Cons.prems(1) assms(2) a that(2,1) on])
  obtain win' c' pkts where run: "rx_run clk crypto ws es (win1, c1) = Some (win', c', pkts)" "session H ws win'"
    "\<forall>i < ws. stuck win1 i \<longrightarrow> stuck win' i \<and> rw_slots win' ! i = rw_slots win1 ! i"
    using Cons.IH[OF ses1] Cons.prems(2) by fastforce
  then show ?case using on keep e by auto
qed simp

text \<open>A shard for a block that has fallen behind changes nothing, and none of its packets are written.\<close>

lemma insert_outside:
  "ahead win (h_block_id hdr) < 0 \<or> int ws \<le> ahead win (h_block_id hdr) \<Longrightarrow>
     rx_window_insert clk crypto ws hdr s (win, c) = (win, c)"
  by (simp add: rx_window_insert_def find_outside)

lemma try_decode_outside:
  "ahead win bid < 0 \<or> int ws \<le> ahead win bid \<Longrightarrow> rx_window_try_decode junk out ws bid k win = (False, win, [])"
  by (simp add: rx_window_try_decode_def find_outside)

text \<open>With nothing at or ahead of the base the window does not move.\<close>

definition quiet_window :: "nat \<Rightarrow> rx_window \<Rightarrow> bool" where
  "quiet_window ws win \<longleftrightarrow> (\<forall>i < ws. occupied win i \<longrightarrow> ahead win (rb_block_id (rw_slots win ! i)) < 0)"

lemma quiet_advance:
  assumes "quiet_window ws win"
  shows "rx_window_advance clk ws (win, c) = Some (win, c)"
proof -
  have f: "find (\<lambda>i. occupied win i \<and> rb_block_id (rw_slots win ! i) = rw_base_id win) [0..<ws] = None"
    using assms by (auto simp: find_None_iff quiet_window_def) (metis ahead_eq_0 less_irrefl)
  have "none_newer ws win" using assms by (auto simp: quiet_window_def none_newer_def)
  then have "advance_once clk ws (win, c) = (False, win, c)" using f by (simp add: advance_once_def skip_missing_eq)
  then show ?thesis by (subst rx_window_advance.simps) simp
qed

definition beyond :: "nat \<Rightarrow> rx_window \<Rightarrow> arrival \<Rightarrow> bool" where
  "beyond ws win e \<longleftrightarrow> (case e of (junk, out, hdr, s) \<Rightarrow>
     ahead win (h_block_id hdr) < 0 \<or> int ws \<le> ahead win (h_block_id hdr))"

lemma deaf:
  assumes "quiet_window ws win" "\<forall>e \<in> set es. beyond ws win e"
  shows "rx_run clk crypto ws es (win, c) = Some (win, c, [])"
  using assms(2)
proof (induction es)
  case (Cons e es)
  obtain junk out hdr s where e: "e = (junk, out, hdr, s)" by (metis prod_cases4)
  have b: "ahead win (h_block_id hdr) < 0 \<or> int ws \<le> ahead win (h_block_id hdr)"
    using Cons.prems by (simp add: e beyond_def)
  have "rx_on_shard clk crypto junk out ws hdr s (win, c) = Some (False, win, c, [])"
    by (simp add: rx_on_shard_def insert_outside[OF b] try_decode_outside[OF b] quiet_advance[OF assms(1)])
  then show ?case using Cons by (simp add: e)
qed simp

section \<open>The packet length\<close>

lemma ip_packet_length_le: "ip_packet_length pkt L \<le> L"
  by (simp add: ip_packet_length_def Let_def)

text \<open>The total length field of an IPv4 packet and the length that an IPv6 header gives.\<close>

definition ipv4_total :: "bytes \<Rightarrow> nat" where
  "ipv4_total pkt = 256 * unat (pkt ! 2) + unat (pkt ! 3)"

definition is_ipv4 :: "bytes \<Rightarrow> bool" where
  "is_ipv4 pkt \<longleftrightarrow> 20 \<le> length pkt \<and> drop_bit 4 (pkt ! 0) = 4 \<and> ipv4_total pkt = length pkt"

definition is_ipv6 :: "bytes \<Rightarrow> bool" where
  "is_ipv6 pkt \<longleftrightarrow> 40 \<le> length pkt \<and> drop_bit 4 (pkt ! 0) = 6 \<and>
     256 * unat (pkt ! 4) + unat (pkt ! 5) + 40 = length pkt"

lemma be_value: "unat (push_bit 8 (ucast (a :: u8)) OR ucast (b :: u8) :: u16) = 256 * unat a + unat b"
proof -
  have d: "(push_bit 8 (ucast a) :: u16) AND ucast b = 0"
    by (rule bit_word_eqI) (auto simp: bit_simps dest: bit_imp_le_length)
  have "(push_bit 8 (ucast a) OR ucast b :: u16) = push_bit 8 (ucast a) + ucast b"
    using d by (simp add: disjunctive_add_eq_or)
  moreover have u: "unat (ucast x :: u16) = unat x" for x :: u8
  proof -
    have "unat x < 2 ^ 16" by (rule less_trans[OF unat_u8_less]) simp
    then show ?thesis by (simp add: unsigned_ucast_eq take_bit_nat_eq_self)
  qed
  moreover have "unat (push_bit 8 (ucast a) + ucast b :: u16) = 256 * unat a + unat b"
  proof -
    have "unat a * 256 + unat b < 65536" using unat_u8_less[of a] unat_u8_less[of b] by linarith
    then show ?thesis by (simp add: push_bit_eq_mult unat_word_ariths u)
  qed
  ultimately show ?thesis by simp
qed

text \<open>A padded IP packet is cut to its own length.\<close>

lemma padded_prefix:
  assumes "take (length p) row = p" "i < length p"
  shows "row ! i = p ! i"
  using assms by (metis nth_take)

lemma version_nibble: "drop_bit 4 (b :: u8) AND 0x0F = drop_bit 4 b"
proof -
  have "(0x0F :: u8) = mask 4" by (simp add: mask_eq_exp_minus_1)
  then have "drop_bit 4 b AND 0x0F = take_bit 4 (drop_bit 4 b)" by (simp add: take_bit_eq_mask)
  also have "\<dots> = drop_bit 4 b" by (rule bit_word_eqI) (auto simp: bit_simps dest: bit_imp_le_length)
  finally show ?thesis .
qed

lemma ip_length_ipv4:
  assumes "is_ipv4 p" "take (length p) row = p" "length p \<le> unat L"
  shows "unat (ip_packet_length row L) = length p"
proof -
  have p: "20 \<le> length p" "drop_bit 4 (p ! 0) = 4" "256 * unat (p ! 2) + unat (p ! 3) = length p"
    using assms(1) by (simp_all add: is_ipv4_def ipv4_total_def)
  have r: "row ! 0 = p ! 0" "row ! 2 = p ! 2" "row ! 3 = p ! 3"
    by (rule padded_prefix[OF assms(2)], use p(1) in linarith)+
  let ?t = "push_bit 8 (ucast (p ! 2)) OR ucast (p ! 3) :: u16"
  have t: "unat ?t = length p" using be_value[of "p ! 2" "p ! 3"] p(3) by simp
  have le: "20 \<le> L" "20 \<le> ?t" "?t \<le> L" using p(1) assms(3) t by (simp_all add: word_le_nat_alt)
  have "ip_packet_length row L = ?t"
    using le p(2) by (simp add: ip_packet_length_def Let_def r version_nibble)
  then show ?thesis using t by simp
qed

lemma ip_length_ipv6:
  assumes "is_ipv6 p" "take (length p) row = p" "length p \<le> unat L"
  shows "unat (ip_packet_length row L) = length p"
proof -
  have p: "40 \<le> length p" "drop_bit 4 (p ! 0) = 6" "256 * unat (p ! 4) + unat (p ! 5) + 40 = length p"
    using assms(1) by (simp_all add: is_ipv6_def)
  have r: "row ! 0 = p ! 0" "row ! 4 = p ! 4" "row ! 5 = p ! 5"
    by (rule padded_prefix[OF assms(2)], use p(1) in linarith)+
  let ?t = "push_bit 8 (ucast (p ! 4)) OR ucast (p ! 5) :: u16"
  have "unat ?t = 256 * unat (p ! 4) + unat (p ! 5)" by (rule be_value)
  moreover have "length p < 2 ^ 16" using assms(3) le_less_trans[OF _ unsigned_less] by fastforce
  ultimately have t: "unat (?t + 40) = length p" using p(3) by (simp add: unat_word_ariths)
  have le: "20 \<le> L" "40 \<le> L" "40 \<le> ?t + 40" "?t + 40 \<le> L" using p(1) assms(3) t by (simp_all add: word_le_nat_alt)
  have "ip_packet_length row L = ?t + 40"
    using le p(2) by (simp add: ip_packet_length_def Let_def r version_nibble)
  then show ?thesis using t by simp
qed

section \<open>Finding the block again\<close>

lemma rx_find_hit:
  assumes "window_ok ws win" "i < ws" "occupied win i" "rb_block_id (rw_slots win ! i) = bid"
    and "0 \<le> ahead win bid" "ahead win bid < int ws"
  shows "rx_find win bid ws = (Some i, win)"
proof -
  obtain r win' where f: "rx_find win bid ws = (r, win')" by fastforce
  then show ?thesis
  proof (cases rule: rx_find_cases)
    case none
    then show ?thesis using assms by auto
  next
    case (old j)
    then have "j = i" using window_okD(5)[OF assms(1)] assms(2-4) by metis
    then show ?thesis using f old by simp
  next
    case (fresh j)
    then show ?thesis using assms by blast
  qed
qed

lemma rx_find_free:
  assumes "window_ok ws win" "i < ws" "\<not> occupied win i"
    and "\<And>j. j < ws \<Longrightarrow> occupied win j \<Longrightarrow> rb_block_id (rw_slots win ! j) \<noteq> bid"
    and "0 \<le> ahead win bid" "ahead win bid < int ws"
  obtains l where "l < ws" "\<not> occupied win l"
    "rx_find win bid ws = (Some l, set_slot l (zero_block\<lparr>rb_block_id := bid\<rparr>) win)"
proof -
  obtain r win' where f: "rx_find win bid ws = (r, win')" by fastforce
  then show thesis
  proof (cases rule: rx_find_cases)
    case none
    then show thesis using assms by auto
  next
    case (old j)
    then show thesis using assms(4) by blast
  next
    case (fresh j)
    then show thesis using f that by blast
  qed
qed

section \<open>A duplicate changes nothing\<close>

lemma insert_some:
  "rx_find win (h_block_id hdr) ws = (Some i, win0) \<Longrightarrow> store_shard clk crypto hdr s (rw_slots win0 ! i) c = (b, c') \<Longrightarrow>
     rx_window_insert clk crypto ws hdr s (win, c) = (set_slot i b win0, c')"
  by (simp add: rx_window_insert_def)

lemma set_slot_same: "rw_slots win ! i = b \<Longrightarrow> set_slot i b win = win"
  by (auto simp: set_slot_def)

lemma set_slot_twice: "set_slot i b (set_slot i a win) = set_slot i b win"
  by (simp add: set_slot_def)

text \<open>A slot that was found free is found again as long as nothing is stored in it.\<close>

lemma free_again:
  assumes "rx_find win bid ws = (Some i, win0)" "i < length (rw_slots win)" "\<not> occupied win0 i"
  shows "rx_find win0 bid ws = (Some i, win0)"
  using assms(1)
proof (cases rule: rx_find_cases)
  case (fresh j)
  then have w: "win0 = set_slot i (zero_block\<lparr>rb_block_id := bid\<rparr>) win" by simp
  have free: "rb_recv_count (rw_slots win ! i) = 0" using fresh by (simp add: occupied_def)
  have cnt: "rb_recv_count (rw_slots win0 ! l) = rb_recv_count (rw_slots win ! l)" for l
    using free by (cases "i = l") (simp_all add: w slot_set zero_block_def)
  have old: "(rb_recv_count (rw_slots win0 ! l) > 0 \<and> rb_block_id (rw_slots win0 ! l) = bid) \<longleftrightarrow>
      (rb_recv_count (rw_slots win ! l) > 0 \<and> rb_block_id (rw_slots win ! l) = bid)" for l
    using free by (cases "i = l") (auto simp: w slot_set zero_block_def)
  have none: "find (\<lambda>l. rb_recv_count (rw_slots win ! l) > 0 \<and> rb_block_id (rw_slots win ! l) = bid) [0..<ws] = None"
    using fresh(5) by (auto simp: find_None_iff occupied_def)
  have first: "find (\<lambda>l. rb_recv_count (rw_slots win ! l) = 0) [0..<ws] = Some i"
    using assms(1) fresh(6,7) unfolding rx_find_def none by (auto split: option.splits)
  have "ahead win0 = ahead win" by (simp add: w)
  then have "rx_find win0 bid ws = (Some i, set_slot i (zero_block\<lparr>rb_block_id := bid\<rparr>) win0)"
    using fresh(6,7) unfolding rx_find_def old unfolding cnt none first by simp
  then show ?thesis using set_slot_twice by (simp add: w)
qed (use assms(3) in simp_all)

text \<open>After a shard was offered to a block, the block does not take it again.\<close>

lemma stored_rejects:
  assumes "rx_block_ok b" "store_shard clk crypto hdr s b c = (b', c')"
  shows "\<not> accepts b' hdr"
proof (cases "accepts b hdr")
  case True
  then show ?thesis
    using assms store_shard_accept[OF True, of clk crypto s c] by (auto simp: accepts_def rx_block_ok_def)
next
  case False
  then show ?thesis using assms(2) by (simp add: store_shard_reject)
qed

section \<open>The accesses of the receiver\<close>

text \<open>
  Whether every access that a data shard causes stays inside its array: the slots, the arrays of the
  block, the payload that is decrypted, the \<open>k\<close> shards collected in an array of \<open>MAX_K\<close>, their
  coefficients and bytes, the local arrays of \<open>decode_block\<close> and \<open>try_decode\<close> with \<open>MAX_K\<close> rows of
  \<open>MAX_K\<close> and \<open>MAX_PAYLOAD\<close> bytes, and the bytes written to the device.
\<close>

definition store_inside :: "crypto_ctx \<Rightarrow> wire_header \<Rightarrow> shard \<Rightarrow> rx_block \<Rightarrow> bool" where
  "store_inside crypto hdr s blk \<longleftrightarrow>
     (case stored_at hdr blk of
        None \<Rightarrow> True
      | Some idx \<Rightarrow> inside (rb_received blk) idx 1 \<and> inside (rb_shards blk) idx 1 \<and>
          (enabled crypto \<longrightarrow> inside (data s) 0 (unat (len s))))"

definition decode_inside :: "gj \<Rightarrow> bytes list \<times> u16 list \<Rightarrow> nat \<Rightarrow> rx_block \<Rightarrow> bool" where
  "decode_inside junk out k blk \<longleftrightarrow>
     (decodes_now k blk \<longrightarrow>
        k \<le> MAX_K \<and> inside (rb_received blk) 0 MAX_N \<and> inside (rb_shards blk) 0 MAX_N \<and>
        (\<forall>s \<in> set (collect k blk). inside (coeffs s) 0 k \<and> inside (data s) 0 (unat (len s)) \<and> unat (len s) \<le> MAX_PAYLOAD) \<and>
        (case decode_block junk (collect k blk) k out of
           None \<Rightarrow> True
         | Some (ob, ol) \<Rightarrow> \<forall>i < k. ip_packet_length (ob ! i) (ol ! i) \<le> ol ! i))"

definition rx_inside ::
  "(nat \<Rightarrow> u64) \<Rightarrow> crypto_ctx \<Rightarrow> gj \<Rightarrow> bytes list \<times> u16 list \<Rightarrow> nat \<Rightarrow> wire_header \<Rightarrow> shard \<Rightarrow> rx_window \<times> nat \<Rightarrow> bool" where
  "rx_inside clk crypto junk out ws hdr s st \<longleftrightarrow> inside (rw_slots (fst st)) 0 ws \<and>
     (case rx_find (fst st) (h_block_id hdr) ws of
        (None, _) \<Rightarrow> True
      | (Some i, win) \<Rightarrow> store_inside crypto hdr s (rw_slots win ! i)) \<and>
     (case rx_find (fst (rx_window_insert clk crypto ws hdr s st)) (h_block_id hdr) ws of
        (None, _) \<Rightarrow> True
      | (Some i, win) \<Rightarrow> decode_inside junk out (unat (h_k hdr)) (rw_slots win ! i))"

text \<open>No shard in the window is longer than its array.\<close>

definition short_shards :: "rx_window \<Rightarrow> bool" where
  "short_shards win \<longleftrightarrow> (\<forall>b \<in> set (rw_slots win). \<forall>s \<in> set (rb_shards b). unat (len s) \<le> MAX_PAYLOAD)"

lemma short_zero: "s \<in> set (rb_shards zero_block) \<Longrightarrow> unat (len s) \<le> MAX_PAYLOAD"
  by (simp add: zero_block_def zero_shard_def)

lemma short_start: "short_shards rx_window_init"
  using short_zero by (auto simp: short_shards_def rx_window_init_def)

lemma short_set:
  "short_shards win \<Longrightarrow> (\<And>s. s \<in> set (rb_shards b) \<Longrightarrow> unat (len s) \<le> MAX_PAYLOAD) \<Longrightarrow> short_shards (set_slot i b win)"
  by (auto simp: short_shards_def set_slot_def dest!: set_update_subset_insert[THEN subsetD])

lemma short_find: "short_shards win \<Longrightarrow> rx_find win bid ws = (r, win') \<Longrightarrow> short_shards win'"
  by (erule rx_find_cases) (auto intro!: short_set simp: zero_block_def zero_shard_def)

lemma short_slot:
  "short_shards win \<Longrightarrow> i < length (rw_slots win) \<Longrightarrow> s \<in> set (rb_shards (rw_slots win ! i)) \<Longrightarrow> unat (len s) \<le> MAX_PAYLOAD"
  by (auto simp: short_shards_def)

lemma find_index: "rx_find win bid ws = (Some i, win') \<Longrightarrow> i < ws \<and> length (rw_slots win') = length (rw_slots win)"
  by (erule rx_find_cases) auto

lemma short_stored:
  assumes "\<And>x. x \<in> set (rb_shards b) \<Longrightarrow> unat (len x) \<le> MAX_PAYLOAD" "unat (len s) \<le> MAX_PAYLOAD"
    and "store_shard clk crypto hdr s b c = (b', c')" "x \<in> set (rb_shards b')"
  shows "unat (len x) \<le> MAX_PAYLOAD"
proof (cases "accepts b hdr")
  case True
  then have "x \<in> insert (decrypted crypto hdr s) (set (rb_shards b))"
    using assms(3,4) store_shard_accept[OF True, of clk crypto s c] by (auto dest!: set_update_subset_insert[THEN subsetD])
  then show ?thesis using assms(1,2) by (auto simp: decrypted_def split: if_splits)
qed (use assms store_shard_reject in auto)

lemma short_insert:
  assumes "short_shards win" "ws \<le> length (rw_slots win)" "unat (len s) \<le> MAX_PAYLOAD"
    and "rx_window_insert clk crypto ws hdr s (win, c) = (win', c')"
  shows "short_shards win' \<and> length (rw_slots win') = length (rw_slots win)"
proof (cases "rx_find win (h_block_id hdr) ws")
  case (Pair r win1)
  note s1 = short_find[OF assms(1) Pair]
  show ?thesis
  proof (cases r)
    case None
    then show ?thesis using assms(1,4) Pair by (auto simp: rx_window_insert_def elim: rx_find_cases)
  next
    case (Some i)
    note f = find_index[OF Pair[unfolded Some]]
    obtain b c1 where st: "store_shard clk crypto hdr s (rw_slots win1 ! i) c = (b, c1)" by fastforce
    have il: "i < length (rw_slots win1)" using f assms(2) by simp
    have "unat (len x) \<le> MAX_PAYLOAD" if "x \<in> set (rb_shards b)" for x
      by (rule short_stored[OF short_slot[OF s1 il] assms(3) st that])
    then show ?thesis using insert_some[OF Pair[unfolded Some] st] assms(4) s1 f short_set[of win1] by auto
  qed
qed

lemma short_try_decode:
  assumes "short_shards win" "ws \<le> length (rw_slots win)"
    and "rx_window_try_decode junk out ws bid k win = (r, win', pkts)"
  shows "short_shards win'"
proof (cases "rx_find win bid ws")
  case (Pair r1 win1)
  note s1 = short_find[OF assms(1) Pair]
  show ?thesis
  proof (cases r1)
    case None
    then show ?thesis using assms(3) Pair s1 by (simp add: rx_window_try_decode_def)
  next
    case (Some i)
    note f = find_index[OF Pair[unfolded Some]]
    obtain r2 b ps where td: "try_decode junk out k (rw_slots win1 ! i) = (r2, b, ps)" by (metis prod_cases3)
    have "rb_shards b = rb_shards (rw_slots win1 ! i)"
      using td by (auto simp: try_decode_def split: if_splits option.splits)
    then have "short_shards (set_slot i b win1)" using s1 f assms(2) short_slot[OF s1, of i] by (intro short_set) auto
    then show ?thesis using assms(3) Pair Some td by (simp add: rx_window_try_decode_def)
  qed
qed

lemma short_moved:
  assumes "short_shards win" "moved ws d win win'"
  shows "short_shards win'"
  unfolding short_shards_def
proof (intro ballI)
  fix b s assume b: "b \<in> set (rw_slots win')" "s \<in> set (rb_shards b)"
  then obtain i where i: "i < length (rw_slots win)" "b = rw_slots win' ! i"
    using assms(2) by (auto simp: in_set_conv_nth moved_def)
  have "rw_slots win' ! i = rw_slots win ! i \<or> rw_slots win' ! i = zero_block" using assms(2) by (auto simp: moved_def)
  then show "unat (len s) \<le> MAX_PAYLOAD" using b(2) i short_slot[OF assms(1) i(1)] short_zero by auto
qed

text \<open>In a session every access is inside, when the shard is one that \<open>transport_recv\<close> lets through.\<close>

lemma rx_inside_session:
  assumes ses: "session H ws win" "H < 2 ^ 30" and sh: "shard_arrays s" "unat (len s) \<le> MAX_PAYLOAD"
    and hdr: "unat (h_block_id hdr) \<le> H" "unat (h_k hdr) \<le> MAX_K" and short: "short_shards win"
  shows "rx_inside clk crypto junk out ws hdr s (win, c)"
    and "rx_on_shard clk crypto junk out ws hdr s (win, c) = Some (r, win', c', pkts) \<Longrightarrow> short_shards win'"
proof -
  obtain r1 win1 c1 win2 pk d win3 c3 where i: "rx_window_insert clk crypto ws hdr s (win, c) = (win1, c1)"
    and t: "rx_window_try_decode junk out ws (h_block_id hdr) (unat (h_k hdr)) win1 = (r1, win2, pk)"
    and on: "rx_on_shard clk crypto junk out ws hdr s (win, c) = Some (r1, win3, c3, pk)"
    and ok1: "window_ok ws win1" and mv: "moved ws d win2 win3"
    by (rule on_shard_total[OF ses sh(1) hdr(1)])
  have ok: "window_ok ws win" using ses(1) by (simp add: session_def)
  have ws: "ws \<le> length (rw_slots win)" using window_okD[OF ok] by simp
  note s1 = short_insert[OF short ws sh(2) i]
  have s2: "short_shards win2" using s1 ws by (intro short_try_decode[OF _ _ t]) simp_all
  show "short_shards win'" if "rx_on_shard clk crypto junk out ws hdr s (win, c) = Some (r, win', c', pkts)"
    using that on short_moved[OF s2 mv] by simp
  have st: "store_inside crypto hdr s b" if "rx_block_ok b" for b
    using that sh by (auto simp: store_inside_def stored_at_def inside_def rx_block_ok_def shard_arrays_def Let_def split: option.split)
  have dc: "decode_inside junk out (unat (h_k hdr)) b"
    if b: "rx_block_ok b" "\<And>x. x \<in> set (rb_shards b) \<Longrightarrow> unat (len x) \<le> MAX_PAYLOAD" for b
  proof -
    have "shard_arrays x \<and> unat (len x) \<le> MAX_PAYLOAD" if "x \<in> set (collect k b)" for x k
    proof -
      have "x = zero_shard \<or> x \<in> set (rb_shards b)"
        using that b(1) by (auto simp: collect_def Let_def rx_block_ok_def dest!: in_set_takeD split: if_splits)
      then show ?thesis using b zero_shard_arrays by (auto simp: rx_block_ok_def zero_shard_def)
    qed
    then show ?thesis using b(1) hdr(2) ip_packet_length_le
      by (auto simp: decode_inside_def inside_def rx_block_ok_def shard_arrays_def split: option.split)
  qed
  have 1: "store_inside crypto hdr s (rw_slots w ! j)" if "rx_find win (h_block_id hdr) ws = (Some j, w)" for j w
    using st window_okD(3)[OF rx_find_ok[OF ok that]] find_index[OF that] by blast
  have 2: "decode_inside junk out (unat (h_k hdr)) (rw_slots w ! j)" if f: "rx_find win1 (h_block_id hdr) ws = (Some j, w)" for j w
  proof (rule dc)
    have j: "j < ws" "j < length (rw_slots w)" using find_index[OF f] s1 ws by simp_all
    show "rx_block_ok (rw_slots w ! j)" by (rule window_okD(3)[OF rx_find_ok[OF ok1 f] j(1)])
    show "unat (len x) \<le> MAX_PAYLOAD" if "x \<in> set (rb_shards (rw_slots w ! j))" for x
      using short_slot[OF short_find[OF _ f] j(2) that] s1 by blast
  qed
  show "rx_inside clk crypto junk out ws hdr s (win, c)"
    using ws 1 2 by (auto simp: rx_inside_def i inside_def split: option.split)
qed

section \<open>A slot is always left\<close>

text \<open>
  Slots behind the base are never freed, but they never fill the window: some slot is free or not behind the base. A
  step of the base past a missing block needs a slot ahead of the base, which is then not behind it; the
  other steps free a slot.
\<close>

definition open_slot :: "nat \<Rightarrow> rx_window \<Rightarrow> bool" where
  "open_slot ws win \<longleftrightarrow> (\<exists>i < ws. \<not> stuck win i)"

lemma only_adds_open: "only_adds ws bid win win' \<Longrightarrow> open_slot ws win \<Longrightarrow> open_slot ws win'"
  unfolding open_slot_def only_adds_def stuck_def occupied_def ahead_def by (metis not_less)

lemma advance_open:
  assumes "rx_window_advance clk ws st = Some st'" "ws \<le> length (rw_slots (fst st))" "open_slot ws (fst st)"
  shows "open_slot ws (fst st')"
proof -
  have "ws \<le> length (rw_slots (fst st)) \<longrightarrow> open_slot ws (fst st) \<longrightarrow> open_slot ws (fst st')"
  proof (rule rx_window_advance.raw_induct[OF _ assms(1)], intro impI)
    fix adv clk ws st st'
    assume IH: "\<And>clk ws st st'. adv clk ws st = Some st' \<Longrightarrow> ws \<le> length (rw_slots (fst st)) \<longrightarrow> open_slot ws (fst st) \<longrightarrow> open_slot ws (fst st')"
      and r: "(case advance_once clk ws st of (found, st2) \<Rightarrow> if found then adv clk ws st2 else Some st2) = Some st'"
      and len: "ws \<le> length (rw_slots (fst st))" and op: "open_slot ws (fst st)"
    obtain win c where st: "st = (win, c)" by fastforce
    obtain f win1 c1 where o: "advance_once clk ws (win, c) = (f, win1, c1)" by (metis prod_cases3)
    show "open_slot ws (fst st')"
      using o
    proof (cases rule: advance_once_cases)
      case stop
      then show ?thesis using r op o st by auto
    next
      case skip
      then obtain i where i: "i < ws" "0 < ahead win (rb_block_id (rw_slots win ! i))" by blast
      then have "\<not> stuck win1 i" by (simp add: skip(2) stuck_def ahead_next_base)
      then have "open_slot ws win1" using i(1) by (auto simp: open_slot_def)
      then show ?thesis using IH[of clk ws "(win1, c1)" st'] r len o st skip(1,2) by simp
    next
      case (clear i)
      then have "\<not> stuck win1 i" using len st by (simp add: stuck_def)
      then have "open_slot ws win1" using clear(2) by (auto simp: open_slot_def)
      then show ?thesis using IH[of clk ws "(win1, c1)" st'] r len o st clear(1,5) by simp
    qed
  qed
  then show ?thesis using assms(2,3) by simp
qed

lemma open_at_base:
  assumes "open_slot ws win" "none_newer ws win"
  shows "\<exists>i < ws. \<not> occupied win i \<or> rb_block_id (rw_slots win ! i) = rw_base_id win"
  using assms by (metis open_slot_def none_newer_def stuck_def ahead_eq_0 not_less order_antisym)

section \<open>The receiver as a state machine\<close>

definition window_start :: "nat \<Rightarrow> (rx_window \<times> nat) option \<Rightarrow> bool" where
  "window_start ws s \<longleftrightarrow> ws \<le> MAX_WINDOW \<and> (\<exists>c. s = Some (rx_window_init, c))"

definition window_step ::
  "(nat \<Rightarrow> u64) \<Rightarrow> crypto_ctx \<Rightarrow> nat \<Rightarrow> arrival \<Rightarrow> (rx_window \<times> nat) option \<Rightarrow> (rx_window \<times> nat) option" where
  "window_step clk crypto ws e s =
     (case s of
        None \<Rightarrow> None
      | Some st \<Rightarrow> (case e of (junk, out, hdr, sh) \<Rightarrow>
          map_option (\<lambda>(r, win, c, pkts). (win, c)) (rx_on_shard clk crypto junk out ws hdr sh st)))"

definition receiving :: "nat \<Rightarrow> nat \<Rightarrow> (rx_window \<times> nat) option \<Rightarrow> bool" where
  "receiving H ws s \<longleftrightarrow> (\<exists>win c. s = Some (win, c) \<and> session H ws win \<and> none_newer ws win \<and> (ws = 0 \<or> open_slot ws win))"

interpretation receiver: state_machine "window_start ws" "window_step clk crypto ws"
  "\<lambda>e. H < 2 ^ 30 \<and> in_session H e" "receiving H ws" for clk crypto ws H
proof
  show "receiving H ws s" if "window_start ws s" for s
    using that window_init_ok[of ws]
    by (auto simp: window_start_def receiving_def session_def none_newer_def open_slot_def stuck_def)
      (auto simp: rx_window_init_def occupied_def limits)
  show "receiving H ws (window_step clk crypto ws e s)"
    if adm: "H < 2 ^ 30 \<and> in_session H e" and rec: "receiving H ws s" for e s
  proof -
    obtain junk out hdr sh where e: "e = (junk, out, hdr, sh)" by (metis prod_cases4)
    obtain win c where s: "s = Some (win, c)" "session H ws win" "ws = 0 \<or> open_slot ws win" using rec by (auto simp: receiving_def)
    have a: "H < 2 ^ 30" "shard_arrays sh" "unat (h_block_id hdr) \<le> H" using adm by (simp_all add: e in_session_def)
    obtain r win2 c1 win' c' pk where on: "rx_on_shard clk crypto junk out ws hdr sh (win, c) = Some (r, win', c', pk)"
        "session H ws win'" "none_newer ws win'"
      and adv: "rx_window_advance clk ws (win2, c1) = Some (win', c')" and add: "only_adds ws (h_block_id hdr) win win2"
        "session H ws win2"
      by (rule on_shard_total[OF s(2) a]) blast
    have "ws \<le> length (rw_slots win2)" using add(2) by (simp add: session_def window_ok_def)
    then have "ws = 0 \<or> open_slot ws win'" using advance_open[OF adv] only_adds_open[OF add(1)] s(3) by auto
    then show ?thesis using on by (simp add: receiving_def window_step_def s(1) e)
  qed
qed

section \<open>The time-out frees the base\<close>

text \<open>Storing and decoding keep the time at which an occupied slot got its first shard.\<close>

definition same_age :: "nat \<Rightarrow> rx_window \<Rightarrow> rx_window \<Rightarrow> bool" where
  "same_age i win win' \<longleftrightarrow> occupied win' i \<and> rb_block_id (rw_slots win' ! i) = rb_block_id (rw_slots win ! i) \<and>
     rb_first_recv_us (rw_slots win' ! i) = rb_first_recv_us (rw_slots win ! i)"

lemma find_same_age:
  assumes "window_ok ws win" "rx_find win bid ws = (r, win')" "i < ws" "occupied win i"
  shows "rw_slots win' ! i = rw_slots win ! i \<and> occupied win' i"
  using assms(2)
proof (cases rule: rx_find_cases)
  case (fresh j)
  then have "j \<noteq> i" using assms(4) by auto
  then show ?thesis using assms(4) by (simp add: fresh(2) slot_set occupied_def)
qed (use assms(4) in auto)

lemma set_same_age:
  assumes "occupied win i" "i < length (rw_slots win)"
    and "j = i \<Longrightarrow> 0 < rb_recv_count b \<and> rb_block_id b = rb_block_id (rw_slots win ! i) \<and>
      rb_first_recv_us b = rb_first_recv_us (rw_slots win ! i)"
  shows "same_age i win (set_slot j b win)"
  using assms by (auto simp: same_age_def occupied_def slot_set)

lemma insert_same_age:
  assumes "window_ok ws win" "i < ws" "occupied win i" "rx_window_insert clk crypto ws hdr s (win, c) = (win', c')"
  shows "same_age i win win' \<and> c \<le> c'"
proof (cases "rx_find win (h_block_id hdr) ws")
  case (Pair r win1)
  note k = find_same_age[OF assms(1) Pair assms(2,3)]
  show ?thesis
  proof (cases r)
    case None
    then show ?thesis using assms(4) Pair k by (auto simp: rx_window_insert_def same_age_def)
  next
    case (Some j)
    obtain b c1 where st: "store_shard clk crypto hdr s (rw_slots win1 ! j) c = (b, c1)" by fastforce
    let ?b = "rw_slots win1 ! j"
    have b: "c \<le> c1 \<and> (0 < rb_recv_count ?b \<longrightarrow> 0 < rb_recv_count b \<and> rb_block_id b = rb_block_id ?b \<and> rb_first_recv_us b = rb_first_recv_us ?b)"
      using st store_shard_accept[of ?b hdr clk crypto s c] store_shard_reject[of ?b hdr clk crypto s c]
      by (cases "accepts ?b hdr") auto
    have "same_age i win1 (set_slot j b win1)"
      using k b window_okD(4)[OF rx_find_ok[OF assms(1) Pair] assms(2)] by (intro set_same_age) (auto simp: occupied_def)
    then have "same_age i win (set_slot j b win1)" using k by (simp add: same_age_def)
    then show ?thesis using b insert_some[OF Pair[unfolded Some] st] assms(4) by simp
  qed
qed

lemma try_decode_same_age:
  assumes "window_ok ws win" "i < ws" "occupied win i" "rx_window_try_decode junk out ws bid k win = (r, win', pkts)"
  shows "same_age i win win'"
proof (cases "rx_find win bid ws")
  case (Pair r1 win1)
  note k = find_same_age[OF assms(1) Pair assms(2,3)]
  show ?thesis
  proof (cases r1)
    case None
    then show ?thesis using assms(4) Pair k by (auto simp: rx_window_try_decode_def same_age_def)
  next
    case (Some j)
    obtain r2 b ps where td: "try_decode junk out k (rw_slots win1 ! j) = (r2, b, ps)" by (metis prod_cases3)
    let ?b = "rw_slots win1 ! j"
    have b: "rb_recv_count b = rb_recv_count ?b \<and> rb_block_id b = rb_block_id ?b \<and> rb_first_recv_us b = rb_first_recv_us ?b"
      using td by (auto simp: try_decode_def split: if_splits option.splits)
    have "same_age i win1 (set_slot j b win1)"
      using k b window_okD(4)[OF rx_find_ok[OF assms(1) Pair] assms(2)] by (intro set_same_age) (auto simp: occupied_def)
    then have "same_age i win (set_slot j b win1)" using k by (simp add: same_age_def)
    then show ?thesis using assms(4) Pair Some td by (simp add: rx_window_try_decode_def)
  qed
qed

text \<open>The next shard frees the slot at the base when its time is over, whatever block it is of.\<close>

lemma timeout_frees_base:
  assumes ses: "session H ws win" "H < 2 ^ 30" and s: "shard_arrays s" and bid: "unat (h_block_id hdr) \<le> H"
    and i: "i < ws" "occupied win i" "rb_block_id (rw_slots win ! i) = rw_base_id win"
    and over: "\<forall>c' \<ge> c. RX_BLOCK_TIMEOUT_US \<le> clk c' - rb_first_recv_us (rw_slots win ! i)"
  shows "\<exists>r win' c' pkts. rx_on_shard clk crypto junk out ws hdr s (win, c) = Some (r, win', c', pkts) \<and> \<not> occupied win' i"
proof -
  obtain r win1 c1 win2 pkts d win3 c3 where ins: "rx_window_insert clk crypto ws hdr s (win, c) = (win1, c1)"
    and td: "rx_window_try_decode junk out ws (h_block_id hdr) (unat (h_k hdr)) win1 = (r, win2, pkts)"
    and adv: "rx_window_advance clk ws (win2, c1) = Some (win3, c3)"
    and on: "rx_on_shard clk crypto junk out ws hdr s (win, c) = Some (r, win3, c3, pkts)"
    and ok1: "window_ok ws win1" and s2: "session H ws win2" and add: "only_adds ws (h_block_id hdr) win win2"
    by (rule on_shard_total[OF ses s bid])
  have ok: "window_ok ws win" and ok2: "window_ok ws win2" using ses(1) s2 by (simp_all add: session_def)
  note a1 = insert_same_age[OF ok i(1,2) ins]
  have o1: "occupied win1 i" using a1 by (simp add: same_age_def)
  note a2 = try_decode_same_age[OF ok1 i(1) o1 td]
  have base: "rw_base_id win2 = rw_base_id win" using add by (simp add: only_adds_def)
  have i2: "occupied win2 i" "rb_block_id (rw_slots win2 ! i) = rw_base_id win2"
    "RX_BLOCK_TIMEOUT_US \<le> clk c1 - rb_first_recv_us (rw_slots win2 ! i)"
    using a1 a2 over i(3) base by (simp_all add: same_age_def)
  let ?w = "next_base (set_slot i zero_block win2)"
  obtain c2 where once: "advance_once clk ws (win2, c1) = (True, ?w, c2)"
    using advance_once_base[OF ok2 i(1) i2(1,2), of clk c1] i2(3) by (auto simp: Let_def)
  have go: "rx_window_advance clk ws (?w, c2) = Some (win3, c3)"
    using adv once by (subst (asm) rx_window_advance.simps) simp
  have "near ws (Suc (H + 1 - unat (rw_base_id win2))) win2"
  proof -
    have b: "unat (rw_base_id win2) \<le> H + 1" using s2 by (simp add: session_def)
    have "ahead win2 (rb_block_id (rw_slots win2 ! j)) =
        int (unat (rb_block_id (rw_slots win2 ! j))) - int (unat (rw_base_id win2))"
      and "unat (rb_block_id (rw_slots win2 ! j)) \<le> H" if "j < ws" "occupied win2 j" for j
      using s2 ses(2) that b by (auto simp: session_def simp del: of_nat_unat intro!: ahead_session)
    then show ?thesis unfolding near_def using b ses(2) by (intro allI impI) (force simp: of_nat_diff simp del: of_nat_unat)
  qed
  then have "near ws (H + 1 - unat (rw_base_id win2)) ?w" by (intro near_next near_clear)
  then obtain d' win' c' where "rx_window_advance clk ws (?w, c2) = Some (win', c')" "moved ws d' ?w win'"
    using advance_terminates by blast
  then have "moved ws d' ?w win3" using go by simp
  then have "rw_slots win3 ! i = rw_slots ?w ! i \<or> rw_slots win3 ! i = zero_block" by (auto simp: moved_def)
  then have "rw_slots win3 ! i = zero_block" using window_okD(4)[OF ok2 i(1)] by (simp add: slot_set)
  then have "\<not> occupied win3 i" by (simp add: occupied_def)
  then show ?thesis using on by blast
qed

section \<open>Properties\<close>

text \<open>C11: In a session of up to \<open>2 ^ 30\<close> blocks every shard is processed: no loop runs for ever, and after
  any sequence of arrivals from the start the window is well formed (all arrays of the right size, the
  count of a slot is the number of its received flags, no block has two slots), and the window is not clogged: one
  of its slots is free or holds the block at the base. The block at the base does not stay there: when its time-out
  is over at the clock readings that follow, the next shard of the session, of whatever block, frees its slot.\<close>

theorem receiver_always_returns:
  assumes "ws \<le> MAX_WINDOW" "H < 2 ^ 30" "\<forall>e \<in> set es. in_session H e"
  shows "\<exists>win c. fold (window_step clk crypto ws) es (Some (rx_window_init, 0)) = Some (win, c) \<and>
    length (rw_slots win) = MAX_WINDOW \<and> (\<forall>i < MAX_WINDOW. rx_block_ok (rw_slots win ! i)) \<and>
    (\<forall>i < ws. \<forall>j < ws. occupied win i \<longrightarrow> occupied win j \<longrightarrow>
       rb_block_id (rw_slots win ! i) = rb_block_id (rw_slots win ! j) \<longrightarrow> i = j) \<and>
    (ws = 0 \<or> (\<exists>i < ws. \<not> occupied win i \<or> rb_block_id (rw_slots win ! i) = rw_base_id win)) \<and>
    (\<forall>i < ws. \<forall>e. occupied win i \<and> rb_block_id (rw_slots win ! i) = rw_base_id win \<and>
       (\<forall>c' \<ge> c. RX_BLOCK_TIMEOUT_US \<le> clk c' - rb_first_recv_us (rw_slots win ! i)) \<and> in_session H e \<longrightarrow>
       (\<exists>win' c'. window_step clk crypto ws e (Some (win, c)) = Some (win', c') \<and> \<not> occupied win' i))"
proof -
  have "receiving H ws (fold (window_step clk crypto ws) es (Some (rx_window_init, 0)))"
    using assms by (intro receiver.inv_run) (auto simp: window_start_def)
  then obtain win c where r: "fold (window_step clk crypto ws) es (Some (rx_window_init, 0)) = Some (win, c)"
    "session H ws win" "none_newer ws win" "ws = 0 \<or> open_slot ws win" by (auto simp: receiving_def)
  have "ws = 0 \<or> (\<exists>i < ws. \<not> occupied win i \<or> rb_block_id (rw_slots win ! i) = rw_base_id win)"
    using r(4) open_at_base[OF _ r(3)] by blast
  moreover have "\<exists>win' c'. window_step clk crypto ws e (Some (win, c)) = Some (win', c') \<and> \<not> occupied win' i"
    if "i < ws" "occupied win i \<and> rb_block_id (rw_slots win ! i) = rw_base_id win \<and>
       (\<forall>c' \<ge> c. RX_BLOCK_TIMEOUT_US \<le> clk c' - rb_first_recv_us (rw_slots win ! i)) \<and> in_session H e" for i e
  proof -
    obtain junk out hdr s where e: "e = (junk, out, hdr, s)" by (metis prod_cases4)
    have a: "shard_arrays s" "unat (h_block_id hdr) \<le> H" using that(2) by (simp_all add: e in_session_def)
    show ?thesis using timeout_frees_base[OF r(2) assms(2) a that(1), of c clk crypto junk out] that(2)
      by (auto simp: window_step_def e)
  qed
  ultimately show ?thesis using r(1,2) by (auto simp: session_def window_ok_def)
qed

text \<open>A shard with one byte of a block of one packet.\<close>

definition demo_header :: "u32 \<Rightarrow> wire_header" where
  "demo_header b = \<lparr>h_magic = WIRE_MAGIC, h_version = WIRE_VERSION, h_type = TYPE_DATA, h_block_id = b,
     h_shard_idx = 0, h_k = 2, h_n = 3, h_reserved = 0, h_payload_len = 1\<rparr>"

definition no_junk :: gj where "no_junk = \<lparr>mat = [], dat = [], dlen = []\<rparr>"

definition demo_arrival :: "u32 \<Rightarrow> arrival" where
  "demo_arrival b = (no_junk, ([], []), demo_header b, zero_shard)"

text \<open>One shard of block 0 is waiting in slot 0; more than the time-out passes before the next reading.\<close>

definition demo_clock :: "nat \<Rightarrow> u64" where "demo_clock c = (if c < 2 then 0 else 60000)"

definition waiting_window :: rx_window where
  "waiting_window = set_slot 0 (zero_block\<lparr>rb_block_id := 0, rb_received := (replicate MAX_N False)[0 := True],
     rb_recv_count := 1\<rparr>) rx_window_init"

lemma waiting_slots: "rw_slots waiting_window ! i =
    (if i = 0 then zero_block\<lparr>rb_received := (replicate MAX_N False)[0 := True], rb_recv_count := 1\<rparr> else rw_slots rx_window_init ! i)"
  "rw_base_id waiting_window = 0"
  by (simp_all add: waiting_window_def slot_set rx_window_init_def limits zero_block_def)

lemma demo_first_shard:
  "window_step demo_clock (crypto_init None) 8 (demo_arrival 0) (Some (rx_window_init, 0)) = Some (waiting_window, 2)"
proof -
  let ?b = "zero_block\<lparr>rb_received := (replicate MAX_N False)[0 := True], rb_recv_count := 1\<rparr>"
  have ok: "window_ok 8 rx_window_init" by (rule window_init_ok) (simp add: limits)
  have free: "rb_recv_count (rw_slots rx_window_init ! i) = 0" if "i < 16" for i
    using that by (simp add: rx_window_init_def limits zero_block_def)
  have base: "rw_base_id rx_window_init = 0" by (simp add: rx_window_init_def)
  have zero: "rw_slots rx_window_init ! 0 = zero_block" "zero_block\<lparr>rb_block_id := 0\<rparr> = zero_block"
    by (simp_all add: rx_window_init_def limits zero_block_def)
  have none: "find (\<lambda>i. rb_recv_count (rw_slots rx_window_init ! i) > 0 \<and> rb_block_id (rw_slots rx_window_init ! i) = 0) [0..<8] = None"
    by (auto simp: find_None_iff free)
  have first: "find (\<lambda>i. rb_recv_count (rw_slots rx_window_init ! i) = 0) [0..<8] = Some 0"
    by (simp add: upt_conv_Cons free)
  have f1: "rx_find rx_window_init 0 8 = (Some 0, rx_window_init)"
    using zero set_slot_same[of rx_window_init 0 zero_block] by (simp add: rx_find_def none first ahead_def base)
  have acc: "accepts zero_block (demo_header 0)"
    by (simp add: accepts_def demo_header_def zero_block_def limits)
  have same: "(replicate MAX_N zero_shard)[0 := zero_shard] = replicate MAX_N zero_shard"
    using list_update_id[of "replicate MAX_N zero_shard" 0] by (simp add: limits)
  have st: "store_shard demo_clock (crypto_init None) (demo_header 0) zero_shard zero_block 0 = (?b, 1)"
    using store_shard_accept[OF acc, of demo_clock "crypto_init None" zero_shard 0]
    by (simp add: decrypted_def crypto_init_def demo_header_def zero_block_def demo_clock_def same)
  have ins: "rx_window_insert demo_clock (crypto_init None) 8 (demo_header 0) zero_shard (rx_window_init, 0) = (waiting_window, 1)"
    using f1 st zero by (simp add: rx_window_insert_def demo_header_def waiting_window_def)
  have ok1: "window_ok 8 waiting_window" by (rule insert_ok[OF ok zero_shard_arrays ins])
  have at: "occupied waiting_window 0" "rb_block_id (rw_slots waiting_window ! 0) = rw_base_id waiting_window"
    by (simp_all add: occupied_def waiting_slots zero_block_def)
  have f2: "rx_find waiting_window 0 8 = (Some 0, waiting_window)"
    by (rule rx_find_hit[OF ok1 _ at(1)]) (simp_all add: waiting_slots zero_block_def ahead_def)
  have td: "rx_window_try_decode no_junk ([], []) 8 0 2 waiting_window = (False, waiting_window, [])"
    using f2 by (simp add: rx_window_try_decode_def try_decode_def decodes_now_def waiting_slots zero_block_def set_slot_same)
  have "none_newer 8 waiting_window"
    by (auto simp: none_newer_def occupied_def waiting_slots free ahead_def zero_block_def split: if_splits)
  then have "advance_once demo_clock 8 (waiting_window, 1) = (False, waiting_window, 2)"
    using advance_once_base[OF ok1 _ at, of demo_clock 1]
    by (simp add: waiting_slots zero_block_def demo_clock_def RX_BLOCK_TIMEOUT_US_def)
  then have adv: "rx_window_advance demo_clock 8 (waiting_window, 1) = Some (waiting_window, 2)"
    by (subst rx_window_advance.simps) simp
  have h: "h_block_id (demo_header 0) = 0" "unat (h_k (demo_header 0)) = 2" by (simp_all add: demo_header_def)
  show ?thesis using adv by (simp add: window_step_def demo_arrival_def rx_on_shard_def ins h td)
qed

theorem receiver_always_returns_witness:
  "\<exists>win c. fold (window_step demo_clock (crypto_init None) 8) [demo_arrival 0] (Some (rx_window_init, 0)) = Some (win, c) \<and>
     length (rw_slots win) = MAX_WINDOW \<and> occupied win 0 \<and>
     (\<exists>win' c'. window_step demo_clock (crypto_init None) 8 (demo_arrival 5) (Some (win, c)) = Some (win', c') \<and> \<not> occupied win' 0)"
proof -
  have s: "in_session 5 (demo_arrival 0)" "in_session 5 (demo_arrival 5)"
    by (simp_all add: demo_arrival_def demo_header_def in_session_def zero_shard_arrays)
  have run: "fold (window_step demo_clock (crypto_init None) 8) [demo_arrival 0] (Some (rx_window_init, 0)) = Some (waiting_window, 2)"
    by (simp add: demo_first_shard)
  have at: "occupied waiting_window 0" "rb_block_id (rw_slots waiting_window ! 0) = rw_base_id waiting_window"
    "\<forall>c' \<ge> 2. RX_BLOCK_TIMEOUT_US \<le> demo_clock c' - rb_first_recv_us (rw_slots waiting_window ! 0)"
    by (simp_all add: occupied_def waiting_slots zero_block_def demo_clock_def RX_BLOCK_TIMEOUT_US_def)
  have h: "8 \<le> MAX_WINDOW" "(5 :: nat) < 2 ^ 30" "\<forall>e \<in> set [demo_arrival 0]. in_session 5 e"
    using s(1) by (simp_all add: limits)
  obtain win c where r: "fold (window_step demo_clock (crypto_init None) 8) [demo_arrival 0] (Some (rx_window_init, 0)) = Some (win, c)"
    "length (rw_slots win) = MAX_WINDOW"
    "\<forall>i < 8. \<forall>e. occupied win i \<and> rb_block_id (rw_slots win ! i) = rw_base_id win \<and>
       (\<forall>c' \<ge> c. RX_BLOCK_TIMEOUT_US \<le> demo_clock c' - rb_first_recv_us (rw_slots win ! i)) \<and> in_session 5 e \<longrightarrow>
       (\<exists>win' c'. window_step demo_clock (crypto_init None) 8 e (Some (win, c)) = Some (win', c') \<and> \<not> occupied win' i)"
    using receiver_always_returns[OF h, of demo_clock "crypto_init None"] by (elim exE conjE) (rule that)
  have w: "win = waiting_window" "c = 2" using r(1) run by simp_all
  show ?thesis using r(1,2) spec[OF r(3)[THEN spec, of 0, THEN mp], of "demo_arrival 5"] at s(2) unfolding w by fastforce
qed

text \<open>C12: The loop of \<open>rx_window_advance\<close> ends when the occupied slots are less than \<open>m\<close> ahead of the base and
  at most \<open>2 ^ 31 - m\<close> behind it (so that their signed 32-bit distance does not wrap while the base moves), after at
  most \<open>m\<close> steps of the base, and then no occupied slot is ahead of it.\<close>

theorem advance_loop_ends:
  assumes "near ws m win"
  shows "\<exists>win' c' d. rx_window_advance clk ws (win, c) = Some (win', c') \<and> d \<le> m \<and>
    rw_base_id win' = rw_base_id win + of_nat d \<and>
    (\<forall>i < ws. occupied win' i \<longrightarrow> ahead win' (rb_block_id (rw_slots win' ! i)) \<le> 0)"
  using advance_terminates[OF assms, of clk c] by (auto simp: moved_def none_newer_def)

theorem advance_loop_ends_witness:
  "\<exists>win' c' d. rx_window_advance (\<lambda>_. 0) 8 (set_slot 0 (zero_block\<lparr>rb_block_id := 3, rb_recv_count := 1\<rparr>) rx_window_init, 0) =
     Some (win', c') \<and> d \<le> 4 \<and> rw_base_id win' = of_nat d"
proof -
  let ?w = "set_slot 0 (zero_block\<lparr>rb_block_id := 3, rb_recv_count := 1\<rparr>) rx_window_init"
  have "near 8 4 ?w"
    by (auto simp: near_def occupied_def slot_set rx_window_init_def limits zero_block_def ahead_def nth_Cons')
  from advance_loop_ends[OF this, of "\<lambda>_. 0" 0] show ?thesis by (auto simp: rx_window_init_def)
qed

text \<open>C17: A shard that arrives twice counts once: inserting it again, with whatever content, changes nothing.\<close>

theorem duplicate_shard_ignored:
  assumes "window_ok ws win" "shard_arrays s" "rx_window_insert clk crypto ws hdr s (win, c) = (win1, c1)"
  shows "rx_window_insert clk crypto ws hdr s' (win1, c1) = (win1, c1)"
proof -
  obtain r win0 where f: "rx_find win (h_block_id hdr) ws = (r, win0)" by fastforce
  show ?thesis
  proof (cases r)
    case None
    then have "win1 = win" using f assms(3) by (auto simp: rx_window_insert_def elim: rx_find_cases)
    then show ?thesis using f None by (auto simp: rx_window_insert_def elim: rx_find_cases)
  next
    case (Some i)
    note fs = rx_find_slot[OF assms(1) f[unfolded Some]] and ok0 = rx_find_ok[OF assms(1) f]
    obtain b where st: "store_shard clk crypto hdr s (rw_slots win0 ! i) c = (b, c1)" and w: "win1 = set_slot i b win0"
      using assms(3) f Some by (auto simp: rx_window_insert_def split: prod.splits)
    note sb = store_shard_ok[OF window_okD(3)[OF ok0 fs(1)] assms(2) st]
    have rej: "\<not> accepts b hdr" by (rule stored_rejects[OF window_okD(3)[OF ok0 fs(1)] st])
    have at: "rw_slots win1 ! i = b" using window_okD(4)[OF ok0 fs(1)] by (simp add: w slot_set)
    have again: ?thesis if "rx_find win1 (h_block_id hdr) ws = (Some i, win2)" "rw_slots win2 ! i = b" "set_slot i b win2 = win1" for win2
      using insert_some[OF that(1)] store_shard_reject[OF rej] that(2,3) by simp
    have ah: "0 \<le> ahead win1 (h_block_id hdr)" "ahead win1 (h_block_id hdr) < int ws"
      using fs(3-5) by (simp_all add: w ahead_def)
    show ?thesis
    proof (cases "occupied win1 i")
      case True
      have "rx_find win1 (h_block_id hdr) ws = (Some i, win1)"
        using rx_find_hit[OF insert_ok[OF assms(1,2,3)] fs(1) True _ ah] sb(2) fs(2) at by simp
      then show ?thesis using at set_slot_same by (intro again) auto
    next
      case False
      then have "\<not> accepts (rw_slots win0 ! i) hdr"
        using st at store_shard_accept[of "rw_slots win0 ! i" hdr clk crypto s c] by (auto simp: occupied_def)
      then have "b = rw_slots win0 ! i" using st by (simp add: store_shard_reject)
      then have eq: "win1 = win0" using w by (simp add: set_slot_same)
      have "rx_find win1 (h_block_id hdr) ws = (Some i, win1)"
        unfolding eq by (rule free_again[OF f[unfolded Some] window_okD(4)[OF assms(1) fs(1)]]) (use False eq in simp)
      then show ?thesis using at set_slot_same by (intro again) auto
    qed
  qed
qed


theorem duplicate_shard_ignored_witness:
  "\<exists>win1 c1. rx_window_insert (\<lambda>_. 7) (crypto_init None) 8 (demo_header 3) zero_shard (rx_window_init, 0) = (win1, c1) \<and>
     rx_window_insert (\<lambda>_. 7) (crypto_init None) 8 (demo_header 3) (zero_shard\<lparr>len := 9\<rparr>) (win1, c1) = (win1, c1)"
proof -
  obtain win1 c1 where i: "rx_window_insert (\<lambda>_. 7) (crypto_init None) 8 (demo_header 3) zero_shard (rx_window_init, 0) = (win1, c1)"
    by fastforce
  have "window_ok 8 rx_window_init" by (rule window_init_ok) (simp add: limits)
  from duplicate_shard_ignored[OF this zero_shard_arrays i] i show ?thesis by blast
qed

text \<open>C13: Reordering loses blocks: when a shard of a newer block has arrived, the next advance moves the base
  past a block that is still incomplete and has not timed out; its slot then stays occupied for ever and
  no later shard of the session changes it or brings a packet of it.\<close>

theorem overtaken_block_is_lost:
  assumes "session H ws win" "H < 2 ^ 30"
    and "i < ws" "occupied win i" "rb_block_id (rw_slots win ! i) = rw_base_id win"
    and "\<not> rb_decoded (rw_slots win ! i)" "\<not> clk c - rb_first_recv_us (rw_slots win ! i) \<ge> RX_BLOCK_TIMEOUT_US"
    and "j < ws" "occupied win j" "0 < ahead win (rb_block_id (rw_slots win ! j))"
    and "\<forall>e \<in> set es. in_session H e"
  shows "\<exists>win1 c1 win2 c2 pkts. rx_window_advance clk ws (win, c) = Some (win1, c1) \<and>
    rx_run clk crypto ws es (win1, c1) = Some (win2, c2, pkts) \<and>
    rw_slots win2 ! i = rw_slots win ! i \<and> ahead win2 (rb_block_id (rw_slots win ! i)) < 0"
proof -
  obtain win1 c1 where a: "rx_window_advance clk ws (win, c) = Some (win1, c1)" "session H ws win1"
    "stuck win1 i" "rw_slots win1 ! i = rw_slots win ! i" using overtaken[where clk = clk and c = c, OF assms(1-10)] by blast
  obtain win2 c2 pkts where "rx_run clk crypto ws es (win1, c1) = Some (win2, c2, pkts)"
    "stuck win2 i" "rw_slots win2 ! i = rw_slots win1 ! i"
    using rx_run_session[OF a(2) assms(2,11), of clk crypto c1] a(3) assms(3) by blast
  then show ?thesis using a by (auto simp: stuck_def)
qed

text \<open>Block 0 has one shard, block 1 has one: nothing has timed out.\<close>

definition demo_window :: rx_window where
  "demo_window = set_slot 1 (zero_block\<lparr>rb_block_id := 1, rb_received := True # replicate 31 False, rb_recv_count := 1\<rparr>)
     (set_slot 0 (zero_block\<lparr>rb_block_id := 0, rb_received := True # replicate 31 False, rb_recv_count := 1\<rparr>) rx_window_init)"

lemma demo_slots: "rw_slots demo_window = [
    zero_block\<lparr>rb_block_id := 0, rb_received := True # replicate 31 False, rb_recv_count := 1\<rparr>,
    zero_block\<lparr>rb_block_id := 1, rb_received := True # replicate 31 False, rb_recv_count := 1\<rparr>] @ replicate 14 zero_block"
  by (simp add: demo_window_def set_slot_def rx_window_init_def limits eval_nat_numeral)

lemma demo_block_ok: "rx_block_ok (zero_block\<lparr>rb_block_id := b, rb_received := True # replicate 31 False, rb_recv_count := 1\<rparr>)"
proof -
  have "filter (\<lambda>j. (True # replicate 31 False) ! j) [0..<32] = [0]" by code_simp
  then show ?thesis using zero_block_ok' by (simp add: rx_block_ok_def MAX_N_def)
qed

lemma demo_session: "session 1 8 demo_window"
proof -
  have "window_ok 8 demo_window"
    unfolding demo_window_def
    by (intro window_ok_set window_init_ok demo_block_ok)
      (auto simp: occupied_def slot_set rx_window_init_def limits zero_block_def split: if_splits)
  moreover have "unat (rb_block_id (rw_slots demo_window ! i)) \<le> 1" if "i < 8" "occupied demo_window i" for i
    using that by (auto simp: demo_slots occupied_def nth_Cons' zero_block_def nth_append split: if_splits)
  ultimately show ?thesis by (simp add: session_def demo_window_def rx_window_init_def)
qed

theorem overtaken_block_is_lost_witness:
  "\<exists>win1 c1 win2 c2 pkts. rx_window_advance (\<lambda>_. 0) 8 (demo_window, 0) = Some (win1, c1) \<and>
    rx_run (\<lambda>_. 0) (crypto_init None) 8 [demo_arrival 0, demo_arrival 1] (win1, c1) = Some (win2, c2, pkts) \<and>
    rw_slots win2 ! 0 = rw_slots demo_window ! 0"
proof -
  have b: "rw_base_id demo_window = 0" by (simp add: demo_window_def rx_window_init_def)
  have "\<forall>e \<in> set [demo_arrival 0, demo_arrival 1]. in_session 1 e"
    by (simp add: demo_arrival_def demo_header_def in_session_def zero_shard_arrays)
  from overtaken_block_is_lost[OF demo_session, of 0 "\<lambda>_. 0" 0 1, OF _ _ _ _ _ _ _ _ _ this, of "crypto_init None"]
  show ?thesis
    by (simp add: demo_slots occupied_def b ahead_def zero_block_def RX_BLOCK_TIMEOUT_US_def) blast
qed


text \<open>C14: A receiver that starts when the sender has already sent \<open>window_size\<close> blocks never delivers
  anything: its window starts at block 0, every shard with a higher identifier is outside it, and a shard
  outside the window does not move it.\<close>

theorem late_receiver_is_deaf:
  assumes "ws \<le> MAX_WINDOW" "\<forall>(junk, out, hdr, s) \<in> set es. ws \<le> unat (h_block_id hdr)"
  shows "rx_run clk crypto ws es (rx_window_init, c) = Some (rx_window_init, c, [])"
proof (rule deaf)
  show "quiet_window ws rx_window_init"
    using assms(1) by (auto simp: quiet_window_def rx_window_init_def occupied_def)
  show "\<forall>e \<in> set es. beyond ws rx_window_init e"
  proof
    fix e assume e: "e \<in> set es"
    obtain junk out hdr s where q: "e = (junk, out, hdr, s)" by (metis prod_cases4)
    have "ws \<le> unat (h_block_id hdr)" using assms(2) e by (auto simp: q)
    then have le: "int ws \<le> int (unat (h_block_id hdr))" by (simp only: of_nat_le_iff)
    have ah: "ahead rx_window_init b = sint b" for b by (simp add: ahead_def rx_window_init_def)
    have sg: "sint b < 0 \<or> sint b = int (unat b)" for b :: u32
    proof (cases "sint b < 0")
      case False
      have "uint b = uint (word_of_int (sint b) :: u32)" by simp
      also have "\<dots> = sint b mod 2 ^ 32" by (simp only: uint_word_of_int) simp
      also have "\<dots> = sint b" using False sint_u32_bounds(2)[of b] by (intro mod_pos_pos_trivial) simp_all
      finally show ?thesis by simp
    qed simp
    show "beyond ws rx_window_init e"
      unfolding beyond_def q prod.case ah using sg[of "h_block_id hdr"] le by linarith
  qed
qed

theorem late_receiver_is_deaf_witness:
  "rx_run (\<lambda>_. 0) (crypto_init None) 8 [demo_arrival 8, demo_arrival 9] (rx_window_init, 0) = Some (rx_window_init, 0, [])"
  by (rule late_receiver_is_deaf) (simp_all add: demo_arrival_def demo_header_def limits)

text \<open>C18: A recovered packet is cut to its own length: for an IPv4 or IPv6 packet, however it is padded,
  \<open>ip_packet_length\<close> is the length of the packet.\<close>

theorem padding_is_cut:
  assumes "is_ipv4 p \<or> is_ipv6 p" "take (length p) row = p" "length p \<le> unat L"
  shows "unat (ip_packet_length row L) = length p \<and> take (unat (ip_packet_length row L)) row = p"
  using assms ip_length_ipv4[OF _ assms(2,3)] ip_length_ipv6[OF _ assms(2,3)] by auto

theorem padding_is_cut_witness:
  "unat (ip_packet_length ([0x45, 0, 0, 21] @ replicate 17 1 @ [0, 0, 0]) 24) = 21"
  using padding_is_cut[of "[0x45, 0, 0, 21] @ replicate 17 1" "[0x45, 0, 0, 21] @ replicate 17 1 @ [0, 0, 0]" 24]
  by (simp add: is_ipv4_def ipv4_total_def)

end
