(* ===== verification/Window.thy ===== *)
theory Window
  imports Rx
begin

text \<open>
  What the receive window of \<open>rx.c\<close> promises: it is a map from block numbers to blocks, with room for
  \<open>window_size\<close> of them. The operations are stated on the map, and the operations of the code on the
  array of slots are shown to implement them: which slot a block is in does not matter.
\<close>

section \<open>The map in the slots\<close>

record block_map =
  bm_blocks :: "u32 \<Rightarrow> rx_block option"
  bm_base :: u32

definition stored :: "nat \<Rightarrow> rx_window \<Rightarrow> u32 \<Rightarrow> rx_block option" where
  "stored ws win bid = map_option (\<lambda>i. rw_slots win ! i)
     (find (\<lambda>i. occupied win i \<and> rb_block_id (rw_slots win ! i) = bid) [0..<ws])"

definition map_of_window :: "nat \<Rightarrow> rx_window \<Rightarrow> block_map" where
  "map_of_window ws win = \<lparr>bm_blocks = stored ws win, bm_base = rw_base_id win\<rparr>"

lemma map_of_window_simps [simp]:
  "bm_blocks (map_of_window ws win) = stored ws win" "bm_base (map_of_window ws win) = rw_base_id win"
  by (simp_all add: map_of_window_def)

lemma stored_Some:
  assumes "window_ok ws win"
  shows "stored ws win bid = Some b \<longleftrightarrow> (\<exists>i < ws. occupied win i \<and> rw_slots win ! i = b \<and> rb_block_id b = bid)"
proof
  assume "\<exists>i < ws. occupied win i \<and> rw_slots win ! i = b \<and> rb_block_id b = bid"
  then obtain i where i: "i < ws" "occupied win i" "rw_slots win ! i = b" "rb_block_id b = bid" by blast
  then obtain j where j: "find (\<lambda>i. occupied win i \<and> rb_block_id (rw_slots win ! i) = bid) [0..<ws] = Some j"
    by (cases "find (\<lambda>i. occupied win i \<and> rb_block_id (rw_slots win ! i) = bid) [0..<ws]") (auto simp: find_None_iff)
  then have "j < ws" "occupied win j" "rb_block_id (rw_slots win ! j) = bid" by (auto simp: find_Some_iff)
  then have "i = j" using window_okD(5)[OF assms] i by blast
  then show "stored ws win bid = Some b" using i j by (simp add: stored_def)
qed (auto simp: stored_def find_Some_iff)

lemma stored_None: "stored ws win bid = None \<longleftrightarrow> (\<forall>i < ws. occupied win i \<longrightarrow> rb_block_id (rw_slots win ! i) \<noteq> bid)"
  by (auto simp: stored_def find_None_iff)

lemma dom_stored: "dom (stored ws win) = (\<lambda>i. rb_block_id (rw_slots win ! i)) ` {i. i < ws \<and> occupied win i}"
  unfolding dom_def by (auto simp: stored_None image_iff)

lemma card_dom_stored:
  assumes "window_ok ws win"
  shows "card (dom (stored ws win)) = card {i. i < ws \<and> occupied win i}"
  unfolding dom_stored using window_okD(5)[OF assms] by (intro card_image inj_onI) auto

text \<open>The array is full when the map has \<open>ws\<close> blocks.\<close>

lemma room_left:
  assumes "window_ok ws win"
  shows "card (dom (stored ws win)) < ws \<longleftrightarrow> (\<exists>i < ws. \<not> occupied win i)"
proof -
  let ?A = "{i. i < ws \<and> occupied win i}"
  have "?A \<subseteq> {..<ws}" by auto
  then have "card ?A < ws \<longleftrightarrow> ?A \<noteq> {..<ws}"
    using card_subset_eq[of "{..<ws}" ?A] card_mono[of "{..<ws}" ?A] by (cases "?A = {..<ws}") auto
  also have "\<dots> \<longleftrightarrow> (\<exists>i < ws. \<not> occupied win i)" by auto
  finally show ?thesis by (simp only: card_dom_stored[OF assms])
qed

text \<open>Writing a slot is an update of the map.\<close>

lemma stored_set:
  assumes ok: "window_ok ws (set_slot i b win)" "window_ok ws win" and i: "i < ws"
    and other: "\<And>j. j < ws \<Longrightarrow> j \<noteq> i \<Longrightarrow> occupied win j \<Longrightarrow> rb_block_id (rw_slots win ! j) \<noteq> bid"
    and same: "occupied win i \<Longrightarrow> rb_block_id (rw_slots win ! i) = bid" and new: "0 < rb_recv_count b \<Longrightarrow> rb_block_id b = bid"
  shows "stored ws (set_slot i b win) =
    (if 0 < rb_recv_count b then (stored ws win)(bid \<mapsto> b) else (stored ws win)(bid := None))"
proof
  fix x
  let ?r = "if 0 < rb_recv_count b then (stored ws win)(bid \<mapsto> b) else (stored ws win)(bid := None)"
  have il: "i < length (rw_slots win)" by (rule window_okD(4)[OF ok(2) i])
  have slot: "rw_slots (set_slot i b win) ! j = (if j = i then b else rw_slots win ! j)" for j using il by (simp add: slot_set)
  have occ: "occupied (set_slot i b win) j = (if j = i then 0 < rb_recv_count b else occupied win j)" for j
    using il by (simp add: occupied_def slot_set)
  show "stored ws (set_slot i b win) x = ?r x"
  proof (cases "0 < rb_recv_count b \<and> x = bid")
    case True
    then have "stored ws (set_slot i b win) x = Some b" using i new by (auto simp: stored_Some[OF ok(1)] slot occ)
    then show ?thesis using True by simp
  next
    case False
    have "stored ws (set_slot i b win) x = Some b' \<longleftrightarrow> x \<noteq> bid \<and> stored ws win x = Some b'" for b'
    proof (cases "x = bid")
      case True
      then have "\<not> (\<exists>j < ws. occupied (set_slot i b win) j \<and> rw_slots (set_slot i b win) ! j = b' \<and> rb_block_id b' = x)"
        using False other by (auto simp: slot occ)
      then show ?thesis using True by (simp add: stored_Some[OF ok(1)])
    next
      case xb: False
      have "(j < ws \<and> occupied (set_slot i b win) j \<and> rw_slots (set_slot i b win) ! j = b' \<and> rb_block_id b' = x) \<longleftrightarrow>
          (j < ws \<and> occupied win j \<and> rw_slots win ! j = b' \<and> rb_block_id b' = x)" for j
        using xb same new by (cases "j = i") (auto simp: slot occ)
      then show ?thesis using xb by (simp add: stored_Some[OF ok(1)] stored_Some[OF ok(2)])
    qed
    then have "stored ws (set_slot i b win) x = (if x = bid then None else stored ws win x)" by (metis option.exhaust option.simps(3))
    then show ?thesis using False by auto
  qed
qed

section \<open>The operations on the map\<close>

definition map_ahead :: "block_map \<Rightarrow> u32 \<Rightarrow> int" where
  "map_ahead m bid = sint (bid - bm_base m)"

definition in_reach :: "nat \<Rightarrow> block_map \<Rightarrow> u32 \<Rightarrow> bool" where
  "in_reach ws m bid \<longleftrightarrow> 0 \<le> map_ahead m bid \<and> map_ahead m bid < int ws"

definition put :: "u32 \<Rightarrow> rx_block \<Rightarrow> block_map \<Rightarrow> block_map" where
  "put bid b m = m\<lparr>bm_blocks := (bm_blocks m)(bid \<mapsto> b)\<rparr>"

definition remove_block :: "u32 \<Rightarrow> block_map \<Rightarrow> block_map" where
  "remove_block bid m = m\<lparr>bm_blocks := (bm_blocks m)(bid := None)\<rparr>"

definition up :: "block_map \<Rightarrow> block_map" where
  "up m = m\<lparr>bm_base := bm_base m + 1\<rparr>"

definition has_room :: "nat \<Rightarrow> block_map \<Rightarrow> bool" where
  "has_room ws m \<longleftrightarrow> card (dom (bm_blocks m)) < ws"

definition map_insert ::
  "(nat \<Rightarrow> u64) \<Rightarrow> crypto_ctx \<Rightarrow> nat \<Rightarrow> wire_header \<Rightarrow> shard \<Rightarrow> block_map \<times> nat \<Rightarrow> block_map \<times> nat" where
  "map_insert clk crypto ws hdr s = (\<lambda>(m, c).
     let bid = h_block_id hdr in
     if \<not> in_reach ws m bid then (m, c)
     else case bm_blocks m bid of
       Some b \<Rightarrow> (case store_shard clk crypto hdr s b c of (b, c) \<Rightarrow> (put bid b m, c))
     | None \<Rightarrow>
         if has_room ws m \<and> unat (h_shard_idx hdr) < MAX_N
         then (case store_shard clk crypto hdr s (zero_block\<lparr>rb_block_id := bid\<rparr>) c of (b, c) \<Rightarrow> (put bid b m, c))
         else (m, c))"

text \<open>A block without shards is not in the map; with \<open>k = 0\<close> it counts as decoded all the same.\<close>

definition map_try_decode ::
  "gj \<Rightarrow> bytes list \<times> u16 list \<Rightarrow> nat \<Rightarrow> u32 \<Rightarrow> nat \<Rightarrow> block_map \<Rightarrow> bool \<times> block_map \<times> bytes list" where
  "map_try_decode junk out ws bid k m =
     (if \<not> in_reach ws m bid then (False, m, [])
      else case bm_blocks m bid of
        Some b \<Rightarrow> (case try_decode junk out k b of (r, b, pkts) \<Rightarrow> (r, put bid b m, pkts))
      | None \<Rightarrow> (has_room ws m \<and> k = 0, m, []))"

definition map_newer :: "block_map \<Rightarrow> bool" where
  "map_newer m \<longleftrightarrow> (\<exists>bid \<in> dom (bm_blocks m). 0 < map_ahead m bid)"

definition map_advance_once :: "(nat \<Rightarrow> u64) \<Rightarrow> block_map \<times> nat \<Rightarrow> bool \<times> block_map \<times> nat" where
  "map_advance_once clk = (\<lambda>(m, c).
     case bm_blocks m (bm_base m) of
       None \<Rightarrow> (map_newer m, if map_newer m then up m else m, c)
     | Some b \<Rightarrow>
         let c' = (if rb_decoded b then c else c + 1) in
         if rb_decoded b \<or> clk c - rb_first_recv_us b \<ge> RX_BLOCK_TIMEOUT_US
         then (True, up (remove_block (bm_base m) m), c')
         else (map_newer m, if map_newer m then up m else m, c'))"

partial_function (option) map_advance :: "(nat \<Rightarrow> u64) \<Rightarrow> block_map \<times> nat \<Rightarrow> (block_map \<times> nat) option" where
  "map_advance clk st =
     (case map_advance_once clk st of (found, st') \<Rightarrow> if found then map_advance clk st' else Some st')"

definition map_on_shard ::
  "(nat \<Rightarrow> u64) \<Rightarrow> crypto_ctx \<Rightarrow> nat \<Rightarrow> arrival \<Rightarrow> block_map \<times> nat \<Rightarrow> (bool \<times> block_map \<times> nat \<times> bytes list) option" where
  "map_on_shard clk crypto ws = (\<lambda>(junk, out, hdr, s) st.
     case map_insert clk crypto ws hdr s st of (m1, c1) \<Rightarrow>
     case map_try_decode junk out ws (h_block_id hdr) (unat (h_k hdr)) m1 of (r, m2, pkts) \<Rightarrow>
       map_option (\<lambda>(m3, c3). (r, m3, c3, pkts)) (map_advance clk (m2, c1)))"

fun map_run ::
  "(nat \<Rightarrow> u64) \<Rightarrow> crypto_ctx \<Rightarrow> nat \<Rightarrow> arrival list \<Rightarrow> block_map \<times> nat \<Rightarrow> (block_map \<times> nat \<times> bytes list) option" where
  "map_run clk crypto ws [] (m, c) = Some (m, c, [])"
| "map_run clk crypto ws (e # es) st =
     (case map_on_shard clk crypto ws e st of
        None \<Rightarrow> None
      | Some (r, m, c, pkts) \<Rightarrow> map_option (\<lambda>(m, c, pkts'). (m, c, pkts @ pkts')) (map_run clk crypto ws es (m, c)))"

section \<open>The slots implement the map\<close>

lemma map_ahead_window [simp]: "map_ahead (map_of_window ws win) bid = ahead win bid"
  by (simp add: map_ahead_def ahead_def)

lemma map_up [simp]: "map_of_window ws (next_base win) = up (map_of_window ws win)"
  by (simp add: map_of_window_def up_def stored_def fun_eq_iff)

lemma in_reach_window: "in_reach ws (map_of_window ws win) bid \<longleftrightarrow> 0 \<le> ahead win bid \<and> ahead win bid < int ws"
  by (simp add: in_reach_def)

lemma map_set:
  assumes ok: "window_ok ws (set_slot i b win)" "window_ok ws win" and i: "i < ws"
    and other: "\<And>j. j < ws \<Longrightarrow> j \<noteq> i \<Longrightarrow> occupied win j \<Longrightarrow> rb_block_id (rw_slots win ! j) \<noteq> bid"
    and same: "occupied win i \<Longrightarrow> rb_block_id (rw_slots win ! i) = bid" and new: "0 < rb_recv_count b \<Longrightarrow> rb_block_id b = bid"
  shows "map_of_window ws (set_slot i b win) =
    (if 0 < rb_recv_count b then put bid b (map_of_window ws win) else remove_block bid (map_of_window ws win))"
  using stored_set[OF assms] by (simp add: map_of_window_def put_def remove_block_def)

text \<open>The three outcomes of \<open>rx_find\<close>, seen on the map.\<close>

lemma find_on_map:
  assumes ok: "window_ok ws win" and f: "rx_find win bid ws = (r, win')"
  obtains (out) "r = None" "win' = win" "\<not> in_reach ws (map_of_window ws win) bid"
  | (full) "r = None" "win' = win" "in_reach ws (map_of_window ws win) bid" "stored ws win bid = None"
      "\<not> has_room ws (map_of_window ws win)"
  | (old) i where "r = Some i" "win' = win" "i < ws" "occupied win i" "in_reach ws (map_of_window ws win) bid"
      "stored ws win bid = Some (rw_slots win ! i)"
  | (fresh) i where "r = Some i" "win' = set_slot i (zero_block\<lparr>rb_block_id := bid\<rparr>) win" "i < ws" "\<not> occupied win i"
      "in_reach ws (map_of_window ws win) bid" "stored ws win bid = None" "has_room ws (map_of_window ws win)"
  using f
proof (cases rule: rx_find_cases)
  case none
  show ?thesis
  proof (cases "in_reach ws (map_of_window ws win) bid")
    case True
    then have a: "\<forall>i < ws. occupied win i" "\<forall>i < ws. rb_block_id (rw_slots win ! i) \<noteq> bid"
      using none(3) by (auto simp: in_reach_window)
    then have "stored ws win bid = None" "\<not> has_room ws (map_of_window ws win)"
      using room_left[OF ok] by (auto simp: stored_None has_room_def)
    with none(1,2) True show ?thesis by (rule full)
  qed (rule out[OF none(1,2)])
next
  case (old i)
  then have "in_reach ws (map_of_window ws win) bid" "stored ws win bid = Some (rw_slots win ! i)"
    by (auto simp: in_reach_window stored_Some[OF ok])
  then show ?thesis by (rule that(3)[OF old(1-4)])
next
  case (fresh i)
  then have "in_reach ws (map_of_window ws win) bid" "stored ws win bid = None" "has_room ws (map_of_window ws win)"
    using room_left[OF ok] by (auto simp: in_reach_window stored_None has_room_def)
  then show ?thesis by (rule that(4)[OF fresh(1-4)])
qed

lemma put_same: "stored ws win bid = Some b \<Longrightarrow> put bid b (map_of_window ws win) = map_of_window ws win"
  by (simp add: put_def map_of_window_def fun_upd_idem)

lemma remove_none: "bm_blocks m bid = None \<Longrightarrow> remove_block bid m = m"
  by (simp add: remove_block_def fun_upd_idem)

lemma put_put [simp]: "put bid b (put bid a m) = put bid b m"
  by (simp add: put_def)

lemma store_shard_id: "rb_block_id (fst (store_shard clk crypto hdr s b c)) = rb_block_id b"
  by (auto simp: store_shard_def stored_at_def Let_def)

lemma store_shard_count: "0 < rb_recv_count b \<or> accepts b hdr \<longleftrightarrow> 0 < rb_recv_count (fst (store_shard clk crypto hdr s b c))"
  using store_shard_accept[of b hdr clk crypto s c] store_shard_reject[of b hdr clk crypto s c] by (cases "accepts b hdr") auto

lemma accepts_fresh: "accepts (zero_block\<lparr>rb_block_id := bid\<rparr>) hdr \<longleftrightarrow> unat (h_shard_idx hdr) < MAX_N"
  by (auto simp: accepts_def zero_block_def)

lemma insert_refines:
  assumes ok: "window_ok ws win" and s: "shard_arrays s"
    and ins: "rx_window_insert clk crypto ws hdr s (win, c) = (win', c')"
  shows "map_insert clk crypto ws hdr s (map_of_window ws win, c) = (map_of_window ws win', c')"
proof -
  let ?bid = "h_block_id hdr" and ?m = "map_of_window ws win"
  obtain r win1 where f: "rx_find win ?bid ws = (r, win1)" by fastforce
  note ok' = insert_ok[OF ok s ins]
  show ?thesis
    using ok f
  proof (cases rule: find_on_map)
    case out
    then show ?thesis using ins f by (simp add: rx_window_insert_def map_insert_def)
  next
    case full
    then show ?thesis using ins f by (simp add: rx_window_insert_def map_insert_def)
  next
    case (old i)
    obtain b c1 where st: "store_shard clk crypto hdr s (rw_slots win ! i) c = (b, c1)" by fastforce
    have w: "win' = set_slot i b win" "c' = c1" using ins f old st by (simp_all add: rx_window_insert_def)
    have id: "rb_block_id (rw_slots win ! i) = ?bid" using old(6) by (auto simp: stored_Some[OF ok])
    then have b: "rb_block_id b = ?bid" using store_shard_id[of clk crypto hdr s "rw_slots win ! i" c] st by simp
    have "0 < rb_recv_count b"
      using store_shard_count[of "rw_slots win ! i" hdr clk crypto s c] st old(4) by (simp add: occupied_def)
    moreover have "rb_block_id (rw_slots win ! j) \<noteq> ?bid" if "j < ws" "j \<noteq> i" "occupied win j" for j
      using window_okD(5)[OF ok that(1) old(3) that(3) old(4)] id b that(2) by auto
    ultimately have "map_of_window ws win' = put ?bid b ?m"
      using map_set[OF ok'[unfolded w(1)] ok old(3)] id b w(1) by simp
    then show ?thesis using old(5,6) st w(2) by (simp add: map_insert_def)
  next
    case (fresh i)
    let ?z = "zero_block\<lparr>rb_block_id := ?bid\<rparr>"
    have il: "i < length (rw_slots win)" by (rule window_okD(4)[OF ok fresh(3)])
    obtain b c1 where st: "store_shard clk crypto hdr s ?z c = (b, c1)" by fastforce
    have w: "win' = set_slot i b win" "c' = c1"
      using ins f fresh st il by (simp_all add: rx_window_insert_def slot_set set_slot_twice)
    have b: "rb_block_id b = ?bid" using store_shard_id[of clk crypto hdr s ?z c] st by simp
    have cnt: "0 < rb_recv_count b \<longleftrightarrow> unat (h_shard_idx hdr) < MAX_N"
      using store_shard_count[of ?z hdr clk crypto s c] st by (simp add: accepts_fresh)
    have "rb_block_id (rw_slots win ! j) \<noteq> ?bid" if "j < ws" "occupied win j" for j
      using fresh(6) that b by (auto simp: stored_None)
    then have "map_of_window ws win' = (if 0 < rb_recv_count b then put ?bid b ?m else ?m)"
      using map_set[OF ok'[unfolded w(1)] ok fresh(3), of ?bid] b w(1) fresh(4,6) by (simp add: remove_none)
    moreover have "c1 = c" if "\<not> unat (h_shard_idx hdr) < MAX_N"
      using st that store_shard_reject[of ?z hdr clk crypto s c] by (simp add: accepts_fresh)
    ultimately show ?thesis using fresh(5-7) st w(2) cnt by (simp add: map_insert_def)
  qed
qed

lemma try_decode_refines:
  assumes ok: "window_ok ws win" and td: "rx_window_try_decode junk out ws bid k win = (r, win', pkts)"
  shows "map_try_decode junk out ws bid k (map_of_window ws win) = (r, map_of_window ws win', pkts)"
proof -
  let ?m = "map_of_window ws win"
  obtain f win1 where f: "rx_find win bid ws = (f, win1)" by fastforce
  note ok' = window_try_decode_ok[OF ok td]
  show ?thesis
    using ok f
  proof (cases rule: find_on_map)
    case out
    then show ?thesis using td f by (simp add: rx_window_try_decode_def map_try_decode_def)
  next
    case full
    then show ?thesis using td f by (simp add: rx_window_try_decode_def map_try_decode_def)
  next
    case (old i)
    obtain r1 b p1 where st: "try_decode junk out k (rw_slots win ! i) = (r1, b, p1)" by (metis prod_cases3)
    have w: "win' = set_slot i b win" "r = r1" "pkts = p1" using td f old st by (simp_all add: rx_window_try_decode_def)
    have id: "rb_block_id (rw_slots win ! i) = bid" using old(6) by (auto simp: stored_Some[OF ok])
    note t = try_decode_ok[OF window_okD(3)[OF ok old(3)] st]
    have "0 < rb_recv_count b" using t(3) old(4) by (simp add: occupied_def)
    moreover have "rb_block_id (rw_slots win ! j) \<noteq> bid" if "j < ws" "j \<noteq> i" "occupied win j" for j
      using window_okD(5)[OF ok that(1) old(3) that(3) old(4)] id t(2) that(2) by auto
    ultimately have "map_of_window ws win' = put bid b ?m"
      using map_set[OF ok'[unfolded w(1)] ok old(3)] id t(2) w(1) by simp
    then show ?thesis using old(5,6) st w(2,3) by (simp add: map_try_decode_def)
  next
    case (fresh i)
    let ?z = "zero_block\<lparr>rb_block_id := bid\<rparr>"
    have il: "i < length (rw_slots win)" by (rule window_okD(4)[OF ok fresh(3)])
    obtain r1 b p1 where st: "try_decode junk out k ?z = (r1, b, p1)" by (metis prod_cases3)
    have w: "win' = set_slot i b win" "r = r1" "pkts = p1"
      using td f fresh st il by (simp_all add: rx_window_try_decode_def slot_set set_slot_twice)
    note t = try_decode_ok[OF zero_block_ok st]
    have r: "r1 = (k = 0) \<and> p1 = []"
      using st by (cases "k = 0") (auto simp: try_decode_def decodes_now_def zero_block_def decode_block_def split: prod.splits)
    have "rb_block_id (rw_slots win ! j) \<noteq> bid" if "j < ws" "occupied win j" for j
      using fresh(6) that t(2) by (auto simp: stored_None)
    then have "map_of_window ws win' = ?m"
      using map_set[OF ok'[unfolded w(1)] ok fresh(3), of bid] t(2,3) w(1) fresh(4,6) by (simp add: remove_none)
    then show ?thesis using fresh(5-7) r w(2,3) by (simp add: map_try_decode_def)
  qed
qed

lemma newer_refines: "map_newer (map_of_window ws win) \<longleftrightarrow> \<not> none_newer ws win"
  by (auto simp: map_newer_def none_newer_def dom_stored not_le)

lemma base_refines:
  assumes "window_ok ws win"
  shows "find (\<lambda>i. occupied win i \<and> rb_block_id (rw_slots win ! i) = rw_base_id win) [0..<ws] = None \<and>
      stored ws win (rw_base_id win) = None \<or>
    (\<exists>i. find (\<lambda>i. occupied win i \<and> rb_block_id (rw_slots win ! i) = rw_base_id win) [0..<ws] = Some i \<and> i < ws \<and>
      occupied win i \<and> rb_block_id (rw_slots win ! i) = rw_base_id win \<and> stored ws win (rw_base_id win) = Some (rw_slots win ! i))"
proof (cases "find (\<lambda>i. occupied win i \<and> rb_block_id (rw_slots win ! i) = rw_base_id win) [0..<ws]")
  case (Some i)
  then have "i < ws" "occupied win i" "rb_block_id (rw_slots win ! i) = rw_base_id win" by (auto simp: find_Some_iff)
  then show ?thesis using Some by (simp add: stored_def)
qed (simp add: stored_def)

lemma clear_refines:
  assumes ok: "window_ok ws win" and i: "i < ws" "occupied win i"
  shows "map_of_window ws (set_slot i zero_block win) = remove_block (rb_block_id (rw_slots win ! i)) (map_of_window ws win)"
    "window_ok ws (set_slot i zero_block win)"
proof -
  show ok': "window_ok ws (set_slot i zero_block win)"
    by (rule window_ok_set[OF ok zero_block_ok']) simp
  have "rb_block_id (rw_slots win ! j) \<noteq> rb_block_id (rw_slots win ! i)" if "j < ws" "j \<noteq> i" "occupied win j" for j
    using window_okD(5)[OF ok that(1) i(1) that(3) i(2)] that(2) by auto
  then show "map_of_window ws (set_slot i zero_block win) =
      remove_block (rb_block_id (rw_slots win ! i)) (map_of_window ws win)"
    using map_set[OF ok' ok i(1)] by simp
qed

lemma advance_once_refines:
  assumes ok: "window_ok ws win" and a: "advance_once clk ws (win, c) = (found, win', c')"
  shows "map_advance_once clk (map_of_window ws win, c) = (found, map_of_window ws win', c')" "window_ok ws win'"
proof -
  have up_ok: "window_ok ws w \<Longrightarrow> window_ok ws (next_base w)" for w by (simp add: window_ok_def)
  from base_refines[OF ok] have "map_advance_once clk (map_of_window ws win, c) = (found, map_of_window ws win', c') \<and> window_ok ws win'"
  proof (elim disjE exE conjE)
    assume "find (\<lambda>i. occupied win i \<and> rb_block_id (rw_slots win ! i) = rw_base_id win) [0..<ws] = None"
      "stored ws win (rw_base_id win) = None"
    then show ?thesis using a ok up_ok
      by (auto simp: advance_once_def map_advance_once_def skip_missing_eq newer_refines)
  next
    fix i assume i: "i < ws" "occupied win i" and id: "rb_block_id (rw_slots win ! i) = rw_base_id win"
      and st: "stored ws win (rw_base_id win) = Some (rw_slots win ! i)"
    note cl = clear_refines[OF ok i, unfolded id]
    note eq = a[unfolded advance_once_base[OF ok i id] Let_def]
    show ?thesis
    proof (cases "rb_decoded (rw_slots win ! i) \<or> clk c - rb_first_recv_us (rw_slots win ! i) \<ge> RX_BLOCK_TIMEOUT_US")
      case True
      then have "found" "win' = next_base (set_slot i zero_block win)" "c' = (if rb_decoded (rw_slots win ! i) then c else c + 1)"
        using eq by simp_all
      then show ?thesis using True cl up_ok by (simp add: map_advance_once_def st)
    next
      case False
      then have "found = (\<not> none_newer ws win)" "win' = (if none_newer ws win then win else next_base win)"
        "c' = (if rb_decoded (rw_slots win ! i) then c else c + 1)" using eq by simp_all
      then show ?thesis using False ok up_ok by (simp add: map_advance_once_def st newer_refines)
    qed
  qed
  then show "map_advance_once clk (map_of_window ws win, c) = (found, map_of_window ws win', c')" "window_ok ws win'" by blast+
qed

text \<open>The two loops return together, with the same map.\<close>

lemma advance_refines_1:
  assumes "rx_window_advance clk ws st = Some st'" "window_ok ws (fst st)"
  shows "map_advance clk (map_of_window ws (fst st), snd st) = Some (map_of_window ws (fst st'), snd st') \<and> window_ok ws (fst st')"
proof -
  have "window_ok ws (fst st) \<longrightarrow>
    map_advance clk (map_of_window ws (fst st), snd st) = Some (map_of_window ws (fst st'), snd st') \<and> window_ok ws (fst st')"
  proof (rule rx_window_advance.raw_induct[OF _ assms(1)], intro impI)
    fix adv clk ws st st'
    assume IH: "\<And>clk ws st st'. adv clk ws st = Some st' \<Longrightarrow> window_ok ws (fst st) \<longrightarrow>
        map_advance clk (map_of_window ws (fst st), snd st) = Some (map_of_window ws (fst st'), snd st') \<and> window_ok ws (fst st')"
      and run: "(case advance_once clk ws st of (found, st') \<Rightarrow> if found then adv clk ws st' else Some st') = Some st'"
      and ok: "window_ok ws (fst st)"
    obtain found win' c' where a: "advance_once clk ws (fst st, snd st) = (found, win', c')" by (metis prod_cases3)
    note r = advance_once_refines[OF ok a]
    show "map_advance clk (map_of_window ws (fst st), snd st) = Some (map_of_window ws (fst st'), snd st') \<and> window_ok ws (fst st')"
      using IH[of clk ws "(win', c')" st'] run a r by (subst map_advance.simps) (cases found, auto)
  qed
  then show ?thesis using assms(2) by blast
qed

lemma advance_refines_2:
  assumes "map_advance clk mc = Some mc'" "window_ok ws win" "mc = (map_of_window ws win, c)"
  shows "rx_window_advance clk ws (win, c) \<noteq> None"
proof -
  have "\<forall>win c. window_ok ws win \<longrightarrow> mc = (map_of_window ws win, c) \<longrightarrow> rx_window_advance clk ws (win, c) \<noteq> None"
  proof (rule map_advance.raw_induct[OF _ assms(1)], intro allI impI)
    fix adv clk mc mc' win c
    assume IH: "\<And>clk mc mc'. adv clk mc = Some mc' \<Longrightarrow>
        \<forall>win c. window_ok ws win \<longrightarrow> mc = (map_of_window ws win, c) \<longrightarrow> rx_window_advance clk ws (win, c) \<noteq> None"
      and run: "(case map_advance_once clk mc of (found, st') \<Rightarrow> if found then adv clk st' else Some st') = Some mc'"
      and ok: "window_ok ws win" and mc: "mc = (map_of_window ws win, c)"
    obtain found win' c' where a: "advance_once clk ws (win, c) = (found, win', c')" by (metis prod_cases3)
    note r = advance_once_refines[OF ok a]
    show "rx_window_advance clk ws (win, c) \<noteq> None"
      using IH[of clk "(map_of_window ws win', c')" mc'] run mc a r by (subst rx_window_advance.simps) (cases found, auto)
  qed
  then show ?thesis using assms(2,3) by blast
qed

lemma advance_refines:
  assumes "window_ok ws win"
  shows "map_advance clk (map_of_window ws win, c) =
    map_option (\<lambda>(win', c'). (map_of_window ws win', c')) (rx_window_advance clk ws (win, c))"
proof (cases "rx_window_advance clk ws (win, c)")
  case None
  then show ?thesis using advance_refines_2[OF _ assms refl, of clk c] by (cases "map_advance clk (map_of_window ws win, c)") auto
next
  case (Some st')
  then show ?thesis using advance_refines_1[OF Some] assms by (simp split: prod.splits)
qed

lemma on_shard_refines:
  assumes ok: "window_ok ws win" and s: "shard_arrays s"
  shows "map_on_shard clk crypto ws (junk, out, hdr, s) (map_of_window ws win, c) =
    map_option (\<lambda>(r, win', c', pkts). (r, map_of_window ws win', c', pkts)) (rx_on_shard clk crypto junk out ws hdr s (win, c))"
    "rx_on_shard clk crypto junk out ws hdr s (win, c) = Some (r, win', c', pkts) \<Longrightarrow> window_ok ws win'"
proof -
  obtain win1 c1 where i: "rx_window_insert clk crypto ws hdr s (win, c) = (win1, c1)" by fastforce
  obtain r win2 p where d: "rx_window_try_decode junk out ws (h_block_id hdr) (unat (h_k hdr)) win1 = (r, win2, p)" by (metis prod_cases3)
  note ok1 = insert_ok[OF ok s i]
  note ok2 = window_try_decode_ok[OF ok1 d]
  show "map_on_shard clk crypto ws (junk, out, hdr, s) (map_of_window ws win, c) =
    map_option (\<lambda>(r, win', c', pkts). (r, map_of_window ws win', c', pkts)) (rx_on_shard clk crypto junk out ws hdr s (win, c))"
    by (simp add: map_on_shard_def rx_on_shard_def i d insert_refines[OF ok s i] try_decode_refines[OF ok1 d] advance_refines[OF ok2]
        split: option.split)
  show "rx_on_shard clk crypto junk out ws hdr s (win, c) = Some (r, win', c', pkts) \<Longrightarrow> window_ok ws win'" for r win' c' pkts
    using advance_refines_1[of clk ws "(win2, c1)"] ok2 by (auto simp: rx_on_shard_def i d split: option.splits)
qed

section \<open>Where the loop stops\<close>

definition settled :: "block_map \<Rightarrow> bool" where
  "settled m \<longleftrightarrow> \<not> map_newer m \<and> (\<forall>b. bm_blocks m (bm_base m) = Some b \<longrightarrow> \<not> rb_decoded b)"

lemma map_advance_once_steps:
  assumes "map_advance_once clk (m, c) = (found, m', c')"
  shows "\<not> found \<Longrightarrow> m' = m \<and> settled m" "found \<Longrightarrow> bm_base m' = bm_base m + 1"
    "bm_blocks m' \<subseteq>\<^sub>m bm_blocks m"
  using assms
  by (auto simp: map_advance_once_def settled_def up_def remove_block_def Let_def map_le_def split: option.splits if_splits)

lemma map_advance_settles:
  assumes "map_advance clk st = Some st'"
  shows "settled (fst st')" "bm_blocks (fst st') \<subseteq>\<^sub>m bm_blocks (fst st)"
proof -
  have "settled (fst st') \<and> bm_blocks (fst st') \<subseteq>\<^sub>m bm_blocks (fst st)"
  proof (rule map_advance.raw_induct[OF _ assms])
    fix adv clk st st'
    assume IH: "\<And>clk st st'. adv clk st = Some st' \<Longrightarrow> settled (fst st') \<and> bm_blocks (fst st') \<subseteq>\<^sub>m bm_blocks (fst st)"
      and run: "(case map_advance_once clk st of (found, st') \<Rightarrow> if found then adv clk st' else Some st') = Some st'"
    obtain found m' c' where a: "map_advance_once clk (fst st, snd st) = (found, m', c')" by (metis prod_cases3)
    note s = map_advance_once_steps[OF a]
    show "settled (fst st') \<and> bm_blocks (fst st') \<subseteq>\<^sub>m bm_blocks (fst st)"
      using IH[of clk "(m', c')" st'] run a s by (cases found) (auto intro: map_le_trans)
  qed
  then show "settled (fst st')" "bm_blocks (fst st') \<subseteq>\<^sub>m bm_blocks (fst st)" by blast+
qed

section \<open>Properties\<close>

lemma run_refines:
  assumes "window_ok ws win" "\<forall>(junk, out, hdr, s) \<in> set es. shard_arrays s"
  shows "map_option (\<lambda>(win', c', pkts). (map_of_window ws win', c', pkts)) (rx_run clk crypto ws es (win, c)) =
    map_run clk crypto ws es (map_of_window ws win, c)"
  using assms
proof (induction es arbitrary: win c)
  case (Cons e es)
  obtain junk out hdr s where e: "e = (junk, out, hdr, s)" by (metis prod_cases4)
  have s: "shard_arrays s" using Cons.prems(2) by (simp add: e)
  note r = on_shard_refines[OF Cons.prems(1) s]
  show ?case
  proof (cases "rx_on_shard clk crypto junk out ws hdr s (win, c)")
    case None
    then show ?thesis using r(1)[of clk crypto junk out hdr c] by (simp add: e)
  next
    case (Some x)
    obtain rr win1 c1 p1 where x: "x = (rr, win1, c1, p1)" by (metis prod_cases4)
    have "window_ok ws win1" by (rule r(2)) (use Some x in simp)
    then show ?thesis
      using Some r(1)[of clk crypto junk out hdr c] Cons.IH[of win1 c1, symmetric] Cons.prems(2)
      by (auto simp: e x split: option.splits)
  qed
qed simp

lemma stored_init [simp]: "ws \<le> MAX_WINDOW \<Longrightarrow> stored ws rx_window_init = Map.empty"
  by (auto simp: rx_window_init_def fun_eq_iff stored_None occupied_def)

lemma map_of_init: "map_of_window ws rx_window_init = \<lparr>bm_blocks = Map.empty, bm_base = 0\<rparr>" if "ws \<le> MAX_WINDOW"
  using that by (simp add: map_of_window_def) (simp add: rx_window_init_def)

text \<open>C7: The array of slots implements a map from block numbers to blocks with room for
  \<open>window_size\<close> of them: for every sequence of shards from the start, the code writes the packets that the
  map would have it write, reads the clock as often, loops forever exactly when the loop over the map does, and
  leaves the slots with the blocks of the map.\<close>

theorem slots_implement_map:
  assumes "ws \<le> MAX_WINDOW" "\<forall>(junk, out, hdr, s) \<in> set es. shard_arrays s"
  shows "map_option (\<lambda>(win, c', pkts). (map_of_window ws win, c', pkts)) (rx_run clk crypto ws es (rx_window_init, c)) =
    map_run clk crypto ws es (\<lparr>bm_blocks = Map.empty, bm_base = 0\<rparr>, c)"
  using run_refines[OF window_init_ok[OF assms(1)] assms(2)] by (simp add: map_of_init[OF assms(1)])

theorem slots_implement_map_witness:
  "\<exists>win c pkts. rx_run (\<lambda>_. 0) (crypto_init None) 8 [demo_arrival 5, demo_arrival 0] (rx_window_init, 0) = Some (win, c, pkts) \<and>
     map_run (\<lambda>_. 0) (crypto_init None) 8 [demo_arrival 5, demo_arrival 0] (\<lparr>bm_blocks = Map.empty, bm_base = 0\<rparr>, 0) =
       Some (map_of_window 8 win, c, pkts)"
proof -
  have es: "\<forall>(junk, out, hdr, s) \<in> set [demo_arrival 5, demo_arrival 0]. shard_arrays s"
    "\<forall>e \<in> set [demo_arrival 5, demo_arrival 0]. in_session 5 e"
    by (auto simp: demo_arrival_def demo_header_def in_session_def zero_shard_arrays)
  have "session 5 8 rx_window_init"
    using window_init_ok[of 8] by (auto simp: session_def limits) (auto simp: rx_window_init_def occupied_def limits)
  then obtain win c pkts where r: "rx_run (\<lambda>_. 0) (crypto_init None) 8 [demo_arrival 5, demo_arrival 0] (rx_window_init, 0) = Some (win, c, pkts)"
    using rx_run_session[OF _ _ es(2)] by fastforce
  then show ?thesis using slots_implement_map[of 8, OF _ es(1), of "\<lambda>_. 0" "crypto_init None" 0] by (simp add: limits)
qed

end
