(* ===== verification/Delivery.thy ===== *)
theory Delivery
  imports Rx
begin

text \<open>
  The receiver delivers: a block of which \<open>k\<close> shards arrive, no shard of a newer block in between,
  is decoded with the last of them and its packets are written, cut to their own lengths; the window
  is then ready for the next block. By induction a whole stream of blocks is delivered in order. A
  shard that claims \<open>k = 0\<close> moves the window past its block.
\<close>

section \<open>The base moves to the only live block\<close>

text \<open>No other occupied slot is at or ahead of the base.\<close>

definition alone :: "nat \<Rightarrow> rx_window \<Rightarrow> nat \<Rightarrow> bool" where
  "alone ws win i \<longleftrightarrow> (\<forall>j < ws. j \<noteq> i \<longrightarrow> occupied win j \<longrightarrow> ahead win (rb_block_id (rw_slots win ! j)) < 0)"

definition moved_base :: "nat \<Rightarrow> rx_window \<Rightarrow> rx_window" where
  "moved_base d win = win\<lparr>rw_base_id := rw_base_id win + of_nat d\<rparr>"

lemma moved_base_simps [simp]:
  "rw_slots (moved_base d win) = rw_slots win" "rw_base_id (moved_base d win) = rw_base_id win + of_nat d"
  "occupied (moved_base d win) = occupied win" "moved_base 0 win = win"
  "moved_base d (next_base win) = moved_base (Suc d) win"
  by (simp_all add: moved_base_def occupied_def next_base_def fun_eq_iff ac_simps)

lemma ahead_base [simp]: "ahead win (rw_base_id win) = 0"
  by (simp add: ahead_def)

lemma advance_skip:
  assumes "near ws (Suc m) win" "alone ws win i" "i < ws" "occupied win i"
    and "ahead win (rb_block_id (rw_slots win ! i)) = int m"
  shows "rx_window_advance clk ws (win, c) = rx_window_advance clk ws (moved_base m win, c)"
  using assms
proof (induction m arbitrary: win)
  case (Suc m)
  have low: "- (2 ^ 31) < ahead win (rb_block_id (rw_slots win ! j))" if "j < ws" "occupied win j" for j
    using Suc.prems(1) that by (auto simp: near_def)
  have "ahead win (rb_block_id (rw_slots win ! j)) \<noteq> 0" if "j < ws" "occupied win j" for j
    using Suc.prems(2,5) that by (cases "j = i") (force simp: alone_def simp del: ahead_eq_0)+
  then have f: "find (\<lambda>j. occupied win j \<and> rb_block_id (rw_slots win ! j) = rw_base_id win) [0..<ws] = None"
    by (auto simp: find_None_iff)
  have "\<not> none_newer ws win" using Suc.prems(3-5) by (auto simp: none_newer_def not_le)
  then have "advance_once clk ws (win, c) = (True, next_base win, c)" using f by (simp add: advance_once_def skip_missing_eq)
  then have "rx_window_advance clk ws (win, c) = rx_window_advance clk ws (next_base win, c)"
    by (subst rx_window_advance.simps) simp
  also have "\<dots> = rx_window_advance clk ws (moved_base m (next_base win), c)"
  proof (rule Suc.IH)
    show "near ws (Suc m) (next_base win)" using Suc.prems(1) by (rule near_next)
    show "alone ws (next_base win) i"
      using Suc.prems(2) ahead_next_base low by (auto simp: alone_def)
    show "ahead (next_base win) (rb_block_id (rw_slots (next_base win) ! i)) = int m"
      using ahead_next_base[OF low[OF Suc.prems(3,4)]] Suc.prems(5) by simp
  qed (use Suc.prems in simp_all)
  finally show ?case by simp
qed simp

text \<open>There it waits for an incomplete block, and passes a decoded one.\<close>

lemma advance_wait:
  assumes "window_ok ws win" "i < ws" "occupied win i" "rb_block_id (rw_slots win ! i) = rw_base_id win" "alone ws win i"
    and "\<not> rb_decoded (rw_slots win ! i)" "clk c - rb_first_recv_us (rw_slots win ! i) < RX_BLOCK_TIMEOUT_US"
  shows "rx_window_advance clk ws (win, c) = Some (win, c + 1)"
proof -
  have "ahead win (rb_block_id (rw_slots win ! j)) \<le> 0" if "j < ws" "occupied win j" for j
    using assms(4,5) that by (cases "j = i") (auto simp: alone_def)
  then have "none_newer ws win" by (simp add: none_newer_def)
  then have "advance_once clk ws (win, c) = (False, win, c + 1)"
    using advance_once_base[OF assms(1-4), of clk c] assms(6,7) by (simp add: not_le)
  then show ?thesis by (subst rx_window_advance.simps) simp
qed

lemma advance_done:
  assumes "window_ok ws win" "i < ws" "occupied win i" "rb_block_id (rw_slots win ! i) = rw_base_id win" "alone ws win i"
    and "rb_decoded (rw_slots win ! i)" "near ws 1 win"
  defines "win' \<equiv> next_base (set_slot i zero_block win)"
  shows "rx_window_advance clk ws (win, c) = Some (win', c)" "quiet_window ws win'" "\<not> occupied win' i"
proof -
  have l: "i < length (rw_slots win)" by (rule window_okD(4)[OF assms(1,2)])
  then show "\<not> occupied win' i" by (simp add: win'_def)
  have "ahead win' (rb_block_id (rw_slots win' ! j)) < 0" if j: "j < ws" "occupied win' j" for j
  proof -
    have o: "occupied win j" "j \<noteq> i" using j(2) l by (auto simp: win'_def)
    then have a: "ahead win (rb_block_id (rw_slots win ! j)) < 0" using assms(5) j(1) by (simp add: alone_def)
    have "- (2 ^ 31) < ahead win (rb_block_id (rw_slots win ! j))" using assms(7) j(1) o(1) by (auto simp: near_def)
    then show ?thesis using a o(2) ahead_next_base[of "set_slot i zero_block win"] by (simp add: win'_def slot_set)
  qed
  then show q: "quiet_window ws win'" by (simp add: quiet_window_def)
  have "advance_once clk ws (win, c) = (True, win', c)"
    using advance_once_base[OF assms(1-4), of clk c] assms(6) by (simp add: win'_def)
  then show "rx_window_advance clk ws (win, c) = Some (win', c)"
    using quiet_advance[OF q] by (subst rx_window_advance.simps) simp
qed

section \<open>A block that is being received\<close>

text \<open>
  The slot of a block after the shards with the indices \<open>ds\<close> have arrived (\<open>ds\<close> not empty).
\<close>

definition holds :: "nat \<Rightarrow> nat \<Rightarrow> bytes list \<Rightarrow> u32 \<Rightarrow> nat list \<Rightarrow> rx_block \<Rightarrow> bool" where
  "holds k L src bid ds b \<longleftrightarrow> rb_block_id b = bid \<and> \<not> rb_decoded b \<and>
     (\<forall>j < MAX_N. rb_received b ! j \<longleftrightarrow> j \<in> set ds) \<and>
     (\<forall>j \<in> set ds. coded k L src j (rb_shards b ! j))"

lemma holds_count:
  assumes "rx_block_ok b" "holds k L src bid ds b" "distinct ds" "set ds \<subseteq> {..<MAX_N}"
  shows "rb_recv_count b = length ds"
proof -
  have "filter (\<lambda>j. rb_received b ! j) [0..<MAX_N] = filter (\<lambda>j. j \<in> set ds) [0..<MAX_N]"
    using assms(2) by (auto simp: holds_def intro: filter_cong)
  moreover have "distinct (filter (\<lambda>j. j \<in> set ds) [0..<MAX_N])" by simp
  ultimately have "rb_recv_count b = card (set (filter (\<lambda>j. j \<in> set ds) [0..<MAX_N]))"
    using assms(1) unfolding rx_block_ok_def by (metis distinct_card)
  also have "set (filter (\<lambda>j. j \<in> set ds) [0..<MAX_N]) = set ds" using assms(4) by auto
  finally show ?thesis using assms(3) by (simp add: distinct_card)
qed

text \<open>Storing the next shard in the slot, empty before the first one.\<close>

lemma store_next:
  assumes b: "rx_block_ok b" "holds k L src bid ds b" and d: "distinct (ds @ [x])" "set (ds @ [x]) \<subseteq> {..<MAX_N}"
    and hdr: "unat (h_shard_idx hdr) = x" and s: "coded k L src x (decrypted crypto hdr s)"
    and st: "store_shard clk crypto hdr s b c = (b', c')"
  shows "holds k L src bid (ds @ [x]) b'" "c' = (if ds = [] then c + 1 else c)"
    "rb_first_recv_us b' = (if ds = [] then clk c else rb_first_recv_us b)"
proof -
  have x: "x < MAX_N" "x \<notin> set ds" using d by auto
  then have acc: "accepts b hdr" using b(2) by (simp add: accepts_def holds_def hdr)
  have n: "rb_recv_count b = length ds" using d by (intro holds_count[OF b]) auto
  have len: "length (rb_received b) = MAX_N" "length (rb_shards b) = MAX_N" using b(1) by (simp_all add: rx_block_ok_def)
  have eq: "b' = b\<lparr>rb_shards := (rb_shards b)[x := decrypted crypto hdr s],
         rb_received := (rb_received b)[x := True], rb_recv_count := rb_recv_count b + 1,
         rb_first_recv_us := (if rb_recv_count b = 0 then clk c else rb_first_recv_us b)\<rparr>"
    "c' = (if rb_recv_count b = 0 then c + 1 else c)"
    using store_shard_accept[OF acc, of clk crypto s c] st hdr by simp_all
  show "holds k L src bid (ds @ [x]) b'"
    using b(2) x len s by (auto simp: eq holds_def nth_upd)
  show "c' = (if ds = [] then c + 1 else c)" by (simp add: eq n)
  show "rb_first_recv_us b' = (if ds = [] then clk c else rb_first_recv_us b)" by (simp add: eq n)
qed



text \<open>
  The readings of the clock with the numbers from \<open>c0\<close> to \<open>c0 + n\<close> are less than the time-out
  apart. A block of \<open>k\<close> packets takes at most \<open>k + 1\<close> readings.
\<close>

definition steady :: "(nat \<Rightarrow> u64) \<Rightarrow> nat \<Rightarrow> nat \<Rightarrow> bool" where
  "steady clk c0 n \<longleftrightarrow> (\<forall>i j. c0 \<le> i \<and> i \<le> j \<and> j \<le> c0 + n \<longrightarrow> clk j - clk i < RX_BLOCK_TIMEOUT_US)"

text \<open>A window that can take block \<open>bid\<close> next: nothing at or ahead of the base, and a free slot.\<close>

definition open_for :: "nat \<Rightarrow> nat \<Rightarrow> u32 \<Rightarrow> rx_window \<Rightarrow> bool" where
  "open_for H ws bid win \<longleftrightarrow> session H ws win \<and> quiet_window ws win \<and> (\<exists>i < ws. \<not> occupied win i) \<and>
     unat bid \<le> H \<and> 0 \<le> ahead win bid \<and> ahead win bid < int ws"

text \<open>The window after the shards \<open>ds\<close> of the block, the clock being read the \<open>c\<close>-th time next.\<close>

definition ready ::
  "(nat \<Rightarrow> u64) \<Rightarrow> nat \<Rightarrow> nat \<Rightarrow> nat \<Rightarrow> nat \<Rightarrow> nat \<Rightarrow> bytes list \<Rightarrow> u32 \<Rightarrow> nat list \<Rightarrow> rx_window \<Rightarrow> nat \<Rightarrow> bool" where
  "ready clk c0 H ws k L src bid ds win c \<longleftrightarrow> session H ws win \<and> unat bid \<le> H \<and>
     (if ds = [] then c = c0 \<and> open_for H ws bid win
      else c0 \<le> c \<and> c \<le> c0 + 1 + length ds \<and> rw_base_id win = bid \<and>
        (\<exists>i < ws. occupied win i \<and> alone ws win i \<and> holds k L src bid ds (rw_slots win ! i) \<and>
           rb_first_recv_us (rw_slots win ! i) = clk c0))"

lemma empty_holds: "holds k L src bid [] (zero_block\<lparr>rb_block_id := bid\<rparr>)"
  by (simp add: holds_def zero_block_def)

lemma ready_window:
  assumes "ready clk c0 H ws k L src bid ds win c"
  shows "session H ws win" "unat bid \<le> H" "0 \<le> ahead win bid" "ahead win bid < int ws"
  using assms by (auto simp: ready_def open_for_def split: if_splits)

text \<open>The slot that takes the next shard of the block: a fresh one, or the one that holds the shards so far.\<close>

lemma ready_slot:
  assumes r: "ready clk c0 H ws k L src bid ds win c"
  obtains i win0 where "rx_find win bid ws = (Some i, win0)" "i < ws" "holds k L src bid ds (rw_slots win0 ! i)" "alone ws win i"
    "ds = [] \<Longrightarrow> c = c0" "ds \<noteq> [] \<Longrightarrow> rb_first_recv_us (rw_slots win0 ! i) = clk c0 \<and> c0 \<le> c \<and> c \<le> c0 + 1 + length ds"
proof -
  note w = ready_window[OF r]
  have ok: "window_ok ws win" using w(1) by (simp add: session_def)
  show thesis
  proof (cases "ds = []")
    case True
    then have q: "quiet_window ws win" "\<exists>j < ws. \<not> occupied win j" "c = c0" using r by (auto simp: ready_def open_for_def)
    have ne: "rb_block_id (rw_slots win ! j) \<noteq> bid" if "j < ws" "occupied win j" for j
      using q(1) that w(3) by (auto simp: quiet_window_def)
    obtain l where l: "l < ws" "rx_find win bid ws = (Some l, set_slot l (zero_block\<lparr>rb_block_id := bid\<rparr>) win)"
      using q(2) rx_find_free[OF ok _ _ ne w(3,4)] by blast
    have "alone ws win l" using q(1) by (simp add: quiet_window_def alone_def)
    then show thesis
      using that[OF l(2,1)] True empty_holds window_okD(4)[OF ok l(1)] q(3) by (simp add: slot_set)
  next
    case False
    then obtain j where j: "j < ws" "occupied win j" "alone ws win j" "holds k L src bid ds (rw_slots win ! j)"
      "rb_first_recv_us (rw_slots win ! j) = clk c0" "c0 \<le> c" "c \<le> c0 + 1 + length ds"
      using r by (auto simp: ready_def)
    have "rx_find win bid ws = (Some j, win)"
      using j(4) by (intro rx_find_hit[OF ok j(1,2) _ w(3,4)]) (simp add: holds_def)
    then show thesis using that[of j win] False j by simp
  qed
qed

lemma ready_insert:
  assumes r: "ready clk c0 H ws k L src bid ds win c" and d: "distinct (ds @ [x])" "set (ds @ [x]) \<subseteq> {..<MAX_N}"
    and hdr: "h_block_id hdr = bid" "unat (h_shard_idx hdr) = x"
    and s: "shard_arrays s" "coded k L src x (decrypted crypto hdr s)"
  obtains i b win1 c1 where "rx_window_insert clk crypto ws hdr s (win, c) = (win1, c1)"
    "i < ws" "rw_slots win1 ! i = b" "holds k L src bid (ds @ [x]) b" "occupied win1 i" "alone ws win1 i" "session H ws win1"
    "rb_first_recv_us b = clk c0" "c0 \<le> c1" "c1 \<le> c0 + length (ds @ [x])" "ahead win1 = ahead win"
    "rx_find win1 bid ws = (Some i, win1)"
proof -
  note w = ready_window[OF r]
  have ok: "window_ok ws win" using w(1) by (simp add: session_def)
  obtain i win0 where f: "rx_find win bid ws = (Some i, win0)" "i < ws"
    and h: "holds k L src bid ds (rw_slots win0 ! i)" and al: "alone ws win i"
    and t: "ds = [] \<Longrightarrow> c = c0" "ds \<noteq> [] \<Longrightarrow> rb_first_recv_us (rw_slots win0 ! i) = clk c0 \<and> c0 \<le> c \<and> c \<le> c0 + 1 + length ds"
    by (rule ready_slot[OF r]) (rule that)
  note ok0 = rx_find_ok[OF ok f(1)] and fs = rx_find_slot[OF ok f(1)]
  obtain b c1 where st: "store_shard clk crypto hdr s (rw_slots win0 ! i) c = (b, c1)" by fastforce
  note nx = store_next[OF window_okD(3)[OF ok0 f(2)] h d hdr(2) s(2) st]
  note sb = store_shard_ok[OF window_okD(3)[OF ok0 f(2)] s(1) st]
  let ?w = "set_slot i b win0"
  have il: "i < length (rw_slots win0)" by (rule window_okD(4)[OF ok0 f(2)])
  have ins: "rx_window_insert clk crypto ws hdr s (win, c) = (?w, c1)"
    using f(1) st by (simp add: rx_window_insert_def hdr(1))
  have cnt: "rb_recv_count b = length (ds @ [x])" by (rule holds_count[OF sb(1) nx(1) d])
  have ah: "ahead ?w = ahead win" using fs(3) by (simp add: ahead_def fun_eq_iff)
  have occ: "occupied ?w i" using cnt il by (simp add: occupied_def slot_set)
  have ok1: "window_ok ws ?w" by (rule insert_ok[OF ok s(1) ins])
  show thesis
  proof (rule that[OF ins f(2) _ nx(1) occ])
    show "rw_slots ?w ! i = b" using il by (simp add: slot_set)
    show "alone ws ?w i" using al fs(6) ah by (simp add: alone_def occupied_def slot_set)
    show "session H ws ?w"
      by (rule only_adds_session[OF w(1) insert_only_adds[OF ok s(1) ins] ok1]) (simp add: hdr(1) w(2))
    show "rb_first_recv_us b = clk c0" "c0 \<le> c1" "c1 \<le> c0 + length (ds @ [x])"
      using nx(2,3) t by (auto split: if_splits)
    show "ahead ?w = ahead win" by (rule ah)
    show "rx_find ?w bid ws = (Some i, ?w)"
      by (rule rx_find_hit[OF ok1 f(2) occ]) (use nx(1) il w ah in \<open>simp_all add: slot_set holds_def\<close>)
  qed
qed


lemma session_ahead:
  assumes "session H ws win" "H < 2 ^ 30" "unat bid \<le> H"
  shows "ahead win bid = int (unat bid) - int (unat (rw_base_id win))"
  using assms by (intro ahead_session) (auto simp: session_def)

lemma near_tighten:
  assumes "near ws M win" "Suc m \<le> M"
    and "\<And>j. j < ws \<Longrightarrow> occupied win j \<Longrightarrow> ahead win (rb_block_id (rw_slots win ! j)) \<le> int m"
  shows "near ws (Suc m) win"
  using assms by (fastforce simp: near_def)

text \<open>The steps of the base to the block, and what is known of the window then.\<close>

lemma move_to_block:
  assumes ses: "session H ws win" "H < 2 ^ 30" and i: "i < ws" "occupied win i" "alone ws win i"
    and bid: "rb_block_id (rw_slots win ! i) = bid" "unat bid \<le> H" "0 \<le> ahead win bid"
  obtains m where "rx_window_advance clk ws (win, c) = rx_window_advance clk ws (moved_base m win, c)"
    "rw_base_id (moved_base m win) = bid" "session H ws (moved_base m win)" "alone ws (moved_base m win) i"
    "near ws 1 (moved_base m win)"
proof -
  define m where "m = nat (ahead win bid)"
  have m: "ahead win bid = int m" using bid(3) by (simp add: m_def)
  have b: "unat (rw_base_id win) \<le> H + 1" using ses(1) by (simp add: session_def)
  have "int m + int (unat (rw_base_id win)) = int (unat bid)" using session_ahead[OF ses bid(2)] m by (simp del: of_nat_unat)
  then have mb: "unat (rw_base_id win) + m = unat bid" by linarith
  have le: "ahead win (rb_block_id (rw_slots win ! j)) \<le> int m" if "j < ws" "occupied win j" for j
    using i(3) that m bid(1) by (cases "j = i") (auto simp: alone_def)
  have "near ws (Suc m) win"
    by (rule near_tighten[OF session_near[OF ses] _ le]) (use mb bid(2) in linarith)
  then have skip: "rx_window_advance clk ws (win, c) = rx_window_advance clk ws (moved_base m win, c)"
    using advance_skip[OF _ i(3,1,2)] m bid(1) by simp
  have base: "rw_base_id (moved_base m win) = bid"
    using arg_cong[OF mb, of "of_nat :: nat \<Rightarrow> u32"] by simp
  have ses': "session H ws (moved_base m win)"
    using ses(1) bid(2) base by (simp add: session_def window_ok_def)
  have down: "ahead (moved_base m win) (rb_block_id (rw_slots win ! j)) = ahead win (rb_block_id (rw_slots win ! j)) - int m"
    if "j < ws" "occupied win j" for j
  proof -
    have h: "unat (rb_block_id (rw_slots win ! j)) \<le> H" using ses(1) that by (simp add: session_def)
    show ?thesis
      unfolding session_ahead[OF ses h] session_ahead[OF ses' ses(2) h] base mb[symmetric] by (simp del: of_nat_unat)
  qed
  have al: "alone ws (moved_base m win) i" using i(3) down by (auto simp: alone_def)
  have "ahead (moved_base m win) (rb_block_id (rw_slots win ! j)) \<le> int 0" if "j < ws" "occupied win j" for j
    using down[OF that] le[OF that] by simp
  then have "near ws (Suc 0) (moved_base m win)"
    by (intro near_tighten[OF session_near[OF ses' ses(2)]]) (use base bid(2) in simp_all)
  then have "near ws 1 (moved_base m win)" by simp
  then show thesis using that[OF skip base ses' al] by blast
qed

text \<open>While fewer than \<open>k\<close> shards have arrived nothing is written.\<close>

lemma ready_step:
  assumes r: "ready clk c0 H ws k L src bid ds win c" and H: "H < 2 ^ 30" and q: "steady clk c0 k"
    and d: "distinct (ds @ [x])" "set (ds @ [x]) \<subseteq> {..<MAX_N}" and few: "length (ds @ [x]) < k"
    and hdr: "h_block_id hdr = bid" "unat (h_shard_idx hdr) = x" "unat (h_k hdr) = k"
    and s: "shard_arrays s" "coded k L src x (decrypted crypto hdr s)"
  shows "\<exists>win' c'. rx_on_shard clk crypto junk out ws hdr s (win, c) = Some (False, win', c', []) \<and>
    ready clk c0 H ws k L src bid (ds @ [x]) win' c'"
proof -
  note w = ready_window[OF r]
  obtain i b win1 c1 where ins: "rx_window_insert clk crypto ws hdr s (win, c) = (win1, c1)"
    and i: "i < ws" "rw_slots win1 ! i = b" "holds k L src bid (ds @ [x]) b" "occupied win1 i" "alone ws win1 i"
    and ses1: "session H ws win1" and t: "rb_first_recv_us b = clk c0" "c0 \<le> c1" "c1 \<le> c0 + length (ds @ [x])"
    and ah: "ahead win1 = ahead win" and hit: "rx_find win1 bid ws = (Some i, win1)"
    by (rule ready_insert[OF r d hdr(1,2) s]) blast
  have ok1: "window_ok ws win1" using ses1 by (simp add: session_def)
  have b: "rb_block_id b = bid" "\<not> rb_decoded b" using i(3) by (simp_all add: holds_def)
  have "rb_recv_count b = length (ds @ [x])"
    using window_okD(3)[OF ok1 i(1)] unfolding i(2) by (rule holds_count[OF _ i(3) d])
  then have "try_decode junk out k b = (False, b, [])" using few b(2) by (simp add: try_decode_def decodes_now_def)
  then have td: "rx_window_try_decode junk out ws bid k win1 = (False, win1, [])"
    using hit i(2) set_slot_same[OF i(2)] by (simp add: rx_window_try_decode_def)
  have first: "rb_block_id (rw_slots win1 ! i) = bid" "0 \<le> ahead win1 bid" using i(2) b(1) w(3) ah by simp_all
  obtain m where m: "rx_window_advance clk ws (win1, c1) = rx_window_advance clk ws (moved_base m win1, c1)"
    "rw_base_id (moved_base m win1) = bid" "session H ws (moved_base m win1)" "alone ws (moved_base m win1) i"
    using move_to_block[OF ses1 H i(1,4,5) first(1) w(2) first(2)] by metis
  have "rx_window_advance clk ws (moved_base m win1, c1) = Some (moved_base m win1, c1 + 1)"
  proof (rule advance_wait[OF _ i(1) _ _ m(4)])
    show "window_ok ws (moved_base m win1)" using m(3) by (simp add: session_def)
    have "c1 \<le> c0 + k" using t(3) few by simp
    then have "clk c1 - clk c0 < RX_BLOCK_TIMEOUT_US" using q t(2) by (simp add: steady_def)
    then show "clk c1 - rb_first_recv_us (rw_slots (moved_base m win1) ! i) < RX_BLOCK_TIMEOUT_US" using i(2) t(1) by simp
  qed (use i(2,4) b m(2) in simp_all)
  then have "rx_on_shard clk crypto junk out ws hdr s (win, c) = Some (False, moved_base m win1, c1 + 1, [])"
    by (simp add: rx_on_shard_def ins hdr(1,3) td m(1))
  moreover have "ready clk c0 H ws k L src bid (ds @ [x]) (moved_base m win1) (c1 + 1)"
    using m(2,3,4) w(2) i(1-4) t by (auto simp: ready_def)
  ultimately show ?thesis by blast
qed


section \<open>The last shard decodes the block\<close>

lemma collect_holds:
  assumes "rx_block_ok b" "holds k L src bid ds b" and d: "distinct ds" "set ds \<subseteq> {..<MAX_N}" "length ds = k"
  obtains sel where "distinct sel" "set sel = set ds" "length sel = k"
    "\<And>r. r < k \<Longrightarrow> coded k L src (sel ! r) (collect k b ! r)"
proof -
  let ?sel = "filter (\<lambda>j. rb_received b ! j) [0..<MAX_N]"
  have s: "set ?sel = set ds" using assms(2) d(2) by (auto simp: holds_def)
  have l: "length ?sel = k" using holds_count[OF assms(1,2) d(1,2)] assms(1) d(3) by (simp add: rx_block_ok_def)
  then have c: "collect k b = map (\<lambda>i. rb_shards b ! i) ?sel @ replicate (MAX_K - k) zero_shard"
    by (simp add: collect_def)
  have "coded k L src (?sel ! r) (collect k b ! r)" if "r < k" for r
  proof -
    have "?sel ! r \<in> set ds" using that l s nth_mem[of r ?sel] by simp
    then show ?thesis using assms(2) that l by (simp add: c nth_append holds_def)
  qed
  then show thesis using that[of ?sel] s l by simp
qed

lemma few_coded:
  assumes "distinct xs" "distinct ys" "set xs = set ys"
  shows "length (filter P xs) = length (filter P ys)"
proof -
  have "card (set (filter P xs)) = card (set (filter P ys))" using assms(3) by simp
  then show ?thesis using assms(1,2) by (simp only: distinct_card distinct_filter)
qed

lemma decode_full:
  assumes b: "rx_block_ok b" "holds k L src bid ds b" and d: "distinct ds" "set ds \<subseteq> {..<MAX_N}" "length ds = k"
    and few: "length (filter (\<lambda>s. k \<le> s) ds) \<le> 1"
    and junk: "room k L junk" "L \<le> MAX_PAYLOAD" "k \<le> length (fst out)" "k \<le> length (snd out)"
  obtains ob ol where "decode_block junk (collect k b) k out = Some (ob, ol)"
    "\<And>i. i < k \<Longrightarrow> unat (ol ! i) = L \<and> L \<le> length (ob ! i) \<and> (\<forall>j < L. ob ! i ! j = src ! i ! j)"
proof -
  obtain sel where sel: "distinct sel" "set sel = set ds" "length sel = k"
    and cod: "\<And>r. r < k \<Longrightarrow> coded k L src (sel ! r) (collect k b ! r)" by (rule collect_holds[OF b d]) blast
  have car: "carries k L src (collect k b ! r)" if "r < k" for r using cod[OF that] by (simp add: coded_def)
  have det: "determines k (collect k b)"
    by (rule one_loss_determines[OF cod sel(3,1)]) (use few few_coded[OF d(1) sel(1) sel(2)[symmetric]] in simp_all)
  have "decode_block junk (collect k b) k (fst out, snd out) \<noteq> None"
    using decode_succeeds_iff[OF junk(1,2) _ junk(3,4)] det car carries_shard_ok by blast
  then obtain ob ol where dec: "decode_block junk (collect k b) k (fst out, snd out) = Some (ob, ol)" by auto
  show thesis
  proof (rule that)
    show "decode_block junk (collect k b) k out = Some (ob, ol)" using dec by simp
    fix i assume i: "i < k"
    show "unat (ol ! i) = L \<and> L \<le> length (ob ! i) \<and> (\<forall>j < L. ob ! i ! j = src ! i ! j)"
      using decode_recovers[OF dec junk car i] by blast
  qed
qed

text \<open>What is written for a row of \<open>L\<close> bytes.\<close>

definition cut :: "nat \<Rightarrow> bytes \<Rightarrow> bytes" where
  "cut L row = take (unat (ip_packet_length row (of_nat L))) row"

lemma ip_length_cong:
  assumes "\<And>j. j < unat L \<Longrightarrow> row ! j = row' ! j"
  shows "ip_packet_length row L = ip_packet_length row' L"
proof -
  have "row ! j = row' ! j" if "20 \<le> L" "j < 20" for j
    using assms[of j] that by (simp add: word_le_nat_alt)
  then show ?thesis by (simp add: ip_packet_length_def Let_def)
qed

lemma cut_eq:
  assumes "L < 2 ^ 16" "unat l = L" "L \<le> length row" "L \<le> length row'" "\<And>j. j < L \<Longrightarrow> row ! j = row' ! j"
  shows "take (unat (ip_packet_length row l)) row = cut L row'"
proof -
  have l: "l = of_nat L" using assms(2) by auto
  have "unat (ip_packet_length row' l) \<le> L"
    using ip_packet_length_le[of row' l] assms(2) by (simp add: word_le_nat_alt)
  moreover have "ip_packet_length row l = ip_packet_length row' l" by (rule ip_length_cong) (use assms(2,5) in simp)
  ultimately show ?thesis
    using assms(3-5) by (auto simp: cut_def simp flip: l intro!: nth_equalityI)
qed

lemma cut_packet:
  assumes "is_ipv4 p \<or> is_ipv6 p" "take (length p) row = p" "length p \<le> L" "L < 2 ^ 16"
  shows "cut L row = p"
proof -
  have "length p \<le> unat (of_nat L :: u16)" using assms(3,4) by (simp add: unat_of_nat take_bit_nat_eq_self)
  then show ?thesis
    using assms(1,2) ip_length_ipv4[OF _ assms(2)] ip_length_ipv6[OF _ assms(2)] by (auto simp: cut_def)
qed


text \<open>The arguments of a call of the receiver for a block: large enough arrays.\<close>

definition arrays_ok :: "nat \<Rightarrow> nat \<Rightarrow> gj \<Rightarrow> bytes list \<times> u16 list \<Rightarrow> bool" where
  "arrays_ok k L junk out \<longleftrightarrow> room k L junk \<and> k \<le> length (fst out) \<and> k \<le> length (snd out)"

definition block_arrival :: "crypto_ctx \<Rightarrow> nat \<Rightarrow> nat \<Rightarrow> bytes list \<Rightarrow> u32 \<Rightarrow> arrival \<Rightarrow> nat \<Rightarrow> bool" where
  "block_arrival crypto k L src bid e x \<longleftrightarrow> (case e of (junk, out, hdr, s) \<Rightarrow>
     arrays_ok k L junk out \<and> h_block_id hdr = bid \<and> unat (h_shard_idx hdr) = x \<and> unat (h_k hdr) = k \<and>
     shard_arrays s \<and> coded k L src x (decrypted crypto hdr s))"

text \<open>Blocks up to \<open>bid\<close> are done.\<close>

definition past :: "nat \<Rightarrow> nat \<Rightarrow> u32 \<Rightarrow> rx_window \<Rightarrow> bool" where
  "past H ws bid win \<longleftrightarrow> session H ws win \<and> quiet_window ws win \<and> (\<exists>i < ws. \<not> occupied win i) \<and> rw_base_id win = bid + 1"

text \<open>Once the only live block is decoded, the window moves past it.\<close>

lemma decoded_moves:
  assumes ses1: "session H ws win1" "H < 2 ^ 30" and i: "i < ws" "occupied win1 i" "alone ws win1 i"
    and b: "rb_block_id (rw_slots win1 ! i) = bid" "unat bid \<le> H" "0 \<le> ahead win1 bid"
    and ins: "rx_window_insert clk crypto ws hdr s (win, c) = (win1, c1)" "h_block_id hdr = bid"
    and td: "rx_window_try_decode junk out ws bid (unat (h_k hdr)) win1 = (True, set_slot i ((rw_slots win1 ! i)\<lparr>rb_decoded := True\<rparr>) win1, pkts)"
  shows "\<exists>win'. rx_on_shard clk crypto junk out ws hdr s (win, c) = Some (True, win', c1, pkts) \<and> past H ws bid win'"
proof -
  let ?b = "(rw_slots win1 ! i)\<lparr>rb_decoded := True\<rparr>"
  let ?w = "set_slot i ?b win1"
  have ok1: "window_ok ws win1" using ses1(1) by (simp add: session_def)
  have il: "i < length (rw_slots win1)" by (rule window_okD(4)[OF ok1 i(1)])
  have slot: "rw_slots ?w ! i = ?b" using il by (simp add: slot_set)
  have occ: "occupied ?w j = occupied win1 j" for j by (cases "i = j") (simp_all add: occupied_def slot_set)
  have ses2: "session H ws ?w"
  proof -
    have "unat (rb_block_id (rw_slots ?w ! j)) \<le> H" if "j < ws" "occupied ?w j" for j
      using ses1(1) that b(1,2) by (cases "j = i") (auto simp: session_def slot_set occ)
    moreover have "window_ok ws ?w" using window_try_decode_ok[OF ok1 td] .
    ultimately show ?thesis using ses1(1) by (simp add: session_def)
  qed
  have al2: "alone ws ?w i" using i(3) by (auto simp: alone_def occ slot_set)
  have first: "rb_block_id (rw_slots ?w ! i) = bid" "0 \<le> ahead ?w bid" using slot b(1,3) by (simp_all add: ahead_def)
  obtain m where m: "rx_window_advance clk ws (?w, c1) = rx_window_advance clk ws (moved_base m ?w, c1)"
    "rw_base_id (moved_base m ?w) = bid" "session H ws (moved_base m ?w)" "alone ws (moved_base m ?w) i"
    "near ws 1 (moved_base m ?w)"
    using move_to_block[OF ses2 ses1(2) i(1) _ al2 first(1) b(2) first(2)] occ i(2) by metis
  let ?f = "next_base (set_slot i zero_block (moved_base m ?w))"
  have okm: "window_ok ws (moved_base m ?w)" using m(3) by (simp add: session_def)
  have id: "rb_block_id (rw_slots (moved_base m ?w) ! i) = rw_base_id (moved_base m ?w)" using m(2) slot b(1) by simp
  have om: "occupied (moved_base m ?w) i" using occ i(2) by simp
  have dm: "rb_decoded (rw_slots (moved_base m ?w) ! i)" using slot by simp
  note dn = advance_done[OF okm i(1) om id m(4) dm m(5)]
  have base: "unat (bid + 1) \<le> H + 1" using b(2) by (simp add: unat_word_ariths)
  have "session H ws ?f"
  proof -
    have "window_ok ws (set_slot i zero_block (moved_base m ?w))"
      by (rule window_ok_set[OF okm zero_block_ok']) simp
    then have "window_ok ws ?f" by (simp add: window_ok_def)
    moreover have "unat (rb_block_id (rw_slots ?f ! j)) \<le> H" if "j < ws" "occupied ?f j" for j
      using m(3) that il by (auto simp: session_def slot_set)
    ultimately show ?thesis using base m(2) by (simp add: session_def)
  qed
  then have "past H ws bid ?f" using dn(2,3) i(1) m(2) by (auto simp: past_def)
  moreover have "rx_on_shard clk crypto junk out ws hdr s (win, c) = Some (True, ?f, c1, pkts)"
    by (simp add: rx_on_shard_def ins td m(1) dn(1))
  ultimately show ?thesis by blast
qed

lemma ready_last:
  assumes r: "ready clk c0 H ws k L src bid ds win c" and H: "H < 2 ^ 30"
    and d: "distinct (ds @ [x])" "set (ds @ [x]) \<subseteq> {..<MAX_N}" "length (ds @ [x]) = k"
    and few: "length (filter (\<lambda>s. k \<le> s) (ds @ [x])) \<le> 1"
    and src: "L \<le> MAX_PAYLOAD" "\<And>i. i < k \<Longrightarrow> L \<le> length (src ! i)"
    and e: "block_arrival crypto k L src bid (junk, out, hdr, s) x"
  shows "\<exists>win' c'. rx_on_shard clk crypto junk out ws hdr s (win, c) =
      Some (True, win', c', map (\<lambda>i. cut L (src ! i)) [0..<k]) \<and>
    past H ws bid win' \<and> c0 \<le> c' \<and> c' \<le> c0 + k"
proof -
  note w = ready_window[OF r]
  have hdr: "h_block_id hdr = bid" "unat (h_shard_idx hdr) = x" "unat (h_k hdr) = k"
    and s: "shard_arrays s" "coded k L src x (decrypted crypto hdr s)"
    and a: "room k L junk" "k \<le> length (fst out)" "k \<le> length (snd out)"
    using e by (simp_all add: block_arrival_def arrays_ok_def)
  obtain i b win1 c1 where ins: "rx_window_insert clk crypto ws hdr s (win, c) = (win1, c1)"
    and i: "i < ws" "rw_slots win1 ! i = b" "holds k L src bid (ds @ [x]) b" "occupied win1 i" "alone ws win1 i"
    and ses1: "session H ws win1" and t: "rb_first_recv_us b = clk c0" "c0 \<le> c1" "c1 \<le> c0 + length (ds @ [x])"
    and ah: "ahead win1 = ahead win" and hit: "rx_find win1 bid ws = (Some i, win1)"
    by (rule ready_insert[OF r d(1,2) hdr(1,2) s]) blast
  have ok1: "window_ok ws win1" using ses1 by (simp add: session_def)
  have bok: "rx_block_ok b" using window_okD(3)[OF ok1 i(1)] i(2) by simp
  have b: "rb_block_id b = bid" "\<not> rb_decoded b" using i(3) by (simp_all add: holds_def)
  have n: "rb_recv_count b = k" using holds_count[OF bok i(3) d(1,2)] d(3) by simp
  obtain ob ol where dec: "decode_block junk (collect k b) k out = Some (ob, ol)"
    and rows: "\<And>i. i < k \<Longrightarrow> unat (ol ! i) = L \<and> L \<le> length (ob ! i) \<and> (\<forall>j < L. ob ! i ! j = src ! i ! j)"
    by (rule decode_full[OF bok i(3) d few a(1) src(1) a(2,3)]) blast
  have "take (unat (ip_packet_length (ob ! i) (ol ! i))) (ob ! i) = cut L (src ! i)" if "i < k" for i
    using rows[OF that] src(2)[OF that] src(1) by (intro cut_eq) (auto simp: limits)
  then have pk: "map (\<lambda>i. take (unat (ip_packet_length (ob ! i) (ol ! i))) (ob ! i)) [0..<k] = map (\<lambda>i. cut L (src ! i)) [0..<k]"
    by simp
  have "try_decode junk out k b = (True, b\<lparr>rb_decoded := True\<rparr>, map (\<lambda>i. cut L (src ! i)) [0..<k])"
    using dec n b(2) pk by (simp add: try_decode_def decodes_now_def)
  then have td: "rx_window_try_decode junk out ws bid (unat (h_k hdr)) win1 =
      (True, set_slot i ((rw_slots win1 ! i)\<lparr>rb_decoded := True\<rparr>) win1, map (\<lambda>i. cut L (src ! i)) [0..<k])"
    using hit i(2) hdr(3) by (simp add: rx_window_try_decode_def)
  have id: "rb_block_id (rw_slots win1 ! i) = bid" "0 \<le> ahead win1 bid" using i(2) b(1) w(3) ah by simp_all
  have "c1 \<le> c0 + k" using t(3) d(3) by simp
  then show ?thesis using decoded_moves[OF ses1 H i(1,4,5) id(1) w(2) id(2) ins hdr(1) td] t(2) by blast
qed

text \<open>A data shard whose header says \<open>k = 0\<close> is enough to have its block taken for decoded.\<close>

lemma zero_k_decodes:
  assumes op: "open_for H ws bid win" "H < 2 ^ 30" and hdr: "h_block_id hdr = bid" "h_k hdr = 0" "unat (h_shard_idx hdr) < MAX_N"
    and s: "shard_arrays s"
  shows "\<exists>win' c'. rx_on_shard clk crypto junk out ws hdr s (win, c) = Some (True, win', c', []) \<and> past H ws bid win'"
proof -
  have ses: "session H ws win" and q: "quiet_window ws win" and w: "unat bid \<le> H" "0 \<le> ahead win bid" "ahead win bid < int ws"
    and fr: "\<exists>i < ws. \<not> occupied win i" using op(1) by (simp_all add: open_for_def)
  have ok: "window_ok ws win" using ses by (simp add: session_def)
  have ne: "rb_block_id (rw_slots win ! j) \<noteq> bid" if "j < ws" "occupied win j" for j
    using q that w(2) by (auto simp: quiet_window_def)
  let ?z = "zero_block\<lparr>rb_block_id := bid\<rparr>"
  obtain l where l: "l < ws" "rx_find win bid ws = (Some l, set_slot l ?z win)"
    using fr rx_find_free[OF ok _ _ ne w(2,3)] by blast
  have ll: "l < length (rw_slots win)" by (rule window_okD(4)[OF ok l(1)])
  have acc: "accepts ?z hdr" using hdr(3) by (simp add: accepts_def zero_block_def)
  obtain b c1 where st: "store_shard clk crypto hdr s ?z c = (b, c1)" by fastforce
  have b: "rb_block_id b = bid" "\<not> rb_decoded b" "rb_recv_count b = 1"
    using st store_shard_accept[OF acc, of clk crypto s c] by (auto simp: zero_block_def)
  let ?w = "set_slot l b win"
  have ins: "rx_window_insert clk crypto ws hdr s (win, c) = (?w, c1)"
    using l(2) st hdr(1) ll by (simp add: rx_window_insert_def slot_set set_slot_twice)
  have ok1: "window_ok ws ?w" by (rule insert_ok[OF ok s ins])
  have ses1: "session H ws ?w"
    by (rule only_adds_session[OF ses insert_only_adds[OF ok s ins] ok1]) (simp add: hdr(1) w(1))
  have occ: "occupied ?w l" using b(3) ll by (simp add: occupied_def slot_set)
  have al: "alone ws ?w l" using q by (simp add: alone_def quiet_window_def occupied_def slot_set ahead_def)
  have id: "rb_block_id (rw_slots ?w ! l) = bid" "0 \<le> ahead ?w bid" "ahead ?w bid < int ws" using b(1) ll w by (simp_all add: slot_set ahead_def)
  have hit: "rx_find ?w bid ws = (Some l, ?w)" by (rule rx_find_hit[OF ok1 l(1) occ id])
  have "try_decode junk out 0 b = (True, b\<lparr>rb_decoded := True\<rparr>, [])"
    using b(2) by (simp add: try_decode_def decodes_now_def decode_block_def split: prod.split)
  then have td: "rx_window_try_decode junk out ws bid (unat (h_k hdr)) ?w = (True, set_slot l ((rw_slots ?w ! l)\<lparr>rb_decoded := True\<rparr>) ?w, [])"
    using hit hdr(2) ll by (simp add: rx_window_try_decode_def slot_set)
  from decoded_moves[OF ses1 op(2) l(1) occ al id(1) w(1) id(2) ins hdr(1) td] show ?thesis by blast
qed

section \<open>A block, and a stream of blocks\<close>

lemma rx_run_append:
  "rx_run clk crypto ws (es @ fs) (win, c) =
     (case rx_run clk crypto ws es (win, c) of
        None \<Rightarrow> None
      | Some (win1, c1, p1) \<Rightarrow>
          (case rx_run clk crypto ws fs (win1, c1) of None \<Rightarrow> None | Some (win2, c2, p2) \<Rightarrow> Some (win2, c2, p1 @ p2)))"
proof (induction es arbitrary: win c)
  case (Cons e es)
  obtain junk out hdr s where "e = (junk, out, hdr, s)" by (metis prod_cases4)
  then show ?case using Cons.IH by (auto split: option.splits prod.splits)
qed (auto split: option.splits prod.splits)

lemma ready_run:
  assumes H: "H < 2 ^ 30" and q: "steady clk c0 k" and src: "L \<le> MAX_PAYLOAD" "\<And>i. i < k \<Longrightarrow> L \<le> length (src ! i)"
    and "ready clk c0 H ws k L src bid ds win c" "list_all2 (block_arrival crypto k L src bid) es xs" "xs \<noteq> []"
    and "distinct (ds @ xs)" "set (ds @ xs) \<subseteq> {..<MAX_N}" "length (ds @ xs) = k"
      "length (filter (\<lambda>s. k \<le> s) (ds @ xs)) \<le> 1"
  shows "\<exists>win' c'. rx_run clk crypto ws es (win, c) = Some (win', c', map (\<lambda>i. cut L (src ! i)) [0..<k]) \<and>
    past H ws bid win' \<and> c0 \<le> c' \<and> c' \<le> c0 + k"
  using assms(5-)
proof (induction xs arbitrary: ds win c es)
  case (Cons x xs)
  obtain e es' where es: "es = e # es'" and e: "block_arrival crypto k L src bid e x"
    and es': "list_all2 (block_arrival crypto k L src bid) es' xs"
    using Cons.prems(2) by (cases es) auto
  obtain junk out hdr s where q4: "e = (junk, out, hdr, s)" by (metis prod_cases4)
  note e = e[unfolded q4]
  show ?case
  proof (cases "xs = []")
    case True
    then have "es' = []" using es' by simp
    obtain win' c' where "rx_on_shard clk crypto junk out ws hdr s (win, c) =
        Some (True, win', c', map (\<lambda>i. cut L (src ! i)) [0..<k])" "past H ws bid win'" "c0 \<le> c'" "c' \<le> c0 + k"
      using ready_last[OF Cons.prems(1) H, of x crypto junk out hdr s] Cons.prems(4-7) src e True
      by auto
    then show ?thesis by (simp add: es q4 \<open>es' = []\<close>)
  next
    case False
    have few: "length (ds @ [x]) < k" using Cons.prems(6) False by (cases xs) auto
    have h: "h_block_id hdr = bid" "unat (h_shard_idx hdr) = x" "unat (h_k hdr) = k" "shard_arrays s"
      "coded k L src x (decrypted crypto hdr s)" using e by (simp_all add: block_arrival_def)
    have d: "distinct (ds @ [x])" "set (ds @ [x]) \<subseteq> {..<MAX_N}" using Cons.prems(4,5) by auto
    obtain win1 c1 where on: "rx_on_shard clk crypto junk out ws hdr s (win, c) = Some (False, win1, c1, [])"
      and r1: "ready clk c0 H ws k L src bid (ds @ [x]) win1 c1"
      using ready_step[OF Cons.prems(1) H q d few h] by blast
    obtain win' c' where "rx_run clk crypto ws es' (win1, c1) = Some (win', c', map (\<lambda>i. cut L (src ! i)) [0..<k])"
      "past H ws bid win'" "c0 \<le> c'" "c' \<le> c0 + k"
      using Cons.IH[OF r1 es' False] Cons.prems(4-7) by auto
    then show ?thesis using on by (simp add: es q4)
  qed
qed simp

text \<open>
  A block on its way: its number, \<open>k\<close>, the padded length, the padded packets, the arrivals of \<open>k\<close>
  different shards with their indices, at most one of them a coded one, and what arrives after that.
\<close>

type_synonym flow = "u32 \<times> nat \<times> nat \<times> bytes list \<times> arrival list \<times> nat list \<times> arrival list"

fun flow_ok :: "crypto_ctx \<Rightarrow> flow \<Rightarrow> bool" where
  "flow_ok crypto (bid, k, L, src, es, xs, late) \<longleftrightarrow>
     1 \<le> k \<and> k \<le> MAX_K \<and> L \<le> MAX_PAYLOAD \<and> (\<forall>i < k. L \<le> length (src ! i)) \<and>
     list_all2 (block_arrival crypto k L src bid) es xs \<and> distinct xs \<and> set xs \<subseteq> {..<MAX_N} \<and> length xs = k \<and>
     length (filter (\<lambda>s. k \<le> s) xs) \<le> 1 \<and> (\<forall>(junk, out, hdr, s) \<in> set late. h_block_id hdr = bid)"

fun arrivals_of :: "flow \<Rightarrow> arrival list" where
  "arrivals_of (bid, k, L, src, es, xs, late) = es @ late"

fun packets_of :: "flow \<Rightarrow> bytes list" where
  "packets_of (bid, k, L, src, es, xs, late) = map (\<lambda>i. cut L (src ! i)) [0..<k]"

text \<open>Arrivals of shards of one block are a flow when the first \<open>k\<close> are good for decoding.\<close>

lemma flow_of_arrivals:
  assumes as: "list_all2 (\<lambda>a x. block_arrival crypto k L src bid a x \<and> x < MAX_N) as xs"
    and k: "1 \<le> k" "k \<le> MAX_K" "k \<le> length xs" and L: "L \<le> MAX_PAYLOAD" "\<forall>i < k. L \<le> length (src ! i)"
    and d: "distinct (take k xs)" "length (filter (\<lambda>s. k \<le> s) (take k xs)) \<le> 1"
  shows "flow_ok crypto (bid, k, L, src, take k as, take k xs, drop k as)"
proof -
  have len: "length as = length xs" using as by (rule list_all2_lengthD)
  have at: "block_arrival crypto k L src bid (as ! l) (xs ! l)" "xs ! l < MAX_N" if "l < length xs" for l
    using list_all2_nthD2[OF as that] by simp_all
  have "list_all2 (block_arrival crypto k L src bid) (take k as) (take k xs)"
    using at len by (intro list_all2_all_nthI) simp_all
  moreover have "set (take k xs) \<subseteq> {..<MAX_N}" using at by (auto simp: in_set_conv_nth)
  moreover have "case a of (junk, out, hdr, s) \<Rightarrow> h_block_id hdr = bid" if a: "a \<in> set (drop k as)" for a
  proof -
    obtain l where "l < length as" "as ! l = a" using in_set_dropD[OF a] unfolding in_set_conv_nth by blast
    then show ?thesis using at[of l] len by (auto simp: block_arrival_def)
  qed
  ultimately show ?thesis using k L d by auto
qed

lemma flow_same_block:
  assumes "flow_ok crypto (bid, k, L, src, es, xs, late)"
  shows "\<forall>(junk, out, hdr, s) \<in> set (es @ late). h_block_id hdr = bid"
  using assms by (fastforce simp: list_all2_conv_all_nth in_set_conv_nth block_arrival_def)

lemma past_deaf:
  assumes "past H ws bid win" "\<forall>(junk, out, hdr, s) \<in> set es. h_block_id hdr = bid"
  shows "rx_run clk crypto ws es (win, c) = Some (win, c, [])"
proof (rule deaf)
  show "quiet_window ws win" using assms(1) by (simp add: past_def)
  have "ahead win bid < 0" using assms(1) by (simp add: past_def ahead_def)
  then show "\<forall>e \<in> set es. beyond ws win e" using assms(2) by (auto simp: beyond_def)
qed

lemma flow_delivered:
  assumes "open_for H ws bid win" "H < 2 ^ 30" "steady clk c MAX_K" "flow_ok crypto (bid, k, L, src, es, xs, late)"
  shows "\<exists>win' c'. rx_run clk crypto ws (es @ late) (win, c) = Some (win', c', map (\<lambda>i. cut L (src ! i)) [0..<k]) \<and>
    past H ws bid win' \<and> c \<le> c'"
proof -
  have f: "1 \<le> k" "k \<le> MAX_K" "L \<le> MAX_PAYLOAD" "\<And>i. i < k \<Longrightarrow> L \<le> length (src ! i)"
    "list_all2 (block_arrival crypto k L src bid) es xs" "distinct ([] @ xs)" "set ([] @ xs) \<subseteq> {..<MAX_N}" "length ([] @ xs) = k"
    "length (filter (\<lambda>s. k \<le> s) ([] @ xs)) \<le> 1" "\<forall>(junk, out, hdr, s) \<in> set late. h_block_id hdr = bid"
    using assms(4) by simp_all
  have st: "steady clk c k" using assms(3) f(2) by (simp add: steady_def)
  have r: "ready clk c H ws k L src bid [] win c" using assms(1) by (simp add: ready_def open_for_def)
  have ne: "xs \<noteq> []" using f(1,8) by auto
  obtain win' c' where run: "rx_run clk crypto ws es (win, c) = Some (win', c', map (\<lambda>i. cut L (src ! i)) [0..<k])"
    and p: "past H ws bid win'" "c \<le> c'"
    using ready_run[OF assms(2) st f(3,4) r f(5) ne f(6-9)] by blast
  show ?thesis using run p past_deaf[OF p(1) f(10)] by (auto simp: rx_run_append)
qed

text \<open>Numbers that increase, each inside the window that the block before has left.\<close>

fun numbered :: "nat \<Rightarrow> nat \<Rightarrow> nat \<Rightarrow> flow list \<Rightarrow> bool" where
  "numbered H ws base [] = True"
| "numbered H ws base (f # fs) = (case f of (bid, _) \<Rightarrow>
     base \<le> unat bid \<and> unat bid < base + ws \<and> unat bid \<le> H \<and> numbered H ws (unat bid + 1) fs)"

lemma open_next:
  assumes "session H ws win" "quiet_window ws win" "\<exists>i < ws. \<not> occupied win i" "H < 2 ^ 30"
    and "unat (rw_base_id win) \<le> unat bid" "unat bid < unat (rw_base_id win) + ws" "unat bid \<le> H"
  shows "open_for H ws bid win"
  using assms session_ahead[OF assms(1,4,7)] by (simp add: open_for_def del: of_nat_unat)

lemma stream_delivered:
  assumes "H < 2 ^ 30" "\<And>c. steady clk c MAX_K"
    and "session H ws win" "quiet_window ws win" "\<exists>i < ws. \<not> occupied win i"
    and "numbered H ws (unat (rw_base_id win)) fs" "\<forall>f \<in> set fs. flow_ok crypto f"
  shows "\<exists>win' c'. rx_run clk crypto ws (concat (map arrivals_of fs)) (win, c) = Some (win', c', concat (map packets_of fs))"
  using assms(3-)
proof (induction fs arbitrary: win c)
  case (Cons f fs)
  obtain bid k L src es xs late where f: "f = (bid, k, L, src, es, xs, late)" by (metis prod_cases7)
  have n: "unat (rw_base_id win) \<le> unat bid" "unat bid < unat (rw_base_id win) + ws" "unat bid \<le> H"
    "numbered H ws (unat bid + 1) fs" using Cons.prems(4) by (simp_all add: f)
  have op: "open_for H ws bid win" by (rule open_next[OF Cons.prems(1-3) assms(1) n(1-3)])
  have ok: "flow_ok crypto (bid, k, L, src, es, xs, late)" using Cons.prems(5) by (simp add: f del: flow_ok.simps)
  obtain win1 c1 where run: "rx_run clk crypto ws (es @ late) (win, c) = Some (win1, c1, map (\<lambda>i. cut L (src ! i)) [0..<k])"
    and p: "past H ws bid win1" using flow_delivered[OF op assms(1,2) ok] by blast
  have "unat (rw_base_id win1) = unat bid + 1" using p n(3) assms(1) by (simp add: past_def unat_word_ariths)
  then obtain win' c' where "rx_run clk crypto ws (concat (map arrivals_of fs)) (win1, c1) = Some (win', c', concat (map packets_of fs))"
    using Cons.IH[of win1 c1] p n(4) Cons.prems(5) by (auto simp: past_def simp del: flow_ok.simps)
  then show ?case using run rx_run_append[of clk crypto ws "es @ late"] by (simp add: f)
qed simp

section \<open>Properties\<close>

text \<open>A data shard with \<open>k = 0\<close> in front of the shards of its block: \<open>try_decode\<close> takes the block for
  decoded and the window moves past it.\<close>

lemma zero_k_run:
  assumes "open_for H ws bid win" "H < 2 ^ 30" "steady clk c MAX_K" "flow_ok crypto (bid, k, L, src, es, xs, late)"
    and "h_block_id hdr = bid" "h_k hdr = 0" "unat (h_shard_idx hdr) < MAX_N" "shard_arrays s"
  shows "map_option (snd \<circ> snd) (rx_run clk crypto ws (es @ late) (win, c)) = Some (map (\<lambda>i. cut L (src ! i)) [0..<k]) \<and>
    map_option (snd \<circ> snd) (rx_run clk crypto ws ((junk, out, hdr, s) # es @ late) (win, c)) = Some []"
proof
  show "map_option (snd \<circ> snd) (rx_run clk crypto ws (es @ late) (win, c)) = Some (map (\<lambda>i. cut L (src ! i)) [0..<k])"
    using flow_delivered[OF assms(1-4)] by auto
  obtain win1 c1 where on: "rx_on_shard clk crypto junk out ws hdr s (win, c) = Some (True, win1, c1, [])" and p: "past H ws bid win1"
    using zero_k_decodes[OF assms(1,2,5-8)] by blast
  show "map_option (snd \<circ> snd) (rx_run clk crypto ws ((junk, out, hdr, s) # es @ late) (win, c)) = Some []"
    using on past_deaf[OF p flow_same_block[OF assms(4)]] by simp
qed

definition demo_row :: bytes where
  "demo_row = 69 # replicate 31 0"

definition demo_ip_shard :: shard where
  "demo_ip_shard = \<lparr>coeffs = 1 # replicate 15 0, data = demo_row @ replicate (MAX_PAYLOAD - 32) 0, len = 32\<rparr>"

lemma window_init_open: "1 \<le> ws \<Longrightarrow> ws \<le> MAX_WINDOW \<Longrightarrow> open_for H ws 0 rx_window_init"
  by (simp add: open_for_def session_def window_init_ok quiet_window_def)
    (auto simp: rx_window_init_def occupied_def ahead_def zero_block_def limits intro!: exI[of _ 0])

text \<open>A shard with an index above \<open>k\<close> received ones does not change what is decoded.\<close>

lemma collect_later:
  assumes b: "rx_block_ok b" and later: "k \<le> length (filter (\<lambda>i. rb_received b ! i) [0..<unat (h_shard_idx hdr)])"
  shows "collect k (fst (store_shard clk crypto hdr s b c)) = collect k b"
proof (cases "accepts b hdr")
  case True
  let ?x = "unat (h_shard_idx hdr)" and ?b = "fst (store_shard clk crypto hdr s b c)"
  have x: "?x < MAX_N" using True by (simp add: accepts_def)
  have low: "rb_received ?b ! i = rb_received b ! i" "rb_shards ?b ! i = rb_shards b ! i" if "i < ?x" for i
    using that by (simp_all add: store_shard_accept[OF True])
  have low_k: "take k (filter (\<lambda>i. r ! i) [0..<MAX_N]) = take k (filter (\<lambda>i. r ! i) [0..<?x])"
    if "k \<le> length (filter (\<lambda>i. r ! i) [0..<?x])" for r :: "bool list"
    using that upt_add_eq_append[of 0 ?x "MAX_N - ?x"] x by simp
  have eq: "filter (\<lambda>i. rb_received ?b ! i) [0..<?x] = filter (\<lambda>i. rb_received b ! i) [0..<?x]"
    using low(1) by (intro filter_cong) auto
  have "take k (filter (\<lambda>i. rb_received ?b ! i) [0..<MAX_N]) = take k (filter (\<lambda>i. rb_received b ! i) [0..<MAX_N])"
    using low_k[of "rb_received ?b"] low_k[of "rb_received b"] later by (simp add: eq)
  moreover have "map (\<lambda>i. rb_shards ?b ! i) (take k (filter (\<lambda>i. rb_received b ! i) [0..<MAX_N])) =
      map (\<lambda>i. rb_shards b ! i) (take k (filter (\<lambda>i. rb_received b ! i) [0..<MAX_N]))"
    unfolding low_k[OF later] using low(2) by (intro map_cong) (auto dest: in_set_takeD)
  ultimately show ?thesis by (simp add: collect_def Let_def)
qed (simp add: store_shard_reject)

lemma received_mono:
  assumes "rx_block_ok b" "rb_received b ! i" "i < MAX_N"
  shows "rb_received (fst (store_shard clk crypto hdr s b c)) ! i"
  using assms by (cases "accepts b hdr") (auto simp: store_shard_reject store_shard_accept nth_upd rx_block_ok_def)

definition store_all :: "(nat \<Rightarrow> u64) \<Rightarrow> crypto_ctx \<Rightarrow> (wire_header \<times> shard) list \<Rightarrow> rx_block \<times> nat \<Rightarrow> rx_block \<times> nat" where
  "store_all clk crypto es bc = fold (\<lambda>(hdr, s) (b, c). store_shard clk crypto hdr s b c) es bc"

definition later_shard :: "nat \<Rightarrow> rx_block \<Rightarrow> wire_header \<times> shard \<Rightarrow> bool" where
  "later_shard k b = (\<lambda>(hdr, s). shard_arrays s \<and> unat (h_shard_idx hdr) \<le> MAX_N \<and>
     k \<le> length (filter (\<lambda>i. rb_received b ! i) [0..<unat (h_shard_idx hdr)]))"

lemma later_step:
  assumes b: "rx_block_ok b" and later: "later_shard k b (hdr, s)" "later_shard k b e"
    and st: "store_shard clk crypto hdr s b c = (b1, c1)"
  shows "rx_block_ok b1" "collect k b1 = collect k b" "rb_decoded b1 = rb_decoded b" "later_shard k b1 e"
proof -
  have h: "shard_arrays s" "k \<le> length (filter (\<lambda>i. rb_received b ! i) [0..<unat (h_shard_idx hdr)])"
    using later(1) by (simp_all add: later_shard_def)
  have "length (filter (\<lambda>i. rb_received b ! i) [0..<n]) \<le> length (filter (\<lambda>i. rb_received b1 ! i) [0..<n])" if "n \<le> MAX_N" for n
  proof -
    have "set (filter (\<lambda>i. rb_received b ! i) [0..<n]) \<subseteq> set (filter (\<lambda>i. rb_received b1 ! i) [0..<n])"
      using received_mono[OF b, of _ clk crypto hdr s c] that st by auto
    then have "card (set (filter (\<lambda>i. rb_received b ! i) [0..<n])) \<le> card (set (filter (\<lambda>i. rb_received b1 ! i) [0..<n]))"
      by (intro card_mono) simp_all
    then show ?thesis by (simp only: distinct_card distinct_filter distinct_upt)
  qed
  then show "later_shard k b1 e" using later(2) by (auto simp: later_shard_def intro: order_trans)
  show "rb_decoded b1 = rb_decoded b" using st by (auto simp: store_shard_def Let_def split: if_splits option.splits)
  show "rx_block_ok b1" by (rule store_shard_ok(1)[OF b h(1) st])
  show "collect k b1 = collect k b" using collect_later[OF b h(2), of clk crypto s c] st by simp
qed

lemma store_all_later:
  assumes "rx_block_ok b" "\<forall>e \<in> set es. later_shard k b e"
  shows "collect k (fst (store_all clk crypto es (b, c))) = collect k b \<and>
    rb_decoded (fst (store_all clk crypto es (b, c))) = rb_decoded b"
  using assms
proof (induction es arbitrary: b c)
  case (Cons e es)
  obtain hdr s where e: "e = (hdr, s)" by fastforce
  obtain b1 c1 where st: "store_shard clk crypto hdr s b c = (b1, c1)" by fastforce
  have l: "later_shard k b (hdr, s)" using Cons.prems(2) by (simp add: e)
  note step = later_step[OF Cons.prems(1) l _ st]
  have "\<forall>e \<in> set es. later_shard k b1 e" using step(4) Cons.prems(2) by simp
  then show ?case using Cons.IH[of b1 c1] step(1-3)[OF l] by (simp add: store_all_def e st)
qed (simp add: store_all_def)

text \<open>C16: Only the \<open>k\<close> received shards with the lowest indices are ever decoded: when these are dependent, a
  block stays undecoded whatever shards with higher indices arrive after them, although together they may
  determine the packets.\<close>

theorem dependent_shards_block_decoding:
  assumes "rx_block_ok b" "k \<le> MAX_K" "\<forall>r < k. shard_ok k L (collect k b ! r)" "\<not> determines k (collect k b)"
    and "room k L junk" "L \<le> MAX_PAYLOAD" "k \<le> length (fst out)" "k \<le> length (snd out)"
    and "\<forall>e \<in> set es. later_shard k b e"
  shows "try_decode junk out k (fst (store_all clk crypto es (b, c))) = (False, fst (store_all clk crypto es (b, c)), [])"
proof -
  note st = store_all_later[OF assms(1,9), of clk crypto c]
  have "decode_block junk (collect k b) k (fst out, snd out) = None"
    using decode_succeeds_iff[OF assms(5,6) _ assms(7,8), of "collect k b"] assms(3,4) by blast
  then show ?thesis by (simp add: try_decode_def decodes_now_def st)
qed

definition demo_stuck :: rx_block where
  "demo_stuck = zero_block\<lparr>rb_received := True # replicate 31 False, rb_recv_count := 1\<rparr>"

theorem dependent_shards_block_decoding_witness:
  "try_decode \<lparr>mat = [[0]], dat = [[]], dlen = [0]\<rparr> ([[]], [0]) 1
     (fst (store_all (\<lambda>_. 0) (crypto_init None) [((demo_header 0)\<lparr>h_shard_idx := 5\<rparr>, demo_ip_shard)] (demo_stuck, 0))) =
   (False, fst (store_all (\<lambda>_. 0) (crypto_init None) [((demo_header 0)\<lparr>h_shard_idx := 5\<rparr>, demo_ip_shard)] (demo_stuck, 0)), [])"
proof (rule dependent_shards_block_decoding[where L = 0])
  have c: "collect 1 demo_stuck ! 0 = zero_shard"
    by (simp add: collect_def demo_stuck_def zero_block_def limits upt_conv_Cons)
  show "rx_block_ok demo_stuck" using demo_block_ok[of 0] by (simp add: demo_stuck_def zero_block_def)
  show "\<forall>r < 1. shard_ok 1 0 (collect 1 demo_stuck ! r)" using c by (simp add: shard_ok_def zero_shard_def limits)
  show "\<not> determines 1 (collect 1 demo_stuck)"
    using c by (auto simp: determines_def zero_shard_def limits zero_gf.abs_eq [symmetric] intro!: exI[of _ "\<lambda>_. 1"])
  show "\<forall>e \<in> set [((demo_header 0)\<lparr>h_shard_idx := 5\<rparr>, demo_ip_shard)]. later_shard 1 demo_stuck e"
    by (simp add: later_shard_def shard_arrays_def demo_ip_shard_def demo_row_def demo_header_def demo_stuck_def limits upt_conv_Cons)
qed (simp_all add: limits room_def)

end
