(* ===== verification/Tun.thy ===== *)
theory Tun
  imports Transport
begin

text \<open>
  \<open>src/tun.c\<close>: opening and configuring the TUN device, the forwarding rules and routes, reading and
  writing packets. The answers of the operating system are the record \<open>os_tun\<close>; what the
  program asks of it is the list of calls, in order. This is the Linux branch of the conditional compilation.
\<close>

section \<open>The operating system\<close>

text \<open>The requests to \<open>ioctl\<close> with the members of \<open>struct ifreq\<close> they use.\<close>

datatype ioctl =
    TUNSETIFF string u16
  | SIOCSIFADDR string u32
  | SIOCSIFNETMASK string u32
  | SIOCGIFFLAGS string
  | SIOCSIFFLAGS string u16
  | SIOCSIFMTU string nat

datatype tun_call = Ioctl ioctl | Close int | Proc_write string | Shell string

text \<open>
  The descriptors of \<open>/dev/net/tun\<close> and of the control socket (negative: failure), the value of
  each \<open>ioctl\<close>, the flags that \<open>SIOCGIFFLAGS\<close> reads, whether the file in \<open>/proc\<close> opens, and the
  value of each \<open>system\<close>.
\<close>

record os_tun =
  ot_dev :: int
  ot_sock :: int
  ot_ioctl :: "ioctl \<Rightarrow> int"
  ot_flags :: u16
  ot_proc :: bool
  ot_system :: "string \<Rightarrow> int"

definition IFNAMSIZ :: nat where "IFNAMSIZ = 16"
definition IFF_UP :: u16 where "IFF_UP = 1"
definition IFF_RUNNING :: u16 where "IFF_RUNNING = 0x40"
definition IFF_TUN :: u16 where "IFF_TUN = 1"
definition IFF_NO_PI :: u16 where "IFF_NO_PI = 0x1000"

section \<open>The code\<close>

definition tun_open :: "os_tun \<Rightarrow> string \<Rightarrow> int \<times> tun_call list" where
  "tun_open os name =
     (let fd = ot_dev os in
      if fd < 0 then (- 1, [])
      else
        let r = TUNSETIFF (strncpy (IFNAMSIZ - 1) name) (IFF_TUN OR IFF_NO_PI) in
        if ot_ioctl os r < 0 then (- 1, [Ioctl r, Close fd]) else (fd, [Ioctl r]))"

text \<open>The address and the length of the prefix; \<open>None\<close> is the undefined behaviour of \<open>atoi\<close>.\<close>

definition split_cidr :: "string \<Rightarrow> (string \<times> int) option" where
  "split_cidr addr_cidr =
     (case split_at (CHR ''/'') addr_cidr of
        None \<Rightarrow> Some (strncpy 39 addr_cidr, 24)
      | Some (a, rest) \<Rightarrow>
          (case atoi rest of
             None \<Rightarrow> None
           | Some prefix \<Rightarrow> Some (strncpy 39 a, if prefix < 0 then 0 else if prefix > 32 then 32 else prefix)))"

definition netmask :: "int \<Rightarrow> u32" where
  "netmask prefix = (if prefix = 0 then 0 else push_bit (nat (32 - prefix)) (NOT 0))"

text \<open>\<open>if (ioctl(sock, ...) < 0) { close(sock); return -1; }\<close>, and what follows it.\<close>

definition attempt ::
  "os_tun \<Rightarrow> ioctl \<Rightarrow> tun_call list \<Rightarrow> (tun_call list \<Rightarrow> int \<times> tun_call list) \<Rightarrow> int \<times> tun_call list" where
  "attempt os r calls cont =
     (if ot_ioctl os r < 0 then (- 1, calls @ [Ioctl r, Close (ot_sock os)]) else cont (calls @ [Ioctl r]))"

definition tun_configure :: "os_tun \<Rightarrow> string \<Rightarrow> string \<Rightarrow> (int \<times> tun_call list) option" where
  "tun_configure os name addr_cidr =
     (case split_cidr addr_cidr of
        None \<Rightarrow> None
      | Some (addr, prefix) \<Rightarrow> Some
          (let ifr_name = strncpy (IFNAMSIZ - 1) name; sock = ot_sock os in
           if sock < 0 then (- 1, [])
           else case inet_pton addr of
             None \<Rightarrow> (- 1, [Close sock])
           | Some a \<Rightarrow>
               attempt os (SIOCSIFADDR ifr_name a) [] (\<lambda>calls.
               attempt os (SIOCSIFNETMASK ifr_name (netmask prefix)) calls (\<lambda>calls.
               attempt os (SIOCGIFFLAGS ifr_name) calls (\<lambda>calls.
               attempt os (SIOCSIFFLAGS ifr_name (ot_flags os OR (IFF_UP OR IFF_RUNNING))) calls (\<lambda>calls.
               (0, calls @ [Ioctl (SIOCSIFMTU ifr_name MAX_PAYLOAD), Close sock])))))))"

text \<open>\<open>read\<close> on the device: at most \<open>count\<close> bytes of the packet, or -1.\<close>

definition tun_read :: "bytes option \<Rightarrow> bytes \<Rightarrow> nat \<Rightarrow> int \<times> bytes" where
  "tun_read input buf count =
     (case input of
        None \<Rightarrow> (- 1, buf)
      | Some pkt \<Rightarrow> (int (min count (length pkt)), memcpy buf pkt (min count (length pkt))))"

text \<open>\<open>write\<close> on the device: the packets written so far.\<close>

definition tun_write :: "bytes list \<Rightarrow> bytes \<Rightarrow> nat \<Rightarrow> bytes list" where
  "tun_write written buf count = written @ [take count buf]"

text \<open>\<open>snprintf\<close> into the buffer of a command.\<close>

definition CMD_SIZE :: nat where "CMD_SIZE = 128"

definition snprintf :: "nat \<Rightarrow> string \<Rightarrow> string" where
  "snprintf bufsize txt = take (bufsize - 1) txt"

definition accept_rule :: "string \<Rightarrow> string \<Rightarrow> string" where
  "accept_rule option_name tun_name =
     ''iptables -C FORWARD '' @ option_name @ '' '' @ tun_name @ '' -j ACCEPT 2>/dev/null || '' @
     ''iptables -I FORWARD '' @ option_name @ '' '' @ tun_name @ '' -j ACCEPT''"

definition route_command :: "string \<Rightarrow> string \<Rightarrow> string" where
  "route_command route tun_name = ''ip route replace '' @ route @ '' dev '' @ tun_name"

text \<open>One route of the loop: the command is run, a failure sets the result to -1.\<close>

definition add_route :: "os_tun \<Rightarrow> string \<Rightarrow> gateway_config \<Rightarrow> nat \<Rightarrow> int \<times> tun_call list \<Rightarrow> int \<times> tun_call list" where
  "add_route os tun_name cfg i st =
     (case st of (rc, calls) \<Rightarrow>
        let cmd = snprintf CMD_SIZE (route_command (cfg_forward_routes cfg ! i) tun_name)
        in (if ot_system os cmd \<noteq> 0 then - 1 else rc, calls @ [Shell cmd]))"

definition tun_apply_forward :: "os_tun \<Rightarrow> string \<Rightarrow> gateway_config \<Rightarrow> int \<times> tun_call list" where
  "tun_apply_forward os tun_name cfg =
     (if \<not> cfg_ip_forward cfg then (0, [])
      else
        let (rc, calls) = (if \<not> ot_proc os then (- 1, []) else (0, [Proc_write (''1'' @ [newline])]));
            calls = calls @ [Shell (snprintf CMD_SIZE (accept_rule ''-i'' tun_name)),
                             Shell (snprintf CMD_SIZE (accept_rule ''-o'' tun_name))]
        in fold (add_route os tun_name cfg) [0..<cfg_forward_route_count cfg] (rc, calls))"

section \<open>The configured device\<close>

lemma bit_netmask: "0 \<le> p \<Longrightarrow> p \<le> 32 \<Longrightarrow> bit (netmask p) i \<longleftrightarrow> nat (32 - p) \<le> i \<and> i < 32"
  by (auto simp: netmask_def bit_simps)

lemma split_cidr_range: "split_cidr s = Some (a, p) \<Longrightarrow> 0 \<le> p \<and> p \<le> 32 \<and> length a < 40"
  by (auto simp: split_cidr_def strncpy_def split: option.splits if_splits)

text \<open>The control socket is closed whatever fails, and nothing is asked of the device after a failure.\<close>

lemma attempt_cases:
  "attempt os r calls cont = (rc, calls') \<Longrightarrow>
     (0 \<le> ot_ioctl os r \<and> cont (calls @ [Ioctl r]) = (rc, calls')) \<or>
     (ot_ioctl os r < 0 \<and> rc = - 1 \<and> calls' = calls @ [Ioctl r, Close (ot_sock os)])"
  by (auto simp: attempt_def split: if_splits)

definition answered :: "os_tun \<Rightarrow> tun_call list \<Rightarrow> bool" where
  "answered os calls \<longleftrightarrow> (\<forall>c \<in> set calls. case c of Ioctl r \<Rightarrow> 0 \<le> ot_ioctl os r | _ \<Rightarrow> True)"

definition setup_requests :: "os_tun \<Rightarrow> string \<Rightarrow> u32 \<Rightarrow> int \<Rightarrow> ioctl list" where
  "setup_requests os name a p =
     [SIOCSIFADDR name a, SIOCSIFNETMASK name (netmask p), SIOCGIFFLAGS name,
      SIOCSIFFLAGS name (ot_flags os OR (IFF_UP OR IFF_RUNNING))]"

lemma configure_done:
  assumes "split_cidr addr_cidr = Some (addr, p)" "0 \<le> ot_sock os" "inet_pton addr = Some a" "length name < IFNAMSIZ"
  shows "tun_configure os name addr_cidr =
    Some (if \<forall>r \<in> set (setup_requests os name a p). 0 \<le> ot_ioctl os r
          then (0, map Ioctl (setup_requests os name a p) @ [Ioctl (SIOCSIFMTU name MAX_PAYLOAD), Close (ot_sock os)])
          else (- 1, map Ioctl (takeWhile (\<lambda>r. 0 \<le> ot_ioctl os r) (setup_requests os name a p)) @
                 [Ioctl (the (find (\<lambda>r. ot_ioctl os r < 0) (setup_requests os name a p))), Close (ot_sock os)]))"
proof -
  have "strncpy (IFNAMSIZ - 1) name = name" using assms(4) by (simp add: strncpy_def IFNAMSIZ_def)
  then show ?thesis using assms by (simp add: tun_configure_def attempt_def setup_requests_def not_less)
qed

section \<open>Commands\<close>

lemma accept_rule_length: "length opt = 2 \<Longrightarrow> length name < IFNAMSIZ \<Longrightarrow> length (accept_rule opt name) < CMD_SIZE"
  by (simp add: accept_rule_def IFNAMSIZ_def CMD_SIZE_def)

lemma route_command_length: "length route < 48 \<Longrightarrow> length name < IFNAMSIZ \<Longrightarrow> length (route_command route name) < CMD_SIZE"
  by (simp add: route_command_def IFNAMSIZ_def CMD_SIZE_def)

lemma snprintf_fits: "length txt < bufsize \<Longrightarrow> snprintf bufsize txt = txt"
  by (simp add: snprintf_def)

lemma add_routes:
  assumes "\<And>i. i < n \<Longrightarrow> length (cfg_forward_routes cfg ! i) < 48" "length name < IFNAMSIZ"
  shows "fold (add_route os name cfg) [0..<n] (rc, calls) =
    (if \<forall>i < n. ot_system os (route_command (cfg_forward_routes cfg ! i) name) = 0 then rc else - 1,
     calls @ map (\<lambda>i. Shell (route_command (cfg_forward_routes cfg ! i) name)) [0..<n])"
  using assms(1)
proof (induction n)
  case (Suc n)
  have "snprintf CMD_SIZE (route_command (cfg_forward_routes cfg ! n) name) = route_command (cfg_forward_routes cfg ! n) name"
    using Suc.prems[of n] assms(2) by (intro snprintf_fits route_command_length) simp_all
  then show ?case using Suc.IH Suc.prems by (auto simp: add_route_def Let_def less_Suc_eq)
qed simp

lemma apply_forward_eq:
  assumes "config_shape cfg" "cfg_ip_forward cfg"
  defines "routes \<equiv> take (cfg_forward_route_count cfg) (cfg_forward_routes cfg)" and "name \<equiv> cfg_tun_name cfg"
  shows "tun_apply_forward os name cfg =
    (if ot_proc os \<and> (\<forall>r \<in> set routes. ot_system os (route_command r name) = 0) then 0 else - 1,
     (if ot_proc os then [Proc_write (''1'' @ [newline])] else []) @
     [Shell (accept_rule ''-i'' name), Shell (accept_rule ''-o'' name)] @ map (\<lambda>r. Shell (route_command r name)) routes)"
proof -
  let ?n = "cfg_forward_route_count cfg"
  have n: "?n \<le> length (cfg_forward_routes cfg)" "length name < IFNAMSIZ" using assms(1) by (simp_all add: config_shape_def name_def IFNAMSIZ_def)
  have r: "length (cfg_forward_routes cfg ! i) < 48" if "i < ?n" for i
    using assms(1) that n(1) by (simp add: config_shape_def)
  have eq: "routes = map (\<lambda>i. cfg_forward_routes cfg ! i) [0..<?n]"
    using n(1) by (intro nth_equalityI) (simp_all add: routes_def)
  have "(\<forall>i < ?n. ot_system os (route_command (cfg_forward_routes cfg ! i) name) = 0) \<longleftrightarrow>
      (\<forall>r \<in> set routes. ot_system os (route_command r name) = 0)"
    by (auto simp: eq)
  moreover have "snprintf CMD_SIZE (accept_rule opt name) = accept_rule opt name" if "length opt = 2" for opt
    using that n(2) by (intro snprintf_fits accept_rule_length)
  ultimately show ?thesis
    using assms(2) add_routes[OF r n(2), of ?n os] by (simp add: tun_apply_forward_def eq)
qed

section \<open>Properties\<close>

text \<open>C35: With an address of the form \<open>a.b.c.d/p\<close>, and every request answered, \<open>tun_configure\<close> sets the
  address, the net mask whose upper \<open>p\<close> bits are set (\<open>p\<close> forced into 0 to 32), raises the flags
  UP and RUNNING without clearing another, sets the MTU to \<open>MAX_PAYLOAD\<close> and closes the control socket.\<close>

theorem device_configured:
  assumes "inet_pton addr = Some a" "CHR ''/'' \<notin> set addr" "length addr < 40" "atoi t = Some p"
    and "length name < IFNAMSIZ" "0 \<le> ot_sock os" "\<And>r. 0 \<le> ot_ioctl os r"
  shows "\<exists>m fl. tun_configure os name (addr @ CHR ''/'' # t) =
      Some (0, map Ioctl [SIOCSIFADDR name a, SIOCSIFNETMASK name m, SIOCGIFFLAGS name, SIOCSIFFLAGS name fl,
        SIOCSIFMTU name MAX_PAYLOAD] @ [Close (ot_sock os)]) \<and>
    (\<forall>i < 32. bit m i \<longleftrightarrow> 32 - min 32 (max 0 p) \<le> int i) \<and>
    (\<forall>i. bit fl i \<longleftrightarrow> bit (ot_flags os) i \<or> i = 0 \<or> i = 6)"
proof (intro exI conjI)
  let ?p = "min 32 (max 0 p)"
  let ?fl = "ot_flags os OR (IFF_UP OR IFF_RUNNING)"
  have "strncpy 39 addr = addr" using assms(3) by (simp add: strncpy_def)
  then have "split_cidr (addr @ CHR ''/'' # t) = Some (addr, ?p)"
    using assms(4) by (auto simp: split_cidr_def split_at_first[OF assms(2)])
  from configure_done[OF this assms(6,1,5)] assms(7)
  show "tun_configure os name (addr @ CHR ''/'' # t) =
      Some (0, map Ioctl [SIOCSIFADDR name a, SIOCSIFNETMASK name (netmask ?p), SIOCGIFFLAGS name, SIOCSIFFLAGS name ?fl,
        SIOCSIFMTU name MAX_PAYLOAD] @ [Close (ot_sock os)])"
    by (simp add: setup_requests_def)
  show "\<forall>i < 32. bit (netmask ?p) i \<longleftrightarrow> 32 - ?p \<le> int i" by (auto simp: bit_netmask nat_le_iff)
  have run: "IFF_RUNNING = push_bit 6 1" by (simp add: IFF_RUNNING_def)
  have "bit IFF_RUNNING i \<longleftrightarrow> i = 6" for i unfolding run bit_push_bit_iff bit_1_iff by auto
  moreover have "bit IFF_UP i \<longleftrightarrow> i = 0" for i by (auto simp: IFF_UP_def bit_simps)
  ultimately show "\<forall>i. bit ?fl i \<longleftrightarrow> bit (ot_flags os) i \<or> i = 0 \<or> i = 6" by (auto simp: bit_or_iff)
qed

definition demo_os :: os_tun where
  "demo_os = \<lparr>ot_dev = 3, ot_sock = 4, ot_ioctl = (\<lambda>_. 0), ot_flags = 0, ot_proc = True, ot_system = (\<lambda>_. 0)\<rparr>"

theorem device_configured_witness:
  "\<exists>m fl. tun_configure demo_os ''tun0'' ''10.0.0.1/24'' =
      Some (0, map Ioctl [SIOCSIFADDR ''tun0'' 0x0A000001, SIOCSIFNETMASK ''tun0'' m, SIOCGIFFLAGS ''tun0'',
        SIOCSIFFLAGS ''tun0'' fl, SIOCSIFMTU ''tun0'' 1400] @ [Close 4]) \<and> bit m 8 \<and> \<not> bit m 7"
proof -
  have "inet_pton ''10.0.0.1'' = Some 0x0A000001" "atoi ''24'' = Some 24" by code_simp+
  from device_configured[of "''10.0.0.1''", OF this(1) _ _ this(2), of "''tun0''" demo_os] show ?thesis
    by (auto simp: IFNAMSIZ_def demo_os_def limits)
qed

text \<open>Whatever the operating system answers, \<open>tun_configure\<close> closes the control socket exactly once
  and at the end, asks nothing after the first refused request, and returns 0 exactly when it got as far
  as the MTU, whose refusal it ignores; an address that does not parse makes no request at all.\<close>

lemma configure_stops_at_refusal:
  assumes "tun_configure os name s = Some (rc, calls)" "0 \<le> ot_sock os"
  shows "\<exists>rs. calls = map Ioctl rs @ [Close (ot_sock os)] \<and> (\<forall>r \<in> set (butlast rs). 0 \<le> ot_ioctl os r) \<and>
    rc = (if length rs = 5 then 0 else - 1) \<and> (rs \<noteq> [] \<and> length rs \<noteq> 5 \<longrightarrow> ot_ioctl os (last rs) < 0) \<and>
    (\<forall>addr p. split_cidr s = Some (addr, p) \<longrightarrow> (rs = [] \<longleftrightarrow> inet_pton addr = None))"
proof -
  obtain addr p where sp: "split_cidr s = Some (addr, p)" using assms(1) by (auto simp: tun_configure_def split: option.splits)
  let ?n = "strncpy (IFNAMSIZ - 1) name"
  show ?thesis
  proof (cases "inet_pton addr")
    case None
    then show ?thesis using assms sp by (intro exI[of _ "[]"]) (auto simp: tun_configure_def)
  next
    case (Some a)
    have "strncpy (IFNAMSIZ - 1) ?n = ?n" by (simp add: strncpy_def)
    then have t: "tun_configure os name s = tun_configure os ?n s" by (simp only: tun_configure_def)
    have n: "length ?n < IFNAMSIZ" by (simp add: strncpy_def IFNAMSIZ_def)
    show ?thesis
      using assms(1)[unfolded t configure_done[OF sp assms(2) Some n]] sp Some
      by (intro exI[of _ "map (\<lambda>c. case c of Ioctl r \<Rightarrow> r) (butlast calls)"])
        (auto simp: setup_requests_def split: if_splits)
  qed
qed

text \<open>C36: For every valid configuration, when forwarding is on, the commands of \<open>tun_apply_forward\<close> fit the 128
  characters of the buffer: exactly the two accept rules and one command for each route are run, in order, and the
  result is 0 when the file in \<open>/proc\<close> opens and every route command succeeds; a failing rule is ignored. When
  forwarding is off, nothing is written or run and the result is 0.\<close>

theorem forward_commands_fit:
  assumes "config_ok cfg"
  shows "tun_apply_forward os (cfg_tun_name cfg) cfg =
    (if cfg_ip_forward cfg then
       let routes = take (cfg_forward_route_count cfg) (cfg_forward_routes cfg) in
       (if ot_proc os \<and> (\<forall>r \<in> set routes. ot_system os (route_command r (cfg_tun_name cfg)) = 0) then 0 else - 1,
        (if ot_proc os then [Proc_write (''1'' @ [newline])] else []) @
        [Shell (accept_rule ''-i'' (cfg_tun_name cfg)), Shell (accept_rule ''-o'' (cfg_tun_name cfg))] @
        map (\<lambda>r. Shell (route_command r (cfg_tun_name cfg))) routes)
     else (0, []))"
proof (cases "cfg_ip_forward cfg")
  case True
  then show ?thesis using apply_forward_eq[of cfg os] assms by (simp add: config_ok_def Let_def)
qed (simp add: tun_apply_forward_def)

theorem forward_commands_fit_witness:
  "\<exists>cfg. tun_apply_forward demo_os ''tun0'' cfg =
     (0, [Proc_write (''1'' @ [newline]), Shell (accept_rule ''-i'' ''tun0''), Shell (accept_rule ''-o'' ''tun0''),
          Shell ''ip route replace 10.1.0.0/16 dev tun0''])"
proof -
  let ?c = "default_config\<lparr>cfg_tun_name := ''tun0'', cfg_ip_forward := True,
    cfg_forward_routes := ''10.1.0.0/16'' # replicate 7 [], cfg_forward_route_count := 1\<rparr>"
  have "config_ok ?c" using default_config_shape
    by (auto simp: config_ok_def config_shape_def default_config_def limits)
  from forward_commands_fit[OF this, of demo_os] show ?thesis
    by (intro exI[of _ ?c]) (simp add: demo_os_def route_command_def)
qed

end
