(* ===== verification/Gateway.thy ===== *)
theory Gateway
  imports Tx Rx Tun "HOL-Library.Monad_Syntax"
begin

text \<open>
  \<open>src/main.c\<close>: start-up, the event loop and the shutdown, composed of the operations of the other
  theories. A pass of the loop takes a \<open>poll\<close>: what the operating system answers in that pass.
  \<open>None\<close> is undefined behaviour in one of the operations called, an access past the end of an array
  included, or a loop that does not end.
\<close>

section \<open>The state and the world\<close>

text \<open>The readings of the clock, the values of \<open>sendto\<close>, and the values of \<open>rand\<close>, each in order.\<close>

record world =
  w_time :: "nat \<Rightarrow> timeval"
  w_net :: "nat \<Rightarrow> int"
  w_rand :: "nat \<Rightarrow> nat"

text \<open>The local variables of \<open>main\<close> and the globals; \<open>gw_device\<close> holds the calls that set the device and its
  routes up, \<open>gw_clock\<close> counts the readings of the clock, \<open>gw_written\<close> holds the packets written to the
  device, \<open>gw_http\<close> the responses.\<close>

record gateway =
  gw_cfg :: gateway_config
  gw_config_path :: string
  gw_log_level :: int
  gw_crypto :: crypto_ctx
  gw_is_tx :: bool
  gw_is_rx :: bool
  gw_tun_fd :: int
  gw_device :: "tun_call list"
  gw_metrics_fd :: int
  gw_tctx :: transport_ctx
  gw_out :: tx_state
  gw_block :: tx_block
  gw_next_id :: u32
  gw_window :: rx_window
  gw_clock :: nat
  gw_last_probe :: timeval
  gw_written :: "bytes list"
  gw_http :: "string list"
  gw_running :: bool
  gw_reload :: bool
  gw_signal :: int

text \<open>
  One pass: the signals that arrive before the test of the loop and during \<open>select\<close>, the value of
  \<open>select\<close> and the descriptors it leaves in the set, the packet on the device, the datagram with
  its sender, the value of \<open>accept\<close>, the files, and the uninitialised objects of the pass.
\<close>

record poll =
  po_before :: "int list"
  po_during :: "int list"
  po_ret :: int
  po_ready :: "int set"
  po_packet :: "bytes option"
  po_dgram :: "(bytes \<times> u32) option"
  po_conn :: int
  po_files :: "string \<Rightarrow> string option"
  po_pkt_buf :: bytes
  po_shard :: shard
  po_shards :: "shard list"
  po_gj :: gj
  po_decoded :: "bytes list \<times> u16 list"

definition SIGHUP :: int where "SIGHUP = 1"
definition SIGINT :: int where "SIGINT = 2"
definition SIGTERM :: int where "SIGTERM = 15"

section \<open>Signals and reload\<close>

definition sig_handler :: "int \<Rightarrow> gateway \<Rightarrow> gateway" where
  "sig_handler sig g = g\<lparr>gw_signal := sig, gw_running := False\<rparr>"

definition sighup_handler :: "gateway \<Rightarrow> gateway" where
  "sighup_handler g = g\<lparr>gw_reload := True\<rparr>"

definition deliver :: "int \<Rightarrow> gateway \<Rightarrow> gateway" where
  "deliver sig g =
     (if sig = SIGINT \<or> sig = SIGTERM then sig_handler sig g
      else if sig = SIGHUP then sighup_handler g else g)"

definition do_reload :: "(string \<Rightarrow> string option) \<Rightarrow> gateway \<Rightarrow> gateway option" where
  "do_reload files g =
     (let g = g\<lparr>gw_reload := False\<rparr> in
      case config_load (files (gw_config_path g)) of
        Unreadable \<Rightarrow> Some g
      | Undefined \<Rightarrow> None
      | Loaded new_cfg \<Rightarrow>
          do {
            sctx \<leftarrow> strategy_reload (ts_strategy (gw_out g)) new_cfg;
            Some (g\<lparr>gw_out := (gw_out g)\<lparr>ts_strategy := sctx\<rparr>,
                    gw_cfg := (gw_cfg g)\<lparr>cfg_redundancy_ratio := cfg_redundancy_ratio new_cfg,
                      cfg_probe_interval_ms := cfg_probe_interval_ms new_cfg,
                      cfg_probe_loss_threshold := cfg_probe_loss_threshold new_cfg,
                      cfg_block_timeout_ms := cfg_block_timeout_ms new_cfg\<rparr>,
                    gw_log_level := cfg_log_level new_cfg\<rparr>)
          })"

section \<open>Waiting\<close>

text \<open>The descriptors that a pass waits for with the first argument of \<open>select\<close>, and the time-out.\<close>

definition watched :: "gateway \<Rightarrow> int set \<times> int" where
  "watched g =
     (let (rfds, nfds) = transport_fill_fdset (gw_tctx g) {};
          (rfds, nfds) = (if gw_is_tx g then (insert (gw_tun_fd g) rfds, max (gw_tun_fd g + 1) nfds) else (rfds, nfds))
      in if gw_metrics_fd g \<ge> 0 then (insert (gw_metrics_fd g) rfds, max (gw_metrics_fd g + 1) nfds) else (rfds, nfds))"

definition select_timeout :: "gateway_config \<Rightarrow> timeval" where
  "select_timeout cfg =
     (let to_ms = cfg_block_timeout_ms cfg;
          to_ms = (if cfg_probe_interval_ms cfg < to_ms then cfg_probe_interval_ms cfg else to_ms);
          to_ms = (if to_ms < 1 then 1 else to_ms)
      in (to_ms sdiv 1000, to_ms smod 1000 * 1000))"

section \<open>The sender\<close>

definition flush_and_renew :: "world \<Rightarrow> poll \<Rightarrow> gateway \<Rightarrow> gateway option" where
  "flush_and_renew w p g =
     do {
       (_, st) \<leftarrow> tx_block_flush (w_net w) (w_rand w) (po_shards p) (gw_crypto g) (gw_tctx g) (nat (cfg_k (gw_cfg g)))
                   (gw_block g) (gw_out g);
       Some (g\<lparr>gw_out := st, gw_block := tx_block_init (gw_next_id g), gw_next_id := gw_next_id g + 1\<rparr>)
     }"

definition on_tun_packet :: "world \<Rightarrow> poll \<Rightarrow> int set \<Rightarrow> gateway \<Rightarrow> gateway option" where
  "on_tun_packet w p rfds g =
     (if gw_is_tx g \<and> gw_tun_fd g \<in> rfds then
        (case tun_read (po_packet p) (po_pkt_buf p) MAX_PAYLOAD of (pkt_len, pkt_buf) \<Rightarrow>
           if pkt_len > 0 then
             if \<not> (inside (po_pkt_buf p) 0 (nat pkt_len) \<and>
                    add_inside (gw_block g) pkt_buf (word_of_int pkt_len) (nat (cfg_k (gw_cfg g)))) then None
             else
             let c = gw_clock g;
                 c' = (if tb_pkt_count (gw_block g) = 0 then c + 1 else c);
                 (blk, full) = tx_block_add_pkt (w_time w c) (gw_block g) pkt_buf (word_of_int pkt_len) (nat (cfg_k (gw_cfg g)));
                 g = g\<lparr>gw_block := blk, gw_clock := c'\<rparr>
             in if full then flush_and_renew w p g else Some g
           else Some g)
      else Some g)"

definition on_block_timeout :: "world \<Rightarrow> poll \<Rightarrow> gateway \<Rightarrow> gateway option" where
  "on_block_timeout w p g =
     (if gw_is_tx g then
        let c = gw_clock g;
            due = tx_block_needs_flush (w_time w c) (gw_block g) (cfg_block_timeout_ms (gw_cfg g));
            g = g\<lparr>gw_clock := (if tb_pkt_count (gw_block g) = 0 then c else c + 1)\<rparr>
        in if due then flush_and_renew w p g else Some g
      else Some g)"

section \<open>The receiver\<close>

text \<open>A data shard; \<open>path_idx\<close> indexes the counters of the shards received.\<close>

definition on_data :: "world \<Rightarrow> poll \<Rightarrow> wire_header \<Rightarrow> shard \<Rightarrow> nat \<Rightarrow> gateway \<Rightarrow> gateway option" where
  "on_data w p hdr shard_in path_idx g =
     (if \<not> (rx_inside (\<lambda>i. now_us (w_time w i)) (gw_crypto g) (po_gj p) (po_decoded p)
             (nat (cfg_window_size (gw_cfg g))) hdr shard_in (gw_window g, gw_clock g) \<and>
            inside (m_shards_received (ts_metrics (gw_out g))) path_idx 1) then None
      else case rx_on_shard (\<lambda>i. now_us (w_time w i)) (gw_crypto g) (po_gj p) (po_decoded p)
             (nat (cfg_window_size (gw_cfg g))) hdr shard_in (gw_window g, gw_clock g) of
        None \<Rightarrow> None
      | Some (decoded, win, c, pkts) \<Rightarrow>
          (let m = ts_metrics (gw_out g);
               m = m\<lparr>m_shards_received := count_at path_idx (m_shards_received m)\<rparr>;
               m = (if decoded then m\<lparr>m_decode_success := m_decode_success m + 1\<rparr> else m)
           in Some (g\<lparr>gw_out := (gw_out g)\<lparr>ts_metrics := m\<rparr>, gw_window := win, gw_clock := c,
                      gw_written := gw_written g @ pkts\<rparr>)))"

definition on_datagram :: "world \<Rightarrow> poll \<Rightarrow> int set \<Rightarrow> gateway \<Rightarrow> gateway option" where
  "on_datagram w p rfds g =
     (case transport_recv (gw_tctx g) (if tc_recv_fd (gw_tctx g) \<in> rfds then po_dgram p else None) (po_shard p) of
        Recv_none \<Rightarrow> Some g
      | Recv_overrun \<Rightarrow> None
      | Recv_data hdr shard_in path_idx \<Rightarrow> if gw_is_rx g then on_data w p hdr shard_in path_idx g else Some g
      | Recv_probe path_idx probe_ts \<Rightarrow>
          if \<not> inside (tc_paths (gw_tctx g)) path_idx 1 then None
          else (case transport_send_probe_echo (w_net w) (gw_tctx g) path_idx probe_ts (ts_sent (gw_out g)) of (_, sent) \<Rightarrow>
             Some (g\<lparr>gw_out := (gw_out g)\<lparr>ts_sent := sent\<rparr>\<rparr>))
      | Recv_probe_echo path_idx probe_ts \<Rightarrow>
          if gw_is_tx g then
            do {
              let rtt_us = now_us (w_time w (gw_clock g)) - probe_ts;
              sctx \<leftarrow> strategy_update_probe (ts_strategy (gw_out g)) (int path_idx) rtt_us True;
              Some (g\<lparr>gw_out := (gw_out g)\<lparr>ts_strategy := sctx\<rparr>, gw_clock := gw_clock g + 1\<rparr>)
            }
          else Some g)"

section \<open>Metrics and probes\<close>

definition path_gauges :: "strategy_ctx \<Rightarrow> nat \<Rightarrow> string \<times> cfloat \<times> cfloat" where
  "path_gauges sctx i =
     (case strategy_get_path_state sctx (int i) of
        Some ps \<Rightarrow> (pc_name (p_cfg ps), p_loss_rate ps, p_rtt_ms ps)
      | None \<Rightarrow> ([], Fin 0, Fin 0))"

text \<open>The gauges are collected in arrays of \<open>MAX_PATHS\<close>.\<close>

definition on_metrics :: "poll \<Rightarrow> int set \<Rightarrow> gateway \<Rightarrow> gateway option" where
  "on_metrics p rfds g =
     (if gw_metrics_fd g \<ge> 0 \<and> gw_metrics_fd g \<in> rfds then
        let sctx = ts_strategy (gw_out g); pc = nat (strategy_path_count sctx);
            gauges = map (path_gauges sctx) [0..<pc]
        in if pc > MAX_PATHS then None
        else do {
          resp \<leftarrow> metrics_handle (po_conn p) (ts_metrics (gw_out g)) (map fst gauges) pc
                    (map (fst \<circ> snd) gauges) (map (snd \<circ> snd) gauges) (cfg_redundancy_ratio (gw_cfg g));
          Some (if po_conn p < 0 then g else g\<lparr>gw_http := gw_http g @ [resp]\<rparr>)
        }
      else Some g)"

definition probe_path :: "world \<Rightarrow> transport_ctx \<Rightarrow> u64 \<Rightarrow> nat \<Rightarrow> tx_state \<Rightarrow> tx_state" where
  "probe_path w tctx ts p st =
     (case strategy_get_path_state (ts_strategy st) (int p) of
        None \<Rightarrow> st
      | Some ps \<Rightarrow>
          if p_alive ps then
            (case transport_send_probe (w_net w) tctx p ts (ts_sent st) of (_, sent) \<Rightarrow>
               st\<lparr>ts_sent := sent,
                  ts_strategy := (ts_strategy st)\<lparr>sc_paths :=
                    (sc_paths (ts_strategy st))[p := ps\<lparr>p_probes_sent := p_probes_sent ps + 1\<rparr>]\<rparr>\<rparr>)
          else st)"

definition on_probe_timer :: "world \<Rightarrow> gateway \<Rightarrow> gateway option" where
  "on_probe_timer w g =
     (if gw_is_tx g then
        let c = gw_clock g;
            now_tv = w_time w c;
            probe_elapsed = elapsed_ms now_tv (gw_last_probe g)
        in if probe_elapsed \<ge> cfg_probe_interval_ms (gw_cfg g) then
             let pc = nat (strategy_path_count (ts_strategy (gw_out g)));
                 ts = now_us (w_time w (c + 1))
             in if \<not> inside (tc_paths (gw_tctx g)) 0 pc then None
             else Some (g\<lparr>gw_out := fold (probe_path w (gw_tctx g) ts) [0..<pc] (gw_out g), gw_clock := c + 2,
                  gw_last_probe := now_tv\<rparr>)
           else Some (g\<lparr>gw_clock := c + 1\<rparr>)
      else Some g)"

section \<open>The event loop\<close>

definition serve :: "world \<Rightarrow> poll \<Rightarrow> int set \<Rightarrow> gateway \<Rightarrow> gateway option" where
  "serve w p rfds g =
     do {
       g \<leftarrow> on_tun_packet w p rfds g;
       g \<leftarrow> on_block_timeout w p g;
       g \<leftarrow> on_datagram w p rfds g;
       g \<leftarrow> on_metrics p rfds g;
       on_probe_timer w g
     }"

definition loop_body :: "world \<Rightarrow> poll \<Rightarrow> gateway \<Rightarrow> gateway option" where
  "loop_body w p g =
     (let rfds = po_ready p \<inter> fst (watched g);
          g = fold deliver (po_during p) g
      in if po_ret p < 0 then
           (if \<not> gw_running g then Some g
            else if gw_reload g then do_reload (po_files p) g
            else Some g)
         else if gw_reload g then do_reload (po_files p) g
         else serve w p rfds g)"

text \<open>The loop over the passes; it ends when the flag is cleared, or when the given passes are used up.\<close>

fun event_loop :: "world \<Rightarrow> poll list \<Rightarrow> gateway \<Rightarrow> gateway option" where
  "event_loop w [] g = Some g"
| "event_loop w (p # ps) g =
     (let g = fold deliver (po_before p) g in
      if \<not> gw_running g then Some g
      else case loop_body w p g of None \<Rightarrow> None | Some g' \<Rightarrow> event_loop w ps g')"

section \<open>Start-up and shutdown\<close>

text \<open>The machine at start: its files, the device, the sockets, whether the allocation of the scheduler
  succeeds, and for the exporter the descriptor and the outcomes of \<open>bind\<close> and \<open>listen\<close>.\<close>

record host =
  ho_files :: "string \<Rightarrow> string option"
  ho_tun :: os_tun
  ho_sockets :: os_sockets
  ho_memory :: bool
  ho_metrics :: "int \<times> bool \<times> bool"

text \<open>The end of \<open>main\<close> before the loop with status 1 and the descriptors it closed itself, undefined
  behaviour, or the start of the loop.\<close>

datatype startup = Exits "int list" | Start_undefined | Starts gateway

definition init_crypto :: "gateway_config \<Rightarrow> crypto_ctx option" where
  "init_crypto cfg =
     (if cfg_crypto_key cfg \<noteq> [] then
        (case crypto_parse_key (cfg_crypto_key cfg) of
           None \<Rightarrow> None
         | Some key_bin \<Rightarrow> Some (crypto_init (Some key_bin)))
      else Some (crypto_init None))"

definition start_loop ::
  "world \<Rightarrow> host \<Rightarrow> string \<Rightarrow> gateway_config \<Rightarrow> crypto_ctx \<Rightarrow> int \<Rightarrow> tun_call list \<Rightarrow>
     transport_ctx \<Rightarrow> strategy_ctx \<Rightarrow> gateway" where
  "start_loop w h config_path cfg crypto tun_fd device tctx sctx =
     \<lparr>gw_cfg = cfg, gw_config_path = config_path, gw_log_level = cfg_log_level cfg, gw_crypto = crypto,
      gw_is_tx = (cfg_mode cfg = ''tx'' \<or> cfg_mode cfg = ''both''), gw_is_rx = (cfg_mode cfg = ''rx'' \<or> cfg_mode cfg = ''both''),
      gw_tun_fd = tun_fd, gw_device = device,
      gw_metrics_fd = (if cfg_metrics_port cfg > 0
                       then (case ho_metrics h of (sock, bound, listening) \<Rightarrow> metrics_listen sock bound listening) else - 1),
      gw_tctx = tctx,
      gw_out = \<lparr>ts_strategy = sctx, ts_sent = [], ts_metrics = zero_metrics, ts_rand = 0\<rparr>,
      gw_block = tx_block_init 0, gw_next_id = 1, gw_window = rx_window_init, gw_clock = 1, gw_last_probe = w_time w 0,
      gw_written = [], gw_http = [], gw_running = True, gw_reload = False, gw_signal = 0\<rparr>"

text \<open>The result of \<open>tun_apply_forward\<close> is only logged.\<close>

definition start_config :: "world \<Rightarrow> host \<Rightarrow> string \<Rightarrow> gateway_config \<Rightarrow> startup" where
  "start_config w h config_path cfg =
     (case init_crypto cfg of
        None \<Rightarrow> Exits []
      | Some crypto \<Rightarrow>
          (let tun_fd = fst (tun_open (ho_tun h) (cfg_tun_name cfg)) in
           if tun_fd < 0 then Exits []
           else case tun_configure (ho_tun h) (cfg_tun_name cfg) (cfg_tun_addr cfg) of
             None \<Rightarrow> Start_undefined
           | Some (rc, calls) \<Rightarrow>
               if rc \<noteq> 0 then Exits [tun_fd]
               else let commands = snd (tun_apply_forward (ho_tun h) (cfg_tun_name cfg) cfg) in
               case transport_init (ho_sockets h) cfg (word_of_int (cfg_listen_port cfg)) of
                 None \<Rightarrow> Exits [tun_fd]
               | Some tctx \<Rightarrow>
                   if \<not> ho_memory h then Exits (transport_free tctx @ [tun_fd])
                   else case strategy_init cfg of
                     None \<Rightarrow> Start_undefined
                   | Some sctx \<Rightarrow> Starts (start_loop w h config_path cfg crypto tun_fd (calls @ commands) tctx sctx)))"

definition gateway_start :: "world \<Rightarrow> host \<Rightarrow> string list \<Rightarrow> startup" where
  "gateway_start w h argv =
     (case argv of
        _ # opt # config_path # _ \<Rightarrow>
          if opt \<noteq> ''--config'' then Exits []
          else case config_load (ho_files h config_path) of
            Unreadable \<Rightarrow> Exits []
          | Undefined \<Rightarrow> Start_undefined
          | Loaded cfg \<Rightarrow> start_config w h config_path cfg
      | _ \<Rightarrow> Exits [])"

text \<open>After the loop: the last state and the descriptors closed.\<close>

definition gateway_stop :: "world \<Rightarrow> poll \<Rightarrow> gateway \<Rightarrow> (gateway \<times> int list) option" where
  "gateway_stop w p g =
     do {
       g \<leftarrow> (if gw_is_tx g \<and> tb_pkt_count (gw_block g) > 0 then
               do {
                 (blk, st) \<leftarrow> tx_block_flush (w_net w) (w_rand w) (po_shards p) (gw_crypto g) (gw_tctx g)
                               (nat (cfg_k (gw_cfg g))) (gw_block g) (gw_out g);
                 Some (g\<lparr>gw_block := blk, gw_out := st\<rparr>)
               }
             else Some g);
       Some (g, (if gw_metrics_fd g \<ge> 0 then [gw_metrics_fd g] else []) @ transport_free (gw_tctx g) @ [gw_tun_fd g])
     }"

text \<open>The whole program: a run through the given passes; \<open>Inl\<close> is an end before the loop.\<close>

definition main :: "world \<Rightarrow> host \<Rightarrow> string list \<Rightarrow> poll list \<Rightarrow> poll \<Rightarrow> (int list + gateway \<times> int list) option" where
  "main w h argv ps last_poll =
     (case gateway_start w h argv of
        Exits fds \<Rightarrow> Some (Inl fds)
      | Start_undefined \<Rightarrow> None
      | Starts g \<Rightarrow> do { g \<leftarrow> event_loop w ps g; r \<leftarrow> gateway_stop w last_poll g; Some (Inr r) })"

end
