(* ===== verification/Run.thy ===== *)
theory Run
  imports Gateway
begin

text \<open>
  The event loop is defined: with a configuration whose numbers the code can convert, every pass
  returns, stays inside the arrays and keeps the invariants of the parts. What the sender does with the packets it reads: it
  cuts them into blocks, in order, and numbers the blocks from 0.
\<close>

section \<open>The scheduler in the loop\<close>

definition tame :: "cfloat \<Rightarrow> bool" where
  "tame v \<longleftrightarrow> (\<exists>b. v = Fin b \<and> \<bar>b\<bar> \<le> 2 powi 20)"

text \<open>A configuration whose weights and redundancy the code can convert to integers.\<close>

definition sane :: "gateway_config \<Rightarrow> bool" where
  "sane cfg \<longleftrightarrow> castable cfg \<and> tame (cfg_redundancy_ratio cfg)"

definition scheduler_ok :: "strategy_ctx \<Rightarrow> bool" where
  "scheduler_ok ctx \<longleftrightarrow> strategy_ok ctx \<and> tame (sc_base_redundancy ctx) \<and>
     (\<forall>i < sc_path_count ctx. length (pc_name (p_cfg (sc_paths ctx ! i))) < 32)"

lemma scheduler_ok_credit:
  "scheduler_ok ctx \<Longrightarrow> strategy_ok (ctx\<lparr>sc_path_credit := cs\<rparr>) \<Longrightarrow> scheduler_ok (ctx\<lparr>sc_path_credit := cs\<rparr>)"
  by (simp add: scheduler_ok_def)

lemma init_base: "strategy_init cfg = Some ctx \<Longrightarrow> sc_base_redundancy ctx = cfg_redundancy_ratio cfg"
  unfolding strategy_init_def
  by (erule for_opt_invariant[where P = "\<lambda>_ s. sc_base_redundancy s = cfg_redundancy_ratio cfg", rotated 2])
    (auto simp: init_path_def Let_def split: option.splits)

lemma init_scheduler_ok:
  assumes "sane cfg"
  obtains ctx where "strategy_init cfg = Some ctx" "scheduler_ok ctx" "sc_path_count ctx = cfg_path_count cfg"
proof -
  have c: "castable cfg" using assms by (simp add: sane_def)
  obtain ctx where i: "strategy_init cfg = Some ctx" "strategy_ok ctx" "sc_path_count ctx = cfg_path_count cfg"
    "\<And>i. i < cfg_path_count cfg \<Longrightarrow> sc_paths ctx ! i = started_path (cfg_paths cfg ! i)"
    using init_spec[OF c] by metis
  have "length (pc_name (cfg_paths cfg ! i)) < 32" if "i < cfg_path_count cfg" for i
    using c that by (auto simp: castable_def config_ok_def config_shape_def path_ok_def)
  then have "scheduler_ok ctx"
    using assms i init_base[OF i(1)] by (simp add: scheduler_ok_def sane_def started_path_def)
  then show thesis using that i(1,3) by blast
qed

lemma update_probe_base:
  "strategy_update_probe ctx idx rtt received = Some ctx' \<Longrightarrow> sc_base_redundancy ctx' = sc_base_redundancy ctx"
  by (auto simp: strategy_update_probe_def Let_def split: if_splits option.splits)

lemma update_probe_scheduler_ok:
  assumes "scheduler_ok ctx"
  obtains ctx' where "strategy_update_probe ctx (int i) rtt received = Some ctx'" "scheduler_ok ctx'"
proof (cases "i < sc_path_count ctx")
  case False
  then show thesis using that[of ctx] assms by (simp add: update_probe_outside)
next
  case True
  have ok: "strategy_ok ctx" using assms by (simp add: scheduler_ok_def)
  obtain ctx' where u: "strategy_update_probe ctx (int i) rtt received = Some ctx'" "strategy_ok ctx'"
    "sc_path_count ctx' = sc_path_count ctx"
    "\<And>j. sc_paths ctx' ! j = (if j = i then probed_path ctx rtt received (sc_paths ctx ! i) else sc_paths ctx ! j)"
    by (rule update_probe_at[OF ok True, where rtt = rtt and received = received]) blast
  have "p_cfg (sc_paths ctx' ! j) = p_cfg (sc_paths ctx ! j)" for j
    by (simp add: u(4) probed_path_def Let_def probe_stats_frame)
  then have "scheduler_ok ctx'" using assms u(2,3) update_probe_base[OF u(1)] by (simp add: scheduler_ok_def)
  then show thesis using that u(1) by blast
qed

lemma reload_scheduler_ok:
  assumes "scheduler_ok ctx" "sane cfg"
  obtains ctx' where "strategy_reload ctx cfg = Some ctx'" "scheduler_ok ctx'"
proof -
  have ok: "strategy_ok ctx" and c: "castable cfg" using assms by (simp_all add: scheduler_ok_def sane_def)
  obtain ctx' where r: "strategy_reload ctx cfg = Some ctx'" "strategy_ok ctx'" "sc_path_count ctx' = sc_path_count ctx"
    "sc_base_redundancy ctx' = cfg_redundancy_ratio cfg"
    "\<And>i. i < sc_path_count ctx \<Longrightarrow> sc_paths ctx' ! i =
       (if i < cfg_path_count cfg then reloaded_path (cfg_paths cfg ! i) (sc_paths ctx ! i) else sc_paths ctx ! i)"
    using reload_spec[OF ok c] by metis
  have "scheduler_ok ctx'" using assms r(2-5) by (auto simp: scheduler_ok_def sane_def reloaded_path_def)
  then show thesis using that r(1) by blast
qed

lemma compute_n_ok:
  assumes "scheduler_ok ctx" "1 \<le> k" "k \<le> MAX_K"
  obtains n where "strategy_compute_n ctx (int k) = Some (int n)" "k \<le> n" "n \<le> MAX_N"
proof -
  obtain b where "sc_base_redundancy ctx = Fin b" "\<bar>b\<bar> \<le> 2 powi 20" using assms(1) by (auto simp: scheduler_ok_def tame_def)
  moreover have "sc_path_count ctx \<le> MAX_PATHS" using assms(1) by (simp add: scheduler_ok_def strategy_ok_def)
  ultimately obtain m where m: "strategy_compute_n ctx (int k) = Some m" "int k \<le> m" "m \<le> int MAX_N"
    using compute_n_defined[of ctx b "int k"] assms(2,3) by auto
  then show thesis using that[of "nat m"] by auto
qed

section \<open>All paths stay open\<close>

text \<open>Every enabled path is alive and has an open socket, and no loss was estimated.\<close>

definition lively :: "transport_ctx \<Rightarrow> strategy_ctx \<Rightarrow> bool" where
  "lively tctx ctx \<longleftrightarrow> (\<exists>i < sc_path_count ctx. pc_enabled (p_cfg (sc_paths ctx ! i))) \<and>
     (\<forall>i < sc_path_count ctx. pc_enabled (p_cfg (sc_paths ctx ! i)) \<longrightarrow>
        p_alive (sc_paths ctx ! i) \<and> s_enabled (tc_paths tctx ! i) \<and> 0 \<le> s_fd (tc_paths tctx ! i)) \<and>
     (\<forall>i < sc_path_count ctx. p_loss_rate (sc_paths ctx ! i) = Fin 0) \<and> \<not> flt (sc_loss_threshold ctx) (Fin 0)"

lemma lively_open: "lively tctx ctx \<Longrightarrow> all_open tctx ctx"
  by (auto simp: lively_def all_open_def usable_paths_def usable_def)

lemma lively_cong:
  assumes "lively tctx ctx" "sc_path_count ctx' = sc_path_count ctx" "sc_loss_threshold ctx' = sc_loss_threshold ctx"
    and "\<And>i. i < sc_path_count ctx \<Longrightarrow> p_cfg (sc_paths ctx' ! i) = p_cfg (sc_paths ctx ! i) \<and>
      p_loss_rate (sc_paths ctx' ! i) = p_loss_rate (sc_paths ctx ! i) \<and> (p_alive (sc_paths ctx ! i) \<longrightarrow> p_alive (sc_paths ctx' ! i))"
  shows "lively tctx ctx'"
  using assms unfolding lively_def by auto

lemma update_probe_threshold:
  "strategy_update_probe ctx idx rtt received = Some ctx' \<Longrightarrow> sc_loss_threshold ctx' = sc_loss_threshold ctx"
  by (auto simp: strategy_update_probe_def Let_def split: if_splits option.splits)

lemma echo_lively:
  assumes ok: "strategy_ok ctx" and l: "lively tctx ctx" and u: "strategy_update_probe ctx (int i) rtt True = Some ctx'"
  shows "lively tctx ctx'"
proof (cases "i < sc_path_count ctx")
  case False
  then show ?thesis using l u by (simp add: update_probe_outside)
next
  case True
  have z: "p_loss_rate (sc_paths ctx ! i) = Fin 0" and th: "\<not> flt (sc_loss_threshold ctx) (Fin 0)"
    using l True by (simp_all add: lively_def)
  obtain c where c: "strategy_update_probe ctx (int i) rtt True = Some c" "sc_path_count c = sc_path_count ctx"
    "\<And>j. sc_paths c ! j = (if j = i then probed_path ctx rtt True (sc_paths ctx ! i) else sc_paths ctx ! j)"
    by (rule update_probe_at[OF ok True, where rtt = rtt and received = True]) blast
  have cc: "c = ctx'" using c(1) u by simp
  have loss: "p_loss_rate (sc_paths ctx' ! i) = p_loss_rate (sc_paths ctx ! i)"
    using c(3)[of i, unfolded cc] loss_free_probe[OF ok True z, of rtt] z by (simp add: probed_path_def Let_def)
  have cfg: "p_cfg (sc_paths ctx' ! i) = p_cfg (sc_paths ctx ! i)"
    using c(3)[of i, unfolded cc] by (simp add: probed_path_def Let_def probe_stats_frame)
  show ?thesis
  proof (rule lively_cong[OF l c(2)[unfolded cc] update_probe_threshold[OF u]])
    show "p_cfg (sc_paths ctx' ! j) = p_cfg (sc_paths ctx ! j) \<and> p_loss_rate (sc_paths ctx' ! j) = p_loss_rate (sc_paths ctx ! j) \<and>
      (p_alive (sc_paths ctx ! j) \<longrightarrow> p_alive (sc_paths ctx' ! j))" if "j < sc_path_count ctx" for j
      using loss cfg echo_keeps_alive[OF ok True z th u] c(3)[of j, unfolded cc] by (cases "j = i") simp_all
  qed
qed

text \<open>No loss was estimated for any path; an answered probe does not change that.\<close>

definition unmeasured :: "strategy_ctx \<Rightarrow> bool" where
  "unmeasured ctx \<longleftrightarrow> (\<forall>i < sc_path_count ctx. p_loss_rate (sc_paths ctx ! i) = Fin 0)"

lemma unmeasured_cong:
  assumes "unmeasured ctx" "sc_path_count ctx' = sc_path_count ctx"
    and "\<And>i. i < sc_path_count ctx \<Longrightarrow> p_loss_rate (sc_paths ctx' ! i) = p_loss_rate (sc_paths ctx ! i)"
  shows "unmeasured ctx'"
  using assms by (simp add: unmeasured_def)

lemma echo_unmeasured:
  assumes ok: "strategy_ok ctx" and l: "unmeasured ctx" and u: "strategy_update_probe ctx (int i) rtt True = Some ctx'"
  shows "unmeasured ctx'"
proof (cases "i < sc_path_count ctx")
  case False
  then show ?thesis using l u by (simp add: update_probe_outside)
next
  case True
  have z: "p_loss_rate (sc_paths ctx ! i) = Fin 0" using l True by (simp add: unmeasured_def)
  obtain c where c: "strategy_update_probe ctx (int i) rtt True = Some c" "sc_path_count c = sc_path_count ctx"
    "\<And>j. sc_paths c ! j = (if j = i then probed_path ctx rtt True (sc_paths ctx ! i) else sc_paths ctx ! j)"
    by (rule update_probe_at[OF ok True, where rtt = rtt and received = True]) blast
  have cc: "c = ctx'" using c(1) u by simp
  have "p_loss_rate (sc_paths ctx' ! i) = p_loss_rate (sc_paths ctx ! i)"
    using c(3)[of i, unfolded cc] loss_free_probe[OF ok True z, of rtt] z by (simp add: probed_path_def Let_def)
  then have "p_loss_rate (sc_paths ctx' ! j) = p_loss_rate (sc_paths ctx ! j)" for j
    using c(3)[of j, unfolded cc] by (cases "j = i") simp_all
  then show ?thesis using l c(2) unfolding cc by (auto intro: unmeasured_cong)
qed

lemma init_unmeasured:
  assumes "sane cfg" "strategy_init cfg = Some ctx"
  shows "unmeasured ctx"
proof -
  have c: "castable cfg" using assms(1) by (simp add: sane_def)
  obtain ctx' where "strategy_init cfg = Some ctx'" "sc_path_count ctx' = cfg_path_count cfg"
    "\<And>i. i < cfg_path_count cfg \<Longrightarrow> sc_paths ctx' ! i = started_path (cfg_paths cfg ! i)"
    using init_spec[OF c] by metis
  then show ?thesis using assms(2) by (simp add: unmeasured_def started_path_def)
qed

lemma reload_unmeasured:
  assumes "scheduler_ok ctx" "sane cfg" "unmeasured ctx" "strategy_reload ctx cfg = Some ctx'"
  shows "unmeasured ctx'"
proof -
  have ok: "strategy_ok ctx" and c: "castable cfg" using assms by (simp_all add: scheduler_ok_def sane_def)
  obtain c' where "strategy_reload ctx cfg = Some c'" "sc_path_count c' = sc_path_count ctx"
    "\<And>i. i < sc_path_count ctx \<Longrightarrow> sc_paths c' ! i =
       (if i < cfg_path_count cfg then reloaded_path (cfg_paths cfg ! i) (sc_paths ctx ! i) else sc_paths ctx ! i)"
    using reload_spec[OF ok c] by metis
  then show ?thesis using assms(3,4) by (auto simp: unmeasured_def reloaded_path_def)
qed

text \<open>A redundancy above 1: every block then gets at least one shard more than its \<open>k\<close> rows.\<close>

definition surplus :: "strategy_ctx \<Rightarrow> bool" where
  "surplus ctx \<longleftrightarrow> (\<exists>b. sc_base_redundancy ctx = Fin b \<and> r32 b = b \<and> 1 < b)"

lemma lively_ratio:
  assumes "lively tctx ctx"
  shows "effective_ratio ctx = sc_base_redundancy ctx"
proof -
  have "n_alive ctx = n_total ctx" unfolding n_alive_def n_total_def
    using assms by (intro arg_cong[where f = length] filter_cong) (auto simp: lively_def usable_def)
  moreover have "n_alive ctx \<noteq> 0"
    using assms by (fastforce simp: n_alive_def lively_def usable_def filter_empty_conv)
  ultimately show ?thesis by (simp add: effective_ratio_def)
qed

lemma surplus_shards:
  assumes ctx: "scheduler_ok ctx" "lively tctx ctx" "surplus ctx" and k: "1 \<le> k" "k \<le> MAX_K"
    and n: "strategy_compute_n ctx (int k) = Some (int n)"
  shows "k < n"
proof -
  obtain b where b: "sc_base_redundancy ctx = Fin b" "r32 b = b" "1 < b" using ctx(3) by (auto simp: surplus_def)
  then have "\<bar>b\<bar> \<le> 2 powi 20" using ctx(1) by (auto simp: scheduler_ok_def tame_def)
  also have "\<dots> \<le> (2 :: rat) powi 23" by simp
  finally have small: "\<bar>b\<bar> \<le> 2 powi 23" .
  have "effective_ratio ctx = Fin b" using lively_ratio[OF ctx(2)] b(1) by simp
  then have "int n = min (int MAX_N) (max (int k) \<lceil>r32 (of_int (int k) * b)\<rceil>)"
    using compute_n_value[of "int k" ctx b] small k n by simp
  moreover have "int k < \<lceil>r32 (of_int (int k) * b)\<rceil>" using product_above[OF b(2,3), of "int k"] k by (simp add: less_ceiling_iff)
  ultimately show ?thesis using k by (simp add: limits)
qed

text \<open>The same with a demand on the redundancy, which neither sending nor a probe changes.\<close>

definition lively_as :: "bool \<Rightarrow> transport_ctx \<Rightarrow> strategy_ctx \<Rightarrow> bool" where
  "lively_as q tctx ctx \<longleftrightarrow> lively tctx ctx \<and> (q \<longrightarrow> surplus ctx)"

lemma lively_as_cong:
  assumes "lively_as q tctx ctx" "sc_path_count ctx' = sc_path_count ctx" "sc_loss_threshold ctx' = sc_loss_threshold ctx"
    and "sc_base_redundancy ctx' = sc_base_redundancy ctx"
    and "\<And>i. i < sc_path_count ctx \<Longrightarrow> p_cfg (sc_paths ctx' ! i) = p_cfg (sc_paths ctx ! i) \<and>
      p_loss_rate (sc_paths ctx' ! i) = p_loss_rate (sc_paths ctx ! i) \<and> (p_alive (sc_paths ctx ! i) \<longrightarrow> p_alive (sc_paths ctx' ! i))"
  shows "lively_as q tctx ctx'"
  using assms lively_cong[of tctx ctx ctx'] by (simp add: lively_as_def surplus_def)

lemma echo_lively_as:
  assumes "strategy_ok ctx" "lively_as q tctx ctx" "strategy_update_probe ctx (int i) rtt True = Some ctx'"
  shows "lively_as q tctx ctx'"
  using assms echo_lively[OF assms(1) _ assms(3)] update_probe_base[OF assms(3)] by (simp add: lively_as_def surplus_def)

section \<open>The gauges fit the response\<close>

lemma path_gauges_ok:
  assumes "scheduler_ok ctx" "is_float ratio"
  shows "gauges_ok (map fst (map (path_gauges ctx) [0..<sc_path_count ctx])) (sc_path_count ctx)
    (map (fst \<circ> snd) (map (path_gauges ctx) [0..<sc_path_count ctx]))
    (map (snd \<circ> snd) (map (path_gauges ctx) [0..<sc_path_count ctx])) ratio"
proof -
  have n: "sc_path_count ctx \<le> MAX_PATHS" using assms(1) by (simp add: scheduler_ok_def strategy_ok_def)
  have g: "path_gauges ctx i = (pc_name (p_cfg (sc_paths ctx ! i)), p_loss_rate (sc_paths ctx ! i), p_rtt_ms (sc_paths ctx ! i))"
    if "i < sc_path_count ctx" for i
    using that by (simp add: path_gauges_def strategy_get_path_state_def)
  have p: "path_state_ok (sc_paths ctx ! i)" if "i < sc_path_count ctx" for i
    using assms(1) that by (simp add: scheduler_ok_def strategy_ok_def)
  have loss: "below 1 (p_loss_rate (sc_paths ctx ! i))" and rtt: "below 17 (p_rtt_ms (sc_paths ctx ! i))"
    if "i < sc_path_count ctx" for i
    using p[OF that] by (auto simp: path_state_ok_def in_range_def below_def)
  have "(2 :: rat) powi 128 \<le> 10 ^ 39" by simp
  then have "below 39 ratio" using assms(2) by (auto simp: below_def is_float_Fin)
  then show ?thesis using assms(1) n g loss rtt by (simp add: gauges_ok_def scheduler_ok_def)
qed

section \<open>The invariant of the loop\<close>

definition window_size :: "gateway \<Rightarrow> nat" where "window_size g = nat (cfg_window_size (gw_cfg g))"

definition healthy :: "bool \<Rightarrow> bool \<Rightarrow> nat \<Rightarrow> gateway \<Rightarrow> bool" where
  "healthy f q H g \<longleftrightarrow> config_ok (gw_cfg g) \<and> scheduler_ok (ts_strategy (gw_out g)) \<and> metrics_ok (ts_metrics (gw_out g)) \<and>
     session H (window_size g) (gw_window g) \<and> short_shards (gw_window g) \<and> sockets_ok (gw_tctx g) \<and>
     unmeasured (ts_strategy (gw_out g)) \<and> (f \<longrightarrow> lively_as q (gw_tctx g) (ts_strategy (gw_out g)) \<and> \<not> gw_reload g)"

text \<open>What the loop never changes.\<close>

definition fixed :: "gateway \<Rightarrow> string \<times> crypto_ctx \<times> int \<times> transport_ctx" where
  [simp]: "fixed g = (gw_config_path g, gw_crypto g, cfg_k (gw_cfg g), gw_tctx g)"

text \<open>The datagrams that carry shards, and what blocks of packets send.\<close>

definition is_data :: "datagram \<Rightarrow> bool" where
  "is_data d \<longleftrightarrow> h_type (parse_header (d_bytes d)) = TYPE_DATA"

definition block_of :: "bool \<Rightarrow> bool \<Rightarrow> crypto_ctx \<Rightarrow> nat \<Rightarrow> nat \<Rightarrow> bytes list \<Rightarrow> datagram list \<Rightarrow> bool" where
  "block_of f q crypto k i ps ds \<longleftrightarrow> (\<exists>n L src sel. k \<le> n \<and> n \<le> MAX_N \<and> rows k L ps src \<and>
     block_sent crypto (of_nat i) k n L src sel ds \<and> (f \<longrightarrow> sel = [0..<n] \<and> (q \<longrightarrow> k < n)))"

definition blocks_out :: "bool \<Rightarrow> bool \<Rightarrow> crypto_ctx \<Rightarrow> nat \<Rightarrow> bytes list list \<Rightarrow> datagram list \<Rightarrow> bool" where
  "blocks_out f q crypto k bs ds \<longleftrightarrow>
     (\<exists>dss. ds = concat dss \<and> list_all2 (\<lambda>(i, ps). block_of f q crypto k i ps) (enumerate 0 bs) dss)"

definition sends :: "bool \<Rightarrow> bool \<Rightarrow> nat \<Rightarrow> crypto_ctx \<Rightarrow> bytes list list \<Rightarrow> bytes list \<Rightarrow> tx_block \<Rightarrow> u32 \<Rightarrow> datagram list \<Rightarrow> bool" where
  "sends f q k crypto bs pend blk next_id sent \<longleftrightarrow> collected k pend blk \<and> tb_block_id blk = of_nat (length bs) \<and>
     next_id = of_nat (Suc (length bs)) \<and> (\<forall>b \<in> set bs. b \<noteq> [] \<and> length b \<le> k) \<and>
     blocks_out f q crypto k bs (filter is_data sent)"

text \<open>The blocks \<open>bs\<close> have been flushed, the packets \<open>rd\<close> have been read.\<close>

definition good :: "bool \<Rightarrow> bool \<Rightarrow> nat \<Rightarrow> bytes list list \<Rightarrow> bytes list \<Rightarrow> gateway \<Rightarrow> bool" where
  "good f q H bs rd g \<longleftrightarrow> healthy f q H g \<and> (gw_is_tx g \<or> rd = []) \<and> (\<exists>pend. rd = concat bs @ pend \<and> length pend < nat (cfg_k (gw_cfg g)) \<and>
     sends f q (nat (cfg_k (gw_cfg g))) (gw_crypto g) bs pend (gw_block g) (gw_next_id g) (ts_sent (gw_out g)))"

text \<open>What is assumed of a pass: arrays of the declared sizes, block numbers of a session, a readable
  configuration is sane.\<close>

definition file_ok :: "string option \<Rightarrow> bool" where
  "file_ok file \<longleftrightarrow> (case config_load file of Unreadable \<Rightarrow> True | Undefined \<Rightarrow> False | Loaded cfg \<Rightarrow> sane cfg)"

definition poll_ok :: "bool \<Rightarrow> nat \<Rightarrow> string \<Rightarrow> poll \<Rightarrow> bool" where
  "poll_ok f H path p \<longleftrightarrow> length (po_pkt_buf p) = MAX_PAYLOAD \<and> shard_arrays (po_shard p) \<and> length (po_shards p) = MAX_N \<and>
     (\<forall>s \<in> set (po_shards p). shard_arrays s) \<and> file_ok (po_files p path) \<and>
     (f \<longrightarrow> SIGHUP \<notin> set (po_before p @ po_during p)) \<and>
     (case po_dgram p of None \<Rightarrow> True | Some (b, _) \<Rightarrow> unat (h_block_id (parse_header b)) \<le> H)"

lemma config_k:
  assumes "config_ok cfg"
  shows "1 \<le> nat (cfg_k cfg)" "nat (cfg_k cfg) \<le> MAX_K" "int (nat (cfg_k cfg)) = cfg_k cfg" "nat (cfg_window_size cfg) \<le> MAX_WINDOW"
  using assms by (auto simp: config_ok_def)

lemma data_message: "h_type (parse_header (shard_bytes bid i k n s)) = TYPE_DATA"
  by (simp add: shard_bytes_def parse_header_bytes shard_header_def)

lemma block_is_data: "block_sent crypto bid k n L src sel ds \<Longrightarrow> filter is_data ds = ds"
proof -
  assume "block_sent crypto bid k n L src sel ds"
  then obtain p0 where eq: "map d_bytes ds = map (\<lambda>i. shard_bytes bid (of_nat i) (of_nat k) (of_nat n) (encrypted crypto bid i (p0 ! i))) sel"
    unfolding block_sent_def by blast
  have m: "d_bytes d \<in> set (map (\<lambda>i. shard_bytes bid (of_nat i) (of_nat k) (of_nat n) (encrypted crypto bid i (p0 ! i))) sel)"
    if "d \<in> set ds" for d unfolding eq[symmetric] using that by simp
  have "is_data d" if d: "d \<in> set ds" for d
  proof -
    obtain i where "d_bytes d = shard_bytes bid (of_nat i) (of_nat k) (of_nat n) (encrypted crypto bid i (p0 ! i))"
      using m[OF d] by auto
    then show ?thesis by (simp only: is_data_def data_message)
  qed
  then show ?thesis by (intro filter_True) blast
qed

lemma blocks_out_snoc:
  assumes "blocks_out f q crypto k bs ds" "block_of f q crypto k (length bs) ps d"
  shows "blocks_out f q crypto k (bs @ [ps]) (ds @ d)"
proof -
  obtain dss where d: "ds = concat dss" "list_all2 (\<lambda>(i, ps). block_of f q crypto k i ps) (enumerate 0 bs) dss"
    using assms(1) by (auto simp: blocks_out_def)
  have "list_all2 (\<lambda>(i, ps). block_of f q crypto k i ps) (enumerate 0 (bs @ [ps])) (dss @ [d])"
    unfolding enumerate_append_eq using d(2) assms(2) by (intro list_all2_appendI) simp_all
  then show ?thesis using d(1) by (auto simp: blocks_out_def intro!: exI[of _ "dss @ [d]"])
qed

section \<open>The sender's steps\<close>

lemma flush_step:
  assumes h: "healthy f q H g" and p: "poll_ok f H path p" and ne: "pend \<noteq> []" and tx: "gw_is_tx g"
    and s: "sends f q (nat (cfg_k (gw_cfg g))) (gw_crypto g) bs pend (gw_block g) (gw_next_id g) (ts_sent (gw_out g))"
  obtains g' where "flush_and_renew w p g = Some g'" "good f q H (bs @ [pend]) (concat bs @ pend) g'"
    "fixed g' = fixed g"
proof -
  let ?k = "nat (cfg_k (gw_cfg g))"
  have cfg: "config_ok (gw_cfg g)" and sch: "scheduler_ok (ts_strategy (gw_out g))" and mt: "metrics_ok (ts_metrics (gw_out g))"
    and ses: "session H (window_size g) (gw_window g)" and so: "sockets_ok (gw_tctx g)" and um: "unmeasured (ts_strategy (gw_out g))"
    using h by (simp_all add: healthy_def)
  note k = config_k[OF cfg]
  obtain n where n: "strategy_compute_n (ts_strategy (gw_out g)) (int ?k) = Some (int n)" "?k \<le> n" "n \<le> MAX_N"
    by (rule compute_n_ok[OF sch k(1,2)])
  have col: "collected ?k pend (gw_block g)" and bid: "tb_block_id (gw_block g) = of_nat (length bs)"
    and nid: "gw_next_id g = of_nat (Suc (length bs))" and nb: "\<forall>b \<in> set bs. b \<noteq> [] \<and> length b \<le> ?k"
    and out: "blocks_out f q (gw_crypto g) ?k bs (filter is_data (ts_sent (gw_out g)))"
    using s by (simp_all add: sends_def)
  have sok: "strategy_ok (ts_strategy (gw_out g))" using sch by (simp add: scheduler_ok_def)
  have junk: "length (po_shards p) = MAX_N" "\<forall>s \<in> set (po_shards p). shard_arrays s" using p by (simp_all add: poll_ok_def)
  obtain blk' st sel ds src L where
    fl: "tx_block_flush (w_net w) (w_rand w) (po_shards p) (gw_crypto g) (gw_tctx g) ?k (gw_block g) (gw_out g) = Some (blk', st)"
    and r: "rows ?k L pend src" and b: "block_sent (gw_crypto g) (tb_block_id (gw_block g)) ?k n L src sel ds"
    and sent: "ts_sent st = ts_sent (gw_out g) @ ds" and full: "all_open (gw_tctx g) (ts_strategy (gw_out g)) \<longrightarrow> sel = [0..<n]" and ok': "strategy_ok (ts_strategy st)"
    and cr: "\<exists>cs. ts_strategy st = (ts_strategy (gw_out g))\<lparr>sc_path_credit := cs\<rparr>"
    and mt': "metrics_ok (ts_metrics st)"
    by (rule flush_spec[OF col ne sok n junk so mt, where net = "w_net w" and rnd = "w_rand w" and crypto = "gw_crypto g"])
      (rule that)
  let ?g = "g\<lparr>gw_out := st, gw_block := tx_block_init (gw_next_id g), gw_next_id := gw_next_id g + 1\<rparr>"
  have all: "f \<longrightarrow> sel = [0..<n] \<and> (q \<longrightarrow> ?k < n)"
    using h full lively_open surplus_shards[OF sch _ _ k(1,2) n(1)] by (auto simp: healthy_def lively_as_def)
  have "block_of f q (gw_crypto g) ?k (length bs) pend ds" using n r b bid all by (auto simp: block_of_def)
  then have "blocks_out f q (gw_crypto g) ?k (bs @ [pend]) (filter is_data (ts_sent st))"
    using blocks_out_snoc[OF out] sent block_is_data[OF b] by simp
  moreover have "length pend \<le> ?k" using col by (rule collectedD)
  ultimately have "sends f q ?k (gw_crypto g) (bs @ [pend]) [] (tx_block_init (gw_next_id g)) (gw_next_id g + 1) (ts_sent st)"
    using init_collected[OF k(2)] nid nb ne by (simp add: sends_def tx_block_init_def)
  moreover have "scheduler_ok (ts_strategy st)" using cr ok' scheduler_ok_credit[OF sch] by auto
  moreover have "f \<longrightarrow> lively_as q (gw_tctx g) (ts_strategy st) \<and> \<not> gw_reload g"
    using h cr lively_as_cong[of q "gw_tctx g" "ts_strategy (gw_out g)" "ts_strategy st"] by (auto simp: healthy_def)
  moreover have "unmeasured (ts_strategy st)" using um cr by (auto intro: unmeasured_cong)
  ultimately have "good f q H (bs @ [pend]) (concat bs @ pend) ?g"
    using h cfg ses mt' k(1) tx by (auto simp: good_def healthy_def window_size_def)
  moreover have "flush_and_renew w p g = Some ?g" using fl by (simp add: flush_and_renew_def)
  ultimately show thesis using that by simp
qed

text \<open>The packet a pass reads from the device.\<close>

definition packet_in :: "poll \<Rightarrow> int set \<Rightarrow> gateway \<Rightarrow> bytes list" where
  "packet_in p rfds g =
     (if gw_is_tx g \<and> gw_tun_fd g \<in> rfds then
        (case po_packet p of None \<Rightarrow> [] | Some pkt \<Rightarrow> if pkt = [] then [] else [take MAX_PAYLOAD pkt])
      else [])"

lemma healthy_frame [simp]:
  "healthy f q H (g\<lparr>gw_block := b\<rparr>) = healthy f q H g" "healthy f q H (g\<lparr>gw_clock := c\<rparr>) = healthy f q H g"
  "healthy f q H (g\<lparr>gw_last_probe := t\<rparr>) = healthy f q H g" "healthy f q H (g\<lparr>gw_http := h\<rparr>) = healthy f q H g"
  "healthy f q H (g\<lparr>gw_signal := sig\<rparr>) = healthy f q H g" "healthy f q H (g\<lparr>gw_running := r\<rparr>) = healthy f q H g"
  by (simp_all add: healthy_def window_size_def)

lemma on_tun_packet_good:
  assumes g: "good f q H bs rd g" and p: "poll_ok f H path p"
  obtains g' new where "on_tun_packet w p rfds g = Some g'" "good f q H (bs @ new) (rd @ packet_in p rfds g) g'"
    "fixed g' = fixed g"
proof (cases "packet_in p rfds g = []")
  case True
  then have "on_tun_packet w p rfds g = Some g"
    by (auto simp: on_tun_packet_def packet_in_def tun_read_def limits split: option.splits if_splits)
  then show thesis using that[of g "[]"] g True by simp
next
  case False
  then obtain pkt where pk: "gw_is_tx g" "gw_tun_fd g \<in> rfds" "po_packet p = Some pkt" "pkt \<noteq> []"
    by (auto simp: packet_in_def split: option.splits if_splits)
  let ?k = "nat (cfg_k (gw_cfg g))" and ?n = "min MAX_PAYLOAD (length pkt)"
  let ?buf = "memcpy (po_pkt_buf p) pkt ?n" and ?c = "gw_clock g"
  have h: "healthy f q H g" using g by (simp add: good_def)
  obtain pend where pend: "rd = concat bs @ pend" "length pend < ?k"
    and s: "sends f q ?k (gw_crypto g) bs pend (gw_block g) (gw_next_id g) (ts_sent (gw_out g))"
    using g by (auto simp: good_def)
  have n: "unat (of_nat ?n :: u16) = ?n" "0 < ?n"
    using pk(4) by (simp_all add: limits unat_of_nat take_bit_nat_eq_self)
  have buf: "length ?buf = MAX_PAYLOAD" "take ?n ?buf = take MAX_PAYLOAD pkt"
    using p by (simp_all add: poll_ok_def memcpy_def min_def)
  obtain blk full where add: "tx_block_add_pkt (w_time w ?c) (gw_block g) ?buf (of_nat ?n) ?k = (blk, full)" by fastforce
  have col: "collected ?k pend (gw_block g)" using s by (simp add: sends_def)
  have le: "unat (of_nat ?n :: u16) \<le> MAX_PAYLOAD" unfolding n by simp
  note c = add_pkt_collected[OF col pend(2) buf(1) le add, unfolded n buf(2)]
  define c' where "c' = (if tb_pkt_count (gw_block g) = 0 then ?c + 1 else ?c)"
  let ?g = "g\<lparr>gw_block := blk, gw_clock := c'\<rparr>" and ?pend = "pend @ [take MAX_PAYLOAD pkt]"
  have ins: "inside (po_pkt_buf p) 0 ?n" "add_inside (gw_block g) ?buf (of_nat ?n) ?k"
    using p add_pkt_inside[OF col buf(1) le] by (simp_all add: poll_ok_def inside_def)
  have on: "on_tun_packet w p rfds g = (if full then flush_and_renew w p ?g else Some ?g)"
    using pk(1-3) n(2) add ins by (simp add: on_tun_packet_def tun_read_def Let_def c'_def)
  have s': "sends f q ?k (gw_crypto g) bs ?pend blk (gw_next_id g) (ts_sent (gw_out g))"
    using s c(1,3) by (simp add: sends_def)
  have rd: "rd @ packet_in p rfds g = concat bs @ ?pend" using pk pend(1) by (simp add: packet_in_def)
  have h': "healthy f q H ?g" using h by simp
  show thesis
  proof (cases full)
    case True
    obtain g' where "flush_and_renew w p ?g = Some g'" "good f q H (bs @ [?pend]) (concat bs @ ?pend) g'"
      "fixed g' = fixed ?g"
      by (rule flush_step[OF h' p, of ?pend bs w]) (use s' pk(1) in simp_all)
    then show thesis using that[of _ "[?pend]"] on True rd by simp
  next
    case False
    then have "length ?pend < ?k" using c(2) pend(2) by simp
    then have "good f q H bs (rd @ packet_in p rfds g) ?g" using h' s' rd pk(1) by (auto simp: good_def)
    then show thesis using that[of _ "[]"] on False by simp
  qed
qed

lemma on_block_timeout_good:
  assumes g: "good f q H bs rd g" and p: "poll_ok f H path p"
  obtains g' new where "on_block_timeout w p g = Some g'" "good f q H (bs @ new) rd g'" "fixed g' = fixed g"
proof -
  let ?k = "nat (cfg_k (gw_cfg g))" and ?c = "gw_clock g"
  define c' where "c' = (if tb_pkt_count (gw_block g) = 0 then ?c else ?c + 1)"
  let ?g = "g\<lparr>gw_clock := c'\<rparr>"
  have g': "good f q H bs rd ?g" using g by (simp add: good_def)
  show thesis
  proof (cases "gw_is_tx g \<and> tx_block_needs_flush (w_time w ?c) (gw_block g) (cfg_block_timeout_ms (gw_cfg g))")
    case False
    then have "on_block_timeout w p g = Some (if gw_is_tx g then ?g else g)" by (simp add: on_block_timeout_def Let_def c'_def)
    then show thesis using that[of _ "[]"] g g' by (cases "gw_is_tx g") simp_all
  next
    case True
    then have on: "on_block_timeout w p g = flush_and_renew w p ?g" by (simp add: on_block_timeout_def Let_def c'_def)
    obtain pend where pend: "rd = concat bs @ pend"
      and s: "sends f q ?k (gw_crypto g) bs pend (gw_block g) (gw_next_id g) (ts_sent (gw_out g))"
      using g by (auto simp: good_def)
    have "tb_pkt_count (gw_block g) \<noteq> 0" using True by (simp add: tx_block_needs_flush_def split: if_splits)
    then have ne: "pend \<noteq> []" using s by (auto simp: sends_def collected_def)
    have h: "healthy f q H ?g" using g' by (simp add: good_def)
    obtain g2 where "flush_and_renew w p ?g = Some g2" "good f q H (bs @ [pend]) (concat bs @ pend) g2"
      "fixed g2 = fixed ?g"
      by (rule flush_step[OF h p ne, of bs w]) (use s True in simp_all)
    then show thesis using that[of _ "[pend]"] on pend by simp
  qed
qed

section \<open>The other steps\<close>

lemma good_healthy: "good f q H bs rd g \<Longrightarrow> healthy f q H g"
  by (simp add: good_def)

text \<open>Steps that leave the sender alone, up to datagrams that carry no shard.\<close>

lemma good_frame:
  assumes "good f q H bs rd g" "healthy f q H g'" "cfg_k (gw_cfg g') = cfg_k (gw_cfg g)" "gw_crypto g' = gw_crypto g"
    and "gw_is_tx g' = gw_is_tx g" "gw_block g' = gw_block g" "gw_next_id g' = gw_next_id g"
    and "filter is_data (ts_sent (gw_out g')) = filter is_data (ts_sent (gw_out g))"
  shows "good f q H bs rd g'"
  using assms unfolding good_def sends_def by simp

lemma is_probe: "type \<noteq> TYPE_DATA \<Longrightarrow> h_type (parse_header (probe_bytes type ts)) \<noteq> TYPE_DATA"
  by (simp add: probe_bytes_def parse_header_bytes)

lemma send_probe_data:
  assumes "send_buf net tctx i (probe_bytes type ts) sent = (r, sent')" "type \<noteq> TYPE_DATA"
  shows "filter is_data sent' = filter is_data sent"
  using send_buf_cases[OF assms(1)] is_probe[OF assms(2), of ts] by (auto simp: is_data_def)

lemma probe_types: "TYPE_PROBE \<noteq> TYPE_DATA" "TYPE_PROBE_ECHO \<noteq> TYPE_DATA"
  by (simp_all add: wire_constants)

lemma recv_data_id:
  assumes "transport_recv ctx (Some (b, sender)) junk = Recv_data h s path"
  shows "h_block_id h = h_block_id (parse_header b)"
proof -
  have r: "recv_frame ctx (take RECV_BUF b) sender junk = Recv_data h s path" using assms by (simp add: recv_eq_frame)
  note f = recv_frame_data(1,2)[OF r]
  have "14 \<le> length b" "(14 :: nat) \<le> RECV_BUF" using f(1) by (simp_all add: RECV_BUF_eq)
  then show ?thesis using f(2) by (simp add: parse_header_take)
qed

text \<open>The guards of \<open>on_data\<close> and \<open>on_datagram\<close> hold for what \<open>transport_recv\<close> lets through.\<close>

lemma recv_data_inside:
  assumes r: "transport_recv ctx (Some (b, sender)) junk = Recv_data h s path" and j: "shard_arrays junk"
    and p: "tc_path_count ctx \<le> MAX_PATHS"
  shows "shard_arrays s" "unat (len s) \<le> MAX_PAYLOAD" "unat (h_k h) \<le> MAX_K" "path < MAX_PATHS"
  using recv_data_arrays[OF r j] recv_data[OF r] match_path_bound[OF p, of sender] by auto

lemma on_data_good:
  assumes g: "good f q H bs rd g" and H: "H < 2 ^ 30" and s: "shard_arrays sh" "unat (h_block_id hdr) \<le> H"
    and l: "unat (len sh) \<le> MAX_PAYLOAD" "unat (h_k hdr) \<le> MAX_K" "path_idx < MAX_PATHS"
  obtains g' where "on_data w p hdr sh path_idx g = Some g'" "good f q H bs rd g'" "fixed g' = fixed g"
proof -
  have ses: "session H (window_size g) (gw_window g)" and m: "metrics_ok (ts_metrics (gw_out g))"
    and short: "short_shards (gw_window g)" using good_healthy[OF g] by (simp_all add: healthy_def)
  obtain r win c pkts where rx: "rx_on_shard (\<lambda>i. now_us (w_time w i)) (gw_crypto g) (po_gj p) (po_decoded p)
      (window_size g) hdr sh (gw_window g, gw_clock g) = Some (r, win, c, pkts)" "session H (window_size g) win"
    by (rule on_shard_total[OF ses H s]) blast
  note ins = rx_inside_session[OF ses H s(1) l(1) s(2) l(2) short]
  have guards: "rx_inside (\<lambda>i. now_us (w_time w i)) (gw_crypto g) (po_gj p) (po_decoded p) (window_size g) hdr sh (gw_window g, gw_clock g)"
    "inside (m_shards_received (ts_metrics (gw_out g))) path_idx 1" by (rule ins(1)) (use m l(3) in \<open>simp add: metrics_ok_def inside_def\<close>)
  define m1 where "m1 = (ts_metrics (gw_out g))\<lparr>m_shards_received := count_at path_idx (m_shards_received (ts_metrics (gw_out g)))\<rparr>"
  define m2 where "m2 = (if r then m1\<lparr>m_decode_success := m_decode_success m1 + 1\<rparr> else m1)"
  let ?g = "g\<lparr>gw_out := (gw_out g)\<lparr>ts_metrics := m2\<rparr>, gw_window := win, gw_clock := c, gw_written := gw_written g @ pkts\<rparr>"
  have "metrics_ok m2" using m by (simp add: m2_def m1_def metrics_ok_def count_at_def)
  then have "healthy f q H ?g" using good_healthy[OF g] rx(2) ins(2)[OF rx(1)] by (simp add: healthy_def window_size_def)
  then have "good f q H bs rd ?g" using g by (auto intro: good_frame)
  moreover have "on_data w p hdr sh path_idx g = Some ?g"
    using rx(1) guards by (simp add: on_data_def window_size_def m1_def m2_def Let_def)
  ultimately show thesis using that by simp
qed

lemma healthy_sent [simp]: "healthy f q H (g\<lparr>gw_out := (gw_out g)\<lparr>ts_sent := ds\<rparr>\<rparr>) = healthy f q H g"
  by (simp add: healthy_def window_size_def)

lemma on_datagram_good:
  assumes g: "good f q H bs rd g" and p: "poll_ok f H path p" and H: "H < 2 ^ 30"
  obtains g' where "on_datagram w p rfds g = Some g'" "good f q H bs rd g'" "fixed g' = fixed g"
proof -
  define input where "input = (if tc_recv_fd (gw_tctx g) \<in> rfds then po_dgram p else None)"
  have on: "on_datagram w p rfds g = (case transport_recv (gw_tctx g) input (po_shard p) of
      Recv_none \<Rightarrow> Some g
    | Recv_overrun \<Rightarrow> None
    | Recv_data hdr sh i \<Rightarrow> if gw_is_rx g then on_data w p hdr sh i g else Some g
    | Recv_probe i ts \<Rightarrow> if \<not> inside (tc_paths (gw_tctx g)) i 1 then None
        else Some (g\<lparr>gw_out := (gw_out g)\<lparr>ts_sent := snd (transport_send_probe_echo (w_net w) (gw_tctx g) i ts (ts_sent (gw_out g)))\<rparr>\<rparr>)
    | Recv_probe_echo i ts \<Rightarrow>
        if gw_is_tx g then map_option (\<lambda>sctx. g\<lparr>gw_out := (gw_out g)\<lparr>ts_strategy := sctx\<rparr>, gw_clock := gw_clock g + 1\<rparr>)
          (strategy_update_probe (ts_strategy (gw_out g)) (int i) (now_us (w_time w (gw_clock g)) - ts) True)
        else Some g)"
    by (simp add: on_datagram_def input_def Let_def map_conv_bind_option comp_def split_beta split: recv_result.split)
  have junk: "shard_arrays (po_shard p)" using p by (simp add: poll_ok_def)
  have so: "length (tc_paths (gw_tctx g)) = MAX_PATHS" "tc_path_count (gw_tctx g) \<le> MAX_PATHS"
    using good_healthy[OF g] by (simp_all add: healthy_def sockets_ok_def)
  show thesis
  proof (cases "transport_recv (gw_tctx g) input (po_shard p)")
    case Recv_none
    then show thesis using that on g by simp
  next
    case Recv_overrun
    then show thesis using recv_no_overrun[OF junk] by simp
  next
    case (Recv_data hdr sh i)
    then obtain b sender where inp: "input = Some (b, sender)" by (cases input) (auto simp: transport_recv_def)
    then have "po_dgram p = Some (b, sender)" by (simp add: input_def split: if_splits)
    then have id: "unat (h_block_id hdr) \<le> H" using p recv_data_id[OF Recv_data[unfolded inp]] by (simp add: poll_ok_def)
    note sh = recv_data_inside[OF Recv_data[unfolded inp] junk so(2)]
    obtain g' where "on_data w p hdr sh i g = Some g'" "good f q H bs rd g'" "fixed g' = fixed g"
      by (rule on_data_good[OF g H sh(1) id sh(2-4)])
    then show thesis using that on Recv_data g by (cases "gw_is_rx g") simp_all
  next
    case (Recv_probe i ts)
    obtain r sent where e: "transport_send_probe_echo (w_net w) (gw_tctx g) i ts (ts_sent (gw_out g)) = (r, sent)" by fastforce
    have "filter is_data sent = filter is_data (ts_sent (gw_out g))"
      using e probe_types(2) unfolding transport_send_probe_echo_def by (rule send_probe_data)
    then have "good f q H bs rd (g\<lparr>gw_out := (gw_out g)\<lparr>ts_sent := sent\<rparr>\<rparr>)"
      using good_frame[OF g, of "g\<lparr>gw_out := (gw_out g)\<lparr>ts_sent := sent\<rparr>\<rparr>"] good_healthy[OF g] by simp
    moreover obtain b sender where inp: "input = Some (b, sender)" using Recv_probe by (cases input) (auto simp: transport_recv_def)
    have "inside (tc_paths (gw_tctx g)) i 1"
      using recv_probe_path(1)[OF Recv_probe[unfolded inp]] match_path_bound[OF so(2), of sender] so(1) by (simp add: inside_def)
    ultimately show thesis using that on Recv_probe e by simp
  next
    case (Recv_probe_echo i ts)
    have sch: "scheduler_ok (ts_strategy (gw_out g))" using good_healthy[OF g] by (simp add: healthy_def)
    obtain sctx where u: "strategy_update_probe (ts_strategy (gw_out g)) (int i) (now_us (w_time w (gw_clock g)) - ts) True = Some sctx"
      "scheduler_ok sctx" by (rule update_probe_scheduler_ok[OF sch])
    let ?g = "g\<lparr>gw_out := (gw_out g)\<lparr>ts_strategy := sctx\<rparr>, gw_clock := gw_clock g + 1\<rparr>"
    have "strategy_ok (ts_strategy (gw_out g))" using sch by (simp add: scheduler_ok_def)
    then have "healthy f q H ?g" using good_healthy[OF g] u(2) echo_lively_as[OF _ _ u(1)] echo_unmeasured[OF _ _ u(1)] by (simp add: healthy_def window_size_def)
    then have "good f q H bs rd ?g" using g by (auto intro: good_frame)
    then show thesis using that on Recv_probe_echo u(1) g by (cases "gw_is_tx g") simp_all
  qed
qed

lemma on_metrics_good:
  assumes g: "good f q H bs rd g"
  obtains g' where "on_metrics p rfds g = Some g'" "good f q H bs rd g'" "fixed g' = fixed g"
proof (cases "gw_metrics_fd g \<ge> 0 \<and> gw_metrics_fd g \<in> rfds")
  case False
  then have "on_metrics p rfds g = Some g" by (simp only: on_metrics_def if_False)
  then show thesis using that g by simp
next
  case True
  let ?s = "ts_strategy (gw_out g)" and ?r = "cfg_redundancy_ratio (gw_cfg g)"
  let ?gs = "map (path_gauges ?s) [0..<sc_path_count ?s]"
  have h: "config_ok (gw_cfg g)" "scheduler_ok ?s" "metrics_ok (ts_metrics (gw_out g))"
    using good_healthy[OF g] by (simp_all add: healthy_def)
  have f: "is_float ?r" using h(1) by (simp add: config_ok_def config_shape_def)
  obtain resp where resp: "metrics_handle (po_conn p) (ts_metrics (gw_out g)) (map fst ?gs) (sc_path_count ?s)
      (map (fst \<circ> snd) ?gs) (map (snd \<circ> snd) ?gs) ?r = Some resp"
  proof (cases "0 \<le> po_conn p")
    case True
    then show thesis using metrics_handle_complete[OF h(3) path_gauges_ok[OF h(2) f] True] that by blast
  next
    case False
    then show thesis using that by (simp add: metrics_handle_def)
  qed
  let ?g = "if po_conn p < 0 then g else g\<lparr>gw_http := gw_http g @ [resp]\<rparr>"
  have "good f q H bs rd ?g" using g by (auto intro: good_frame good_healthy simp: good_healthy)
  moreover have "on_metrics p rfds g = Some ?g"
    using True resp h(2) by (simp add: on_metrics_def strategy_path_count_def scheduler_ok_def strategy_ok_def Let_def)
  ultimately show thesis using that by simp
qed

lemma probe_path_keeps:
  assumes "scheduler_ok (ts_strategy st)"
  shows "scheduler_ok (ts_strategy (probe_path w tctx ts i st))"
    "sc_path_count (ts_strategy (probe_path w tctx ts i st)) = sc_path_count (ts_strategy st)"
    "filter is_data (ts_sent (probe_path w tctx ts i st)) = filter is_data (ts_sent st)"
    "ts_metrics (probe_path w tctx ts i st) = ts_metrics st"
    "lively_as q tctx (ts_strategy st) \<Longrightarrow> lively_as q tctx (ts_strategy (probe_path w tctx ts i st))"
    "unmeasured (ts_strategy st) \<Longrightarrow> unmeasured (ts_strategy (probe_path w tctx ts i st))"
proof -
  obtain r sent where e: "transport_send_probe (w_net w) tctx i ts (ts_sent st) = (r, sent)" by fastforce
  let ?s = "ts_strategy st"
  let ?ps = "(sc_paths ?s ! i)\<lparr>p_probes_sent := p_probes_sent (sc_paths ?s ! i) + 1\<rparr>"
  let ?s' = "?s\<lparr>sc_paths := (sc_paths ?s)[i := ?ps]\<rparr>"
  have eq: "probe_path w tctx ts i st =
      (if i < sc_path_count ?s \<and> p_alive (sc_paths ?s ! i) then st\<lparr>ts_sent := sent, ts_strategy := ?s'\<rparr> else st)"
    using e by (simp add: probe_path_def strategy_get_path_state_def)
  have ok: "strategy_ok ?s" using assms by (simp add: scheduler_ok_def)
  have "scheduler_ok ?s'" if "i < sc_path_count ?s"
  proof -
    have "path_state_ok ?ps" using strategy_okD(5)[OF ok that] by (simp add: path_state_ok_def)
    then have "strategy_ok ?s'" by (rule strategy_ok_path[OF ok])
    then show ?thesis using assms by (auto simp: scheduler_ok_def nth_upd)
  qed
  then show "scheduler_ok (ts_strategy (probe_path w tctx ts i st))" using assms by (simp add: eq)
  show "sc_path_count (ts_strategy (probe_path w tctx ts i st)) = sc_path_count ?s"
    "ts_metrics (probe_path w tctx ts i st) = ts_metrics st" by (simp_all add: eq)
  show "lively_as q tctx (ts_strategy (probe_path w tctx ts i st))" if l: "lively_as q tctx ?s"
    by (rule lively_as_cong[OF l]) (simp_all add: eq nth_upd)
  show "unmeasured (ts_strategy (probe_path w tctx ts i st))" if l: "unmeasured ?s"
    by (rule unmeasured_cong[OF l]) (simp_all add: eq nth_upd)
  show "filter is_data (ts_sent (probe_path w tctx ts i st)) = filter is_data (ts_sent st)"
    using send_probe_data[OF e[unfolded transport_send_probe_def] probe_types(1)] by (simp add: eq)
qed

lemma probe_paths_keep:
  assumes "scheduler_ok (ts_strategy st)"
  shows "scheduler_ok (ts_strategy (fold (probe_path w tctx ts) js st))"
    "filter is_data (ts_sent (fold (probe_path w tctx ts) js st)) = filter is_data (ts_sent st)"
    "ts_metrics (fold (probe_path w tctx ts) js st) = ts_metrics st"
    "lively_as q tctx (ts_strategy st) \<Longrightarrow> lively_as q tctx (ts_strategy (fold (probe_path w tctx ts) js st))"
    "unmeasured (ts_strategy st) \<Longrightarrow> unmeasured (ts_strategy (fold (probe_path w tctx ts) js st))"
  using assms by (induction js arbitrary: st) (simp_all add: probe_path_keeps)

lemma on_probe_timer_good:
  assumes g: "good f q H bs rd g"
  obtains g' where "on_probe_timer w g = Some g'" "good f q H bs rd g'" "fixed g' = fixed g"
proof -
  let ?s = "ts_strategy (gw_out g)"
  let ?is = "[0..<nat (strategy_path_count ?s)]" and ?ts = "now_us (w_time w (gw_clock g + 1))"
  let ?st = "fold (probe_path w (gw_tctx g) ?ts) ?is (gw_out g)"
  let ?g = "g\<lparr>gw_out := ?st, gw_clock := gw_clock g + 2, gw_last_probe := w_time w (gw_clock g)\<rparr>"
  have h: "scheduler_ok ?s" "sockets_ok (gw_tctx g)" using good_healthy[OF g] by (simp_all add: healthy_def)
  note k = probe_paths_keep[OF h(1), where w = w and tctx = "gw_tctx g" and ts = ?ts and js = ?is]
  have ins: "inside (tc_paths (gw_tctx g)) 0 (nat (strategy_path_count ?s))"
    using h by (simp add: scheduler_ok_def strategy_ok_def sockets_ok_def inside_def strategy_path_count_def)
  have "healthy f q H ?g" using good_healthy[OF g] k by (simp add: healthy_def window_size_def)
  then have a: "good f q H bs rd ?g" using g k(2) by (auto intro: good_frame)
  have b: "good f q H bs rd (g\<lparr>gw_clock := gw_clock g + 1\<rparr>)" using g by (auto intro: good_frame simp: good_healthy)
  have "on_probe_timer w g \<in> {Some g, Some ?g, Some (g\<lparr>gw_clock := gw_clock g + 1\<rparr>)}"
    using ins by (simp add: on_probe_timer_def Let_def)
  then consider "on_probe_timer w g = Some g" | "on_probe_timer w g = Some ?g" | "on_probe_timer w g = Some (g\<lparr>gw_clock := gw_clock g + 1\<rparr>)"
    by blast
  then show thesis
  proof cases
    case 1
    then show thesis using g by (rule that) simp
  next
    case 2
    then show thesis using a by (rule that) simp
  next
    case 3
    then show thesis using b by (rule that) simp
  qed
qed

lemma do_reload_good:
  assumes g: "good f q H bs rd g" and p: "file_ok (files (gw_config_path g))" and nf: "\<not> f"
  obtains g' where "do_reload files g = Some g'" "good f q H bs rd g'" "fixed g' = fixed g"
proof (cases "config_load (files (gw_config_path g))")
  case Unreadable
  have "healthy f q H (g\<lparr>gw_reload := False\<rparr>)" using good_healthy[OF g] nf by (simp add: healthy_def window_size_def)
  then have "good f q H bs rd (g\<lparr>gw_reload := False\<rparr>)" using g by (auto intro: good_frame)
  then show thesis using that Unreadable by (simp add: do_reload_def)
next
  case Undefined
  then show thesis using p by (simp add: file_ok_def)
next
  case (Loaded cfg)
  then have sane: "sane cfg" using p by (simp add: file_ok_def)
  have h: "healthy f q H g" using g by (rule good_healthy)
  then have sch: "scheduler_ok (ts_strategy (gw_out g))" by (simp add: healthy_def)
  obtain sctx where r: "strategy_reload (ts_strategy (gw_out g)) cfg = Some sctx" "scheduler_ok sctx"
    by (rule reload_scheduler_ok[OF sch sane])
  let ?c = "(gw_cfg g)\<lparr>cfg_redundancy_ratio := cfg_redundancy_ratio cfg, cfg_probe_interval_ms := cfg_probe_interval_ms cfg,
    cfg_probe_loss_threshold := cfg_probe_loss_threshold cfg, cfg_block_timeout_ms := cfg_block_timeout_ms cfg\<rparr>"
  let ?g = "g\<lparr>gw_reload := False, gw_out := (gw_out g)\<lparr>ts_strategy := sctx\<rparr>, gw_cfg := ?c, gw_log_level := cfg_log_level cfg\<rparr>"
  have "config_ok ?c" using h sane
    by (simp add: healthy_def config_ok_def config_shape_def sane_def castable_def)
  then have "healthy f q H ?g" using h r(2) nf reload_unmeasured[OF sch sane _ r(1)] by (simp add: healthy_def window_size_def)
  then have "good f q H bs rd ?g" using g by (auto intro: good_frame)
  moreover have "do_reload files g = Some ?g" using Loaded r(1) by (simp add: do_reload_def Let_def)
  ultimately show thesis using that by simp
qed

lemma deliver_good:
  assumes "good f q H bs rd g" "f \<longrightarrow> SIGHUP \<notin> set sigs"
  shows "good f q H bs rd (fold deliver sigs g)" "fixed (fold deliver sigs g) = fixed g"
proof -
  have d: "good f q H bs rd (deliver s g)" if "good f q H bs rd g" "f \<longrightarrow> SIGHUP \<noteq> s" for s and g :: gateway
    using that by (auto simp: deliver_def sig_handler_def sighup_handler_def good_def sends_def healthy_def window_size_def)
  have e: "gw_config_path (deliver s g) = gw_config_path g" "gw_crypto (deliver s g) = gw_crypto g"
    "gw_cfg (deliver s g) = gw_cfg g" "gw_tctx (deliver s g) = gw_tctx g" for s and g :: gateway
    by (simp_all add: deliver_def sig_handler_def sighup_handler_def)
  show "good f q H bs rd (fold deliver sigs g)" using assms by (induction sigs arbitrary: g) (auto intro: d)
  show "fixed (fold deliver sigs g) = fixed g" by (induction sigs arbitrary: g) (simp_all add: e)
qed

section \<open>The loop\<close>

lemma serve_good:
  assumes g: "good f q H bs rd g" and p: "poll_ok f H path p" and H: "H < 2 ^ 30"
  obtains g' new where "serve w p rfds g = Some g'" "good f q H (bs @ new) (rd @ packet_in p rfds g) g'" "fixed g' = fixed g"
proof -
  obtain g1 bs1 where 1: "on_tun_packet w p rfds g = Some g1" "good f q H (bs @ bs1) (rd @ packet_in p rfds g) g1" "fixed g1 = fixed g"
    by (rule on_tun_packet_good[OF g p])
  obtain g2 bs2 where 2: "on_block_timeout w p g1 = Some g2" "good f q H ((bs @ bs1) @ bs2) (rd @ packet_in p rfds g) g2" "fixed g2 = fixed g1"
    by (rule on_block_timeout_good[OF 1(2) p])
  obtain g3 where 3: "on_datagram w p rfds g2 = Some g3" "good f q H ((bs @ bs1) @ bs2) (rd @ packet_in p rfds g) g3" "fixed g3 = fixed g2"
    by (rule on_datagram_good[OF 2(2) p H])
  obtain g4 where 4: "on_metrics p rfds g3 = Some g4" "good f q H ((bs @ bs1) @ bs2) (rd @ packet_in p rfds g) g4" "fixed g4 = fixed g3"
    by (rule on_metrics_good[OF 3(2)])
  obtain g5 where 5: "on_probe_timer w g4 = Some g5" "good f q H ((bs @ bs1) @ bs2) (rd @ packet_in p rfds g) g5" "fixed g5 = fixed g4"
    by (rule on_probe_timer_good[OF 4(2)])
  have "serve w p rfds g = Some g5" by (simp add: serve_def 1 2 3 4 5)
  from that[OF this, of "bs1 @ bs2"] show thesis using 5 1(3) 2(3) 3(3) 4(3) by simp
qed

text \<open>The packets that a pass, and a run of the loop, read.\<close>

definition pass_in :: "poll \<Rightarrow> gateway \<Rightarrow> bytes list" where
  "pass_in p g =
     (let rfds = po_ready p \<inter> fst (watched g); g = fold deliver (po_during p) g
      in if po_ret p < 0 \<or> gw_reload g then [] else packet_in p rfds g)"

fun packets_read :: "world \<Rightarrow> poll list \<Rightarrow> gateway \<Rightarrow> bytes list" where
  "packets_read w [] g = []"
| "packets_read w (p # ps) g =
     (let g = fold deliver (po_before p) g in
      if \<not> gw_running g then []
      else pass_in p g @ (case loop_body w p g of None \<Rightarrow> [] | Some g' \<Rightarrow> packets_read w ps g'))"

lemma loop_body_good:
  assumes g: "good f q H bs rd g" and p: "poll_ok f H (gw_config_path g) p" and H: "H < 2 ^ 30"
  obtains g' new where "loop_body w p g = Some g'" "good f q H (bs @ new) (rd @ pass_in p g) g'" "fixed g' = fixed g"
proof -
  let ?r = "po_ready p \<inter> fst (watched g)" and ?g = "fold deliver (po_during p) g"
  have sigs: "f \<longrightarrow> SIGHUP \<notin> set (po_during p)" using p by (simp add: poll_ok_def)
  note d = deliver_good[OF g sigs]
  have f: "file_ok (po_files p (gw_config_path ?g))" using p d(2) by (simp add: poll_ok_def)
  obtain g2 new where s: "serve w p ?r ?g = Some g2" "good f q H (bs @ new) (rd @ packet_in p ?r ?g) g2" "fixed g2 = fixed ?g"
    by (rule serve_good[OF d(1) p H])
  consider "po_ret p < 0" "\<not> gw_running ?g \<or> \<not> gw_reload ?g" | "gw_reload ?g" "0 \<le> po_ret p \<or> gw_running ?g"
    | "0 \<le> po_ret p" "\<not> gw_reload ?g" by linarith
  then show thesis
  proof cases
    case 1
    then have "loop_body w p g = Some ?g" "pass_in p g = []" by (auto simp: loop_body_def pass_in_def Let_def)
    then show thesis using that[of _ "[]"] d by simp
  next
    case 2
    then have nf: "\<not> f" using good_healthy[OF d(1)] by (auto simp: healthy_def)
    obtain g1 where r: "do_reload (po_files p) ?g = Some g1" "good f q H bs rd g1" "fixed g1 = fixed ?g"
      by (rule do_reload_good[where files = "po_files p", OF d(1) f nf])
    from 2 have "loop_body w p g = Some g1" "pass_in p g = []" using r(1) by (auto simp: loop_body_def pass_in_def Let_def)
    then show thesis using that[of _ "[]"] r d by simp
  next
    case 3
    then have "loop_body w p g = Some g2" "pass_in p g = packet_in p ?r ?g" using s(1) by (auto simp: loop_body_def pass_in_def Let_def)
    then show thesis using that[of _ new] s d by simp
  qed
qed

lemma event_loop_good:
  assumes "good f q H bs rd g" "\<forall>p \<in> set ps. poll_ok f H (gw_config_path g) p" "H < 2 ^ 30"
  shows "\<exists>g' new. event_loop w ps g = Some g' \<and> good f q H (bs @ new) (rd @ packets_read w ps g) g' \<and> fixed g' = fixed g"
  using assms(1,2)
proof (induction ps arbitrary: bs rd g)
  case (Cons p ps)
  let ?g = "fold deliver (po_before p) g"
  have sigs: "f \<longrightarrow> SIGHUP \<notin> set (po_before p)" using Cons.prems(2) by (simp add: poll_ok_def)
  note d = deliver_good[OF Cons.prems(1) sigs]
  show ?case
  proof (cases "gw_running ?g")
    case True
    have p: "poll_ok f H (gw_config_path ?g) p" using Cons.prems(2) d(2) by simp
    obtain g1 bs1 where b: "loop_body w p ?g = Some g1" "good f q H (bs @ bs1) (rd @ pass_in p ?g) g1" "fixed g1 = fixed ?g"
      by (rule loop_body_good[OF d(1) p assms(3)])
    obtain g' bs' where e: "event_loop w ps g1 = Some g'" "good f q H ((bs @ bs1) @ bs') ((rd @ pass_in p ?g) @ packets_read w ps g1) g'" "fixed g' = fixed g1"
      using Cons.IH[OF b(2)] Cons.prems(2) b(3) d(2) by auto
    show ?thesis using True b(1,3) d(2) e by (auto simp: Let_def intro!: exI[of _ "bs1 @ bs'"])
  next
    case False
    then show ?thesis using d by (auto simp: Let_def intro!: exI[of _ "[]"])
  qed
qed (auto intro!: exI[of _ "[]"])

section \<open>Start and shutdown\<close>

text \<open>What is assumed of the start: a sane configuration if one is read, whose device address has a prefix
  that \<open>atoi\<close> can convert.\<close>

definition start_ok :: "string option \<Rightarrow> bool" where
  "start_ok file \<longleftrightarrow> (case config_load file of
     Unreadable \<Rightarrow> True | Undefined \<Rightarrow> False | Loaded cfg \<Rightarrow> sane cfg \<and> split_cidr (cfg_tun_addr cfg) \<noteq> None)"

lemma transport_init_sockets:
  assumes "transport_init os cfg port = Some tctx" "cfg_path_count cfg \<le> MAX_PATHS"
  shows "sockets_ok tctx"
proof -
  have "length (fold (\<lambda>i ps. ps[i := init_sock os i (cfg_paths cfg ! i) (ps ! i)]) js ps) = length ps" for js ps
    by (induction js arbitrary: ps) simp_all
  then show ?thesis using assms by (auto simp: transport_init_def sockets_ok_def split: if_splits)
qed

lemma start_loop_good:
  assumes "sane cfg" "strategy_init cfg = Some sctx" "transport_init os cfg port = Some tctx" "f \<longrightarrow> lively_as q tctx sctx"
  shows "good f q H [] [] (start_loop w h path cfg crypto tun_fd dev tctx sctx)"
    "gw_config_path (start_loop w h path cfg crypto tun_fd dev tctx sctx) = path"
proof -
  let ?g = "start_loop w h path cfg crypto tun_fd dev tctx sctx"
  have c: "config_ok cfg" using assms(1) by (simp add: sane_def castable_def)
  note k = config_k[OF c]
  have sch: "scheduler_ok sctx" using init_scheduler_ok[OF assms(1)] assms(2) by auto
  have "window_start (nat (cfg_window_size cfg)) (Some (rx_window_init, 0))" using k(4) by (simp add: window_start_def)
  then have "receiving H (nat (cfg_window_size cfg)) (Some (rx_window_init, 0))" by (rule receiver.inv_start)
  then have "session H (window_size ?g) (gw_window ?g)" by (simp add: receiving_def start_loop_def window_size_def)
  moreover have "metrics_ok zero_metrics" by (simp add: metrics_ok_def zero_metrics_def below_def)
  moreover have "sockets_ok tctx" using transport_init_sockets[OF assms(3)] c by (simp add: config_ok_def config_shape_def)
  ultimately have "healthy f q H ?g" using c sch assms(4) init_unmeasured[OF assms(1,2)] short_start by (simp add: healthy_def start_loop_def)
  moreover have "sends f q (nat (cfg_k cfg)) crypto [] [] (tx_block_init 0) 1 []"
    using init_collected[OF k(2)] by (simp add: sends_def tx_block_init_def blocks_out_def)
  ultimately show "good f q H [] [] ?g" using k(1) by (simp add: good_def start_loop_def)
  show "gw_config_path ?g = path" by (simp add: start_loop_def)
qed

lemma started_good:
  assumes "gateway_start w h (prog # opt # path # args) = Starts g" "start_ok (ho_files h path)"
    and "f \<longrightarrow> lively_as q (gw_tctx g) (ts_strategy (gw_out g))"
  shows "good f q H [] [] g" "gw_config_path g = path"
proof -
  obtain cfg where c: "config_load (ho_files h path) = Loaded cfg" "start_config w h path cfg = Starts g"
    using assms(1) by (auto simp: gateway_start_def split: if_splits load_result.splits)
  obtain crypto tctx tun_fd dev sctx where g: "g = start_loop w h path cfg crypto tun_fd dev tctx sctx" "strategy_init cfg = Some sctx"
    "transport_init (ho_sockets h) cfg (word_of_int (cfg_listen_port cfg)) = Some tctx"
    using c(2) by (auto simp: start_config_def Let_def split: option.splits if_splits prod.splits)
  have "sane cfg" using assms(2) c(1) by (simp add: start_ok_def)
  moreover have "f \<longrightarrow> lively_as q tctx sctx" using assms(3) by (simp add: g(1) start_loop_def)
  ultimately show "good f q H [] [] g" "gw_config_path g = path"
    using start_loop_good(1)[OF _ g(2,3), of f q H w h path crypto tun_fd dev]
      start_loop_good(2)[OF _ g(2,3), of f q w h path crypto tun_fd dev] g(1) by simp_all
qed

lemma configure_defined: "tun_configure os name addr = None \<longleftrightarrow> split_cidr addr = None"
  by (auto simp: tun_configure_def split: option.splits)

lemma start_defined:
  assumes "start_ok (ho_files h path)"
  shows "gateway_start w h (prog # opt # path # args) \<noteq> Start_undefined"
proof -
  have c: "start_config w h path cfg \<noteq> Start_undefined" if sane: "sane cfg" and addr: "split_cidr (cfg_tun_addr cfg) \<noteq> None" for cfg
  proof -
    obtain sctx where "strategy_init cfg = Some sctx" by (rule init_scheduler_ok[OF sane])
    moreover obtain rc calls where "tun_configure (ho_tun h) (cfg_tun_name cfg) (cfg_tun_addr cfg) = Some (rc, calls)"
      by (cases "tun_configure (ho_tun h) (cfg_tun_name cfg) (cfg_tun_addr cfg)") (use addr in \<open>auto simp: configure_defined\<close>)
    ultimately show ?thesis by (simp add: start_config_def Let_def split: option.split)
  qed
  then show ?thesis using assms by (simp add: gateway_start_def start_ok_def split: load_result.splits)
qed

text \<open>At shutdown the packets that are pending are flushed.\<close>

lemma stop_good:
  assumes g: "good f q H bs rd g" and p: "poll_ok f H path p"
  obtains g' fds new where "gateway_stop w p g = Some (g', fds)" "rd = concat (bs @ new)"
    "\<forall>b \<in> set (bs @ new). b \<noteq> [] \<and> length b \<le> nat (cfg_k (gw_cfg g'))"
    "blocks_out f q (gw_crypto g') (nat (cfg_k (gw_cfg g'))) (bs @ new) (filter is_data (ts_sent (gw_out g')))" "gw_cfg g' = gw_cfg g" "gw_crypto g' = gw_crypto g"
proof -
  let ?k = "nat (cfg_k (gw_cfg g))"
  obtain pend where pend: "rd = concat bs @ pend" and tx: "gw_is_tx g \<or> rd = []"
    and s: "sends f q ?k (gw_crypto g) bs pend (gw_block g) (gw_next_id g) (ts_sent (gw_out g))"
    using g by (auto simp: good_def)
  have cnt: "tb_pkt_count (gw_block g) = length pend" using s by (simp add: sends_def collected_def)
  show thesis
  proof (cases "pend = []")
    case True
    then have "\<exists>fds. gateway_stop w p g = Some (g, fds)" using cnt by (simp add: gateway_stop_def)
    then show thesis using that[of g _ "[]"] s pend True by (auto simp: sends_def)
  next
    case False
    then have tx': "gw_is_tx g" using tx pend by auto
    obtain g1 where f: "flush_and_renew w p g = Some g1" "good f q H (bs @ [pend]) (concat bs @ pend) g1"
      by (rule flush_step[OF good_healthy[OF g] p False tx' s])
    obtain blk st where t: "tx_block_flush (w_net w) (w_rand w) (po_shards p) (gw_crypto g) (gw_tctx g) ?k (gw_block g) (gw_out g) = Some (blk, st)"
      "g1 = g\<lparr>gw_out := st, gw_block := tx_block_init (gw_next_id g), gw_next_id := gw_next_id g + 1\<rparr>"
      using f(1) by (auto simp: flush_and_renew_def split: Option.bind_splits)
    have s1: "\<forall>b \<in> set (bs @ [pend]). b \<noteq> [] \<and> length b \<le> ?k" "blocks_out f q (gw_crypto g) ?k (bs @ [pend]) (filter is_data (ts_sent st))"
      using f(2) by (simp_all add: good_def sends_def t(2))
    have "\<exists>fds. gateway_stop w p g = Some (g\<lparr>gw_block := blk, gw_out := st\<rparr>, fds)"
      using tx' cnt False t(1) by (simp add: gateway_stop_def)
    then obtain fds where "gateway_stop w p g = Some (g\<lparr>gw_block := blk, gw_out := st\<rparr>, fds)" ..
    from that[OF this, of "[pend]"] show thesis using s1 pend by simp
  qed
qed

text \<open>A run of the whole program that gets as far as the loop.\<close>

lemma program_run:
  assumes st: "gateway_start w h (prog # opt # path # args) = Starts g" "start_ok (ho_files h path)"
    and p: "\<forall>p \<in> set ps. poll_ok f H path p" "poll_ok f H path last_poll" and H: "H < 2 ^ 30"
    and l: "f \<longrightarrow> lively_as q (gw_tctx g) (ts_strategy (gw_out g))"
  obtains g' fds bs where "main w h (prog # opt # path # args) ps last_poll = Some (Inr (g', fds))"
    "packets_read w ps g = concat bs" "\<forall>b \<in> set bs. b \<noteq> [] \<and> length b \<le> nat (cfg_k (gw_cfg g))"
    "blocks_out f q (gw_crypto g) (nat (cfg_k (gw_cfg g))) bs (filter is_data (ts_sent (gw_out g')))"
proof -
  note s = started_good[OF st l]
  obtain g1 bs1 where e: "event_loop w ps g = Some g1" "good f q H bs1 (packets_read w ps g) g1" "fixed g1 = fixed g"
    using event_loop_good[OF s(1) _ H, of ps w] p(1) s(2) by auto
  obtain g' fds bs where t: "gateway_stop w last_poll g1 = Some (g', fds)" "packets_read w ps g = concat bs"
    "\<forall>b \<in> set bs. b \<noteq> [] \<and> length b \<le> nat (cfg_k (gw_cfg g'))"
    "blocks_out f q (gw_crypto g') (nat (cfg_k (gw_cfg g'))) bs (filter is_data (ts_sent (gw_out g')))"
    "gw_cfg g' = gw_cfg g1" "gw_crypto g' = gw_crypto g1"
    by (rule stop_good[OF e(2) p(2)])
  have "main w h (prog # opt # path # args) ps last_poll = Some (Inr (g', fds))" using st(1) e(1) t(1) by (simp add: main_def)
  then show thesis using that t e(3) by simp
qed

text \<open>The paths that a configuration describes are open when their sockets are.\<close>

lemma init_threshold: "strategy_init cfg = Some ctx \<Longrightarrow> sc_loss_threshold ctx = cfg_probe_loss_threshold cfg"
  unfolding strategy_init_def
  by (erule for_opt_invariant[where P = "\<lambda>_ s. sc_loss_threshold s = cfg_probe_loss_threshold cfg", rotated 2])
    (auto simp: init_path_def Let_def split: option.splits)

lemma start_lively:
  assumes "sane cfg" "strategy_init cfg = Some sctx" "transport_init os cfg port = Some tctx"
    and "\<not> flt (cfg_probe_loss_threshold cfg) (Fin 0)" "\<exists>i < cfg_path_count cfg. pc_enabled (cfg_paths cfg ! i)"
    and "\<And>i. i < cfg_path_count cfg \<Longrightarrow> pc_enabled (cfg_paths cfg ! i) \<Longrightarrow>
      0 \<le> os_path_fd os i \<and> inet_pton (pc_remote_ip (cfg_paths cfg ! i)) \<noteq> None"
  shows "lively tctx sctx"
proof -
  have c: "castable cfg" using assms(1) by (simp add: sane_def)
  have n: "cfg_path_count cfg \<le> MAX_PATHS" using c by (simp add: castable_def config_ok_def config_shape_def)
  obtain ctx where i: "strategy_init cfg = Some ctx" "sc_path_count ctx = cfg_path_count cfg"
    "\<And>i. i < cfg_path_count cfg \<Longrightarrow> sc_paths ctx ! i = started_path (cfg_paths cfg ! i)"
    using init_spec[OF c] by metis
  have eq: "ctx = sctx" using i(1) assms(2) by simp
  have "s_enabled (tc_paths tctx ! i) \<and> 0 \<le> s_fd (tc_paths tctx ! i)" if h: "i < cfg_path_count cfg" "pc_enabled (cfg_paths cfg ! i)" for i
  proof -
    obtain a where "inet_pton (pc_remote_ip (cfg_paths cfg ! i)) = Some a" using assms(6)[OF h] by auto
    from transport_init_sendable[OF assms(3) h(1) n h(2) _ this] show ?thesis using assms(6)[OF h] by simp
  qed
  moreover obtain j where j: "j < cfg_path_count cfg" "pc_enabled (cfg_paths cfg ! j)" using assms(5) by blast
  then have "pc_enabled (p_cfg (sc_paths sctx ! j))" using i(3) by (simp add: started_path_def flip: eq)
  ultimately show ?thesis
    using i(2,3) j(1) assms(4) init_threshold[OF assms(2)] unfolding lively_def eq by (auto simp: started_path_def)
qed

end
