(* ===== verification/Tunnel.thy ===== *)
theory Tunnel
  imports Run Delivery "HOL-Library.Sublist"
begin

text \<open>
  From the sender to the receiver: the datagrams of a flushed block, received in any order and with
  losses, are the arrivals of a block that the receiver delivers. A single forged datagram suppresses a block.
\<close>

section \<open>A datagram arrives\<close>

text \<open>
  The circumstances of a call of \<open>transport_recv\<close> and of the decoder: the address of the sender and
  the uninitialised objects, with the sizes that the C declarations give them.
\<close>

type_synonym env = "u32 \<times> shard \<times> gj \<times> (bytes list \<times> u16 list)"

definition env_ok :: "env \<Rightarrow> bool" where
  "env_ok e \<longleftrightarrow> (case e of (sender, junk, g, out) \<Rightarrow> shard_arrays junk \<and> room MAX_K MAX_PAYLOAD g \<and>
     MAX_K \<le> length (fst out) \<and> MAX_K \<le> length (snd out))"

definition arrival_of :: "transport_ctx \<Rightarrow> env \<Rightarrow> bytes \<Rightarrow> arrival option" where
  "arrival_of rctx e b = (case e of (sender, junk, g, out) \<Rightarrow>
     (case transport_recv rctx (Some (b, sender)) junk of
        Recv_data hdr s path \<Rightarrow> Some (g, out, hdr, s)
      | _ \<Rightarrow> None))"

lemma room_mono: "room k' L' g \<Longrightarrow> k \<le> k' \<Longrightarrow> L \<le> L' \<Longrightarrow> room k L g"
  unfolding room_def by (intro conjI allI impI) (meson le_trans less_le_trans)+

text \<open>What a shard says depends on its first \<open>k\<close> coefficients and its first \<open>L\<close> bytes only.\<close>

lemma coded_cong:
  assumes "coded k L src i s" "k \<le> length (coeffs s')" "L \<le> length (data s')" "len s' = len s"
    and "\<And>j. j < k \<Longrightarrow> coeffs s' ! j = coeffs s ! j" "\<And>j. j < L \<Longrightarrow> data s' ! j = data s ! j"
  shows "coded k L src i s'"
  using assms by (auto simp: coded_def carries_def)

lemma nonces_agree: "i < 256 \<Longrightarrow> rx_nonce bid (unat (of_nat i :: u8)) = shard_nonce bid i"
  by (simp add: rx_nonce_def shard_nonce_def unat_of_nat take_bit_nat_eq_self)

lemma message_arrives:
  assumes cod: "coded k L src i p0" and k: "k \<le> MAX_K" "L \<le> MAX_PAYLOAD" "i < MAX_N" and e: "env_ok e"
  obtains a where "arrival_of rctx e (shard_bytes bid (of_nat i) (of_nat k) (of_nat n) (encrypted crypto bid i p0)) = Some a"
    "block_arrival crypto k L src bid a i"
proof -
  obtain sender junk g out where e4: "e = (sender, junk, g, out)" by (metis prod_cases4)
  have j: "shard_arrays junk" "arrays_ok k L g out"
    using e k room_mono[of MAX_K MAX_PAYLOAD g k L] by (auto simp: env_ok_def e4 arrays_ok_def)
  have i8: "unat (of_nat i :: u8) = i" "unat (of_nat k :: u8) = k"
    using k by (simp_all add: unat_of_nat take_bit_nat_eq_self limits)
  let ?w = "encrypted crypto bid i p0"
  have pl: "k \<le> length (coeffs p0)" "L \<le> length (data p0)" "unat (len p0) = L"
    using cod by (simp_all add: coded_def carries_def)
  have w: "coeffs ?w = coeffs p0" "len ?w = len p0" "length (data ?w) = length (data p0)"
    by (simp_all add: encrypted_def crypto_xor_length)
  have sd: "sendable_shard (of_nat k) ?w" using w pl k i8 by (simp add: sendable_shard_def)
  let ?s = "junk\<lparr>coeffs := memcpy (coeffs junk) (coeffs ?w) k, data := memcpy (data junk) (data ?w) L, len := len ?w\<rparr>"
  let ?h = "shard_header bid (of_nat i) (of_nat k) (of_nat n) ?w"
  have rc: "arrival_of rctx e (shard_bytes bid (of_nat i) (of_nat k) (of_nat n) ?w) = Some (g, out, ?h, ?s)"
    using recv_shard[OF sd j(1), of rctx bid "of_nat i" "of_nat n" sender] by (simp add: arrival_of_def e4 i8 w pl)
  have sa: "shard_arrays ?s" using j(1) w pl k by (simp add: shard_arrays_def mem)
  have hd: "h_block_id ?h = bid" "unat (h_shard_idx ?h) = i" "unat (h_k ?h) = k" by (simp_all add: shard_header_def i8)
  have non: "rx_nonce bid (unat (h_shard_idx ?h)) = shard_nonce bid i"
    using nonces_agree[of i bid] k(3) by (simp add: shard_header_def limits)
  have "coded k L src i (decrypted crypto ?h ?s)"
  proof (rule coded_cong[OF cod])
    show "k \<le> length (coeffs (decrypted crypto ?h ?s))" "L \<le> length (data (decrypted crypto ?h ?s))"
      using decrypted_arrays[OF sa, of crypto ?h] k by (simp_all add: shard_arrays_def)
    show "len (decrypted crypto ?h ?s) = len p0" by (simp add: decrypted_def w)
    show "coeffs (decrypted crypto ?h ?s) ! l = coeffs p0 ! l" if "l < k" for l
      using that pl(1) w j(1) k by (simp add: decrypted_def shard_arrays_def mem)
    show "data (decrypted crypto ?h ?s) ! l = data p0 ! l" if "l < L" for l
    proof -
      have "length (data junk) = MAX_PAYLOAD" using j(1) by (simp add: shard_arrays_def)
      then have d: "data ?s ! l = data ?w ! l" "l < length (data ?s)" using that pl w(3) k(2) by (simp_all add: mem)
      have "data (decrypted crypto ?h ?s) ! l =
          (if enabled crypto then data ?w ! l XOR keystream (seed_from_key_nonce (key crypto) (shard_nonce bid i)) l else data ?w ! l)"
        using d that pl(3) w(2) non hd(1) by (simp add: decrypted_def crypto_xor_nth)
      also have "\<dots> = data p0 ! l" using that pl by (simp add: encrypted_def crypto_xor_nth xor.assoc)
      finally show ?thesis .
    qed
  qed
  then have "block_arrival crypto k L src bid (g, out, ?h, ?s) i"
    using j(2) hd sa by (simp add: block_arrival_def)
  then show thesis using that rc by blast
qed

section \<open>The rows are the packets\<close>

text \<open>What the receiver makes of a block of \<open>ps\<close>: the packets, then as many packets of zeros as were
  missing, of the length of the longest packet.\<close>

definition delivered :: "nat \<Rightarrow> bytes list \<Rightarrow> bytes list" where
  "delivered k ps = ps @ replicate (k - length ps) (replicate (Max (set (map length ps))) 0)"

lemma delivered_full [simp]: "length ps = k \<Longrightarrow> delivered k ps = ps"
  by (simp add: delivered_def)

definition ip_packet :: "bytes \<Rightarrow> bool" where
  "ip_packet p \<longleftrightarrow> is_ipv4 p \<or> is_ipv6 p"

lemma ip_packet_long: "ip_packet p \<Longrightarrow> 20 \<le> length p"
  by (auto simp: ip_packet_def is_ipv4_def is_ipv6_def)

lemma cut_zeros:
  assumes "take L row = replicate L 0" "L < 2 ^ 16" "0 < L"
  shows "cut L row = replicate L 0"
proof -
  have L: "unat (of_nat L :: u16) = L" using assms(2) by (simp add: unat_of_nat take_bit_nat_eq_self)
  have "row ! 0 = take L row ! 0" using assms(3) by simp
  then have "row ! 0 = 0" using assms(1,3) by simp
  then have "ip_packet_length row (of_nat L) = of_nat L" by (simp add: ip_packet_length_def Let_def)
  then show ?thesis using assms(1) L by (simp add: cut_def)
qed

lemma rows_length:
  assumes "rows k L ps src"
  shows "L = Max (set (map length ps))"
proof -
  obtain i where i: "i < length ps" "length (ps ! i) = L" using assms by (auto simp: rows_def)
  have le: "l \<le> L" if l: "l \<in> set (map length ps)" for l
  proof -
    obtain j where "j < length (map length ps)" "map length ps ! j = l" using l unfolding in_set_conv_nth by blast
    then show ?thesis using assms by (auto simp: rows_def)
  qed
  have "map length ps ! i \<in> set (map length ps)" using i(1) by (intro nth_mem) simp
  then have "L \<in> set (map length ps)" using i by simp
  then show ?thesis using le by (intro Max_eqI[symmetric]) auto
qed

lemma rows_delivered:
  assumes r: "rows k L ps src" and ip: "\<forall>p \<in> set ps. ip_packet p" and len: "length ps \<le> k"
  shows "map (\<lambda>i. cut L (src ! i)) [0..<k] = delivered k ps"
proof (rule nth_equalityI)
  show "length (map (\<lambda>i. cut L (src ! i)) [0..<k]) = length (delivered k ps)" using len by (simp add: delivered_def)
  have L16: "L < 2 ^ 16" using r by (simp add: rows_def limits)
  obtain a where a: "a < length ps" "length (ps ! a) = L" using r by (auto simp: rows_def)
  have ne: "0 < L" using ip_packet_long[of "ps ! a"] ip a by simp
  fix i assume "i < length (map (\<lambda>i. cut L (src ! i)) [0..<k])"
  then have i: "i < k" by simp
  have row: "take L (src ! i) = row_of L ps i" "i < length ps \<Longrightarrow> length (ps ! i) \<le> L" using r i by (simp_all add: rows_def)
  have "cut L (src ! i) = delivered k ps ! i"
  proof (cases "i < length ps")
    case True
    have "take (length (ps ! i)) (src ! i) = take (length (ps ! i)) (take L (src ! i))" using row(2)[OF True] by (simp add: min_absorb1)
    also have "\<dots> = ps ! i" using True by (simp add: row(1) row_of_def)
    finally have "cut L (src ! i) = ps ! i"
      using ip True by (intro cut_packet[OF _ _ row(2)[OF True] L16]) (auto simp: ip_packet_def)
    then show ?thesis using True by (simp add: delivered_def nth_append)
  next
    case False
    then have "cut L (src ! i) = replicate L 0" using row(1) L16 ne by (intro cut_zeros) (simp_all add: row_of_def)
    then show ?thesis using False i rows_length[OF r] by (simp add: delivered_def nth_append)
  qed
  then show "map (\<lambda>i. cut L (src ! i)) [0..<k] ! i = delivered k ps ! i" using i by simp
qed

section \<open>The receiving gateway\<close>

text \<open>A pass in which just the datagram \<open>m\<close> arrives.\<close>

definition brings :: "gateway \<Rightarrow> bytes \<Rightarrow> poll \<Rightarrow> bool" where
  "brings g m p \<longleftrightarrow> po_before p = [] \<and> po_during p = [] \<and> 0 \<le> po_ret p \<and> po_ready p = {tc_recv_fd (gw_tctx g)} \<and>
     (\<exists>sender. po_dgram p = Some (m, sender)) \<and> shard_arrays (po_shard p) \<and> room MAX_K MAX_PAYLOAD (po_gj p) \<and>
     MAX_K \<le> length (fst (po_decoded p)) \<and> MAX_K \<le> length (snd (po_decoded p))"

definition env_of :: "poll \<Rightarrow> env" where
  "env_of p = (snd (the (po_dgram p)), po_shard p, po_gj p, po_decoded p)"

lemma brings_env: "brings g m p \<Longrightarrow> env_ok (env_of p)"
  by (simp add: brings_def env_of_def env_ok_def)

text \<open>A gateway in receiving mode that is in its loop, the exporter on another descriptor.\<close>

definition listening :: "gateway \<Rightarrow> bool" where
  "listening g \<longleftrightarrow> gw_is_rx g \<and> \<not> gw_is_tx g \<and> gw_running g \<and> \<not> gw_reload g \<and> gw_metrics_fd g \<noteq> tc_recv_fd (gw_tctx g)"

text \<open>What the accesses of the receiver rely on.\<close>

definition in_bounds :: "nat \<Rightarrow> gateway \<Rightarrow> bool" where
  "in_bounds H g \<longleftrightarrow> session H (window_size g) (gw_window g) \<and> short_shards (gw_window g) \<and> sockets_ok (gw_tctx g) \<and>
     metrics_ok (ts_metrics (gw_out g))"

lemma healthy_in_bounds: "healthy f q H g \<Longrightarrow> in_bounds H g"
  by (simp add: healthy_def in_bounds_def)

lemma listen_pass:
  assumes l: "listening g" and p: "brings g m p" and a: "arrival_of (gw_tctx g) (env_of p) m = Some (junk, out, hdr, s)"
    and r: "rx_on_shard (\<lambda>i. now_us (w_time w i)) (gw_crypto g) junk out (window_size g) hdr s (gw_window g, gw_clock g) =
      Some (dec, win, c, pkts)"
    and b: "in_bounds H g" "H < 2 ^ 30" "unat (h_block_id hdr) \<le> H"
  shows "\<exists>m. loop_body w p g = Some (g\<lparr>gw_out := (gw_out g)\<lparr>ts_metrics := m\<rparr>, gw_window := win, gw_clock := c, gw_written := gw_written g @ pkts\<rparr>) \<and>
    in_bounds H (g\<lparr>gw_out := (gw_out g)\<lparr>ts_metrics := m\<rparr>, gw_window := win, gw_clock := c, gw_written := gw_written g @ pkts\<rparr>)"
proof -
  obtain sender where d: "po_dgram p = Some (m, sender)" using p by (auto simp: brings_def)
  obtain path where t: "transport_recv (gw_tctx g) (Some (m, sender)) (po_shard p) = Recv_data hdr s path" "junk = po_gj p" "out = po_decoded p"
    using a by (auto simp: arrival_of_def env_of_def d split: recv_result.splits)
  have bd: "session H (window_size g) (gw_window g)" "short_shards (gw_window g)" "tc_path_count (gw_tctx g) \<le> MAX_PATHS"
    "metrics_ok (ts_metrics (gw_out g))" using b(1) by (simp_all add: in_bounds_def sockets_ok_def)
  have "shard_arrays (po_shard p)" using p by (simp add: brings_def)
  note sh = recv_data_inside[OF t(1) this bd(3)]
  note ins = rx_inside_session[OF bd(1) b(2) sh(1,2) b(3) sh(3) bd(2)]
  have guards: "rx_inside (\<lambda>i. now_us (w_time w i)) (gw_crypto g) (po_gj p) (po_decoded p) (window_size g) hdr s (gw_window g, gw_clock g)"
    "inside (m_shards_received (ts_metrics (gw_out g))) path 1"
    by (rule ins(1)) (use bd(4) sh(4) in \<open>simp add: metrics_ok_def inside_def\<close>)
  have ses: "session H (window_size g) win"
    by (rule on_shard_total[OF bd(1) b(2) sh(1) b(3), where clk = "\<lambda>i. now_us (w_time w i)" and crypto = "gw_crypto g" and junk = junk and out = out
          and c = "gw_clock g"]) (use r in simp)
  have rd: "po_ready p \<inter> fst (watched g) = {tc_recv_fd (gw_tctx g)}"
    using p by (auto simp: brings_def watched_def transport_fill_fdset_def Let_def)
  have off: "on_tun_packet w p {tc_recv_fd (gw_tctx g)} g = Some g" "on_block_timeout w p g = Some g"
    using l by (simp_all add: listening_def on_tun_packet_def on_block_timeout_def)
  define m1 where "m1 = (ts_metrics (gw_out g))\<lparr>m_shards_received := count_at path (m_shards_received (ts_metrics (gw_out g)))\<rparr>"
  define m' where "m' = (if dec then m1\<lparr>m_decode_success := m_decode_success m1 + 1\<rparr> else m1)"
  let ?g = "g\<lparr>gw_out := (gw_out g)\<lparr>ts_metrics := m'\<rparr>, gw_window := win, gw_clock := c, gw_written := gw_written g @ pkts\<rparr>"
  have on: "on_datagram w p {tc_recv_fd (gw_tctx g)} g = Some ?g"
    using d t r l guards by (simp add: on_datagram_def on_data_def listening_def window_size_def m'_def m1_def Let_def)
  have "metrics_ok m'" using bd(4) by (simp add: m'_def m1_def metrics_ok_def count_at_def)
  then have "in_bounds H ?g" using b(1) ses ins(2)[OF r[unfolded t(2,3)]] by (simp add: in_bounds_def window_size_def)
  have off': "on_metrics p {tc_recv_fd (gw_tctx g)} ?g = Some ?g" "on_probe_timer w ?g = Some ?g"
    using l by (simp_all add: listening_def on_metrics_def on_probe_timer_def)
  have "serve w p {tc_recv_fd (gw_tctx g)} g = Some ?g" by (simp add: serve_def off on off')
  then have "loop_body w p g = Some ?g" using p l rd by (simp add: loop_body_def brings_def listening_def)
  then show ?thesis using \<open>in_bounds H ?g\<close> by blast
qed

lemma listen_run:
  assumes "listening g" "list_all2 (brings g) ms ps"
    and "list_all2 (\<lambda>(p, m) a. arrival_of (gw_tctx g) (env_of p) m = Some a) (zip ps ms) arrs"
    and "rx_run (\<lambda>i. now_us (w_time w i)) (gw_crypto g) (window_size g) arrs (gw_window g, gw_clock g) = Some (win, c, pkts)"
    and "in_bounds H g" "H < 2 ^ 30" "\<forall>(junk, out, hdr, s) \<in> set arrs. unat (h_block_id hdr) \<le> H"
  shows "\<exists>g'. event_loop w ps g = Some g' \<and> gw_written g' = gw_written g @ pkts"
  using assms(1-5,7)
proof (induction ps arbitrary: g ms arrs pkts)
  case (Cons p ps)
  obtain m ms' where ms: "ms = m # ms'" "brings g m p" "list_all2 (brings g) ms' ps"
    using Cons.prems(2) by (cases ms) auto
  obtain a arrs' where ar: "arrs = a # arrs'" "arrival_of (gw_tctx g) (env_of p) m = Some a"
    "list_all2 (\<lambda>(p, m) a. arrival_of (gw_tctx g) (env_of p) m = Some a) (zip ps ms') arrs'"
    using Cons.prems(3) by (auto simp: ms list_all2_Cons1)
  obtain junk out hdr s where a4: "a = (junk, out, hdr, s)" by (metis prod_cases4)
  obtain dec win1 c1 p1 p2 where r: "rx_on_shard (\<lambda>i. now_us (w_time w i)) (gw_crypto g) junk out (window_size g) hdr s
      (gw_window g, gw_clock g) = Some (dec, win1, c1, p1)"
    and rr: "rx_run (\<lambda>i. now_us (w_time w i)) (gw_crypto g) (window_size g) arrs' (win1, c1) = Some (win, c, p2)" "pkts = p1 @ p2"
    using Cons.prems(4) by (auto simp: ar a4 split: option.splits prod.splits)
  have id: "unat (h_block_id hdr) \<le> H" "\<forall>(junk, out, hdr, s) \<in> set arrs'. unat (h_block_id hdr) \<le> H"
    using Cons.prems(6) by (simp_all add: ar(1) a4)
  obtain mt where b: "loop_body w p g = Some (g\<lparr>gw_out := (gw_out g)\<lparr>ts_metrics := mt\<rparr>, gw_window := win1, gw_clock := c1, gw_written := gw_written g @ p1\<rparr>)"
    and ib: "in_bounds H (g\<lparr>gw_out := (gw_out g)\<lparr>ts_metrics := mt\<rparr>, gw_window := win1, gw_clock := c1, gw_written := gw_written g @ p1\<rparr>)"
    using listen_pass[OF Cons.prems(1) ms(2) ar(2)[unfolded a4] r Cons.prems(5) assms(6) id(1)] by blast
  let ?g = "g\<lparr>gw_out := (gw_out g)\<lparr>ts_metrics := mt\<rparr>, gw_window := win1, gw_clock := c1, gw_written := gw_written g @ p1\<rparr>"
  have br: "brings ?g = brings g" by (simp add: brings_def fun_eq_iff)
  have "listening ?g" using Cons.prems(1) by (simp add: listening_def)
  then obtain g' where "event_loop w ps ?g = Some g'" "gw_written g' = gw_written ?g @ p2"
    using Cons.IH[of ?g ms' arrs' p2] ms(3) ar(3) rr(1) br ib id(2) by (auto simp: window_size_def)
  moreover have "gw_running g" "po_before p = []" using Cons.prems(1) ms(2) by (simp_all add: listening_def brings_def)
  ultimately show ?case using b rr(2) by simp
qed (auto split: prod.splits)

section \<open>From gateway to gateway\<close>

definition shard_no :: "bytes \<Rightarrow> nat" where "shard_no m = unat (h_shard_idx (parse_header m))"
definition block_no :: "bytes \<Rightarrow> nat" where "block_no m = unat (h_block_id (parse_header m))"

text \<open>Enough messages of a block: the first \<open>k\<close> are different shards, at most one of them a coded one.\<close>

definition enough :: "nat \<Rightarrow> bytes list \<Rightarrow> bool" where
  "enough k ms \<longleftrightarrow> k \<le> length ms \<and> distinct (map shard_no (take k ms)) \<and>
     length (filter (\<lambda>m. k \<le> shard_no m) (take k ms)) \<le> 1"

lemma message_fields:
  "h_block_id (parse_header (shard_bytes bid i k n s)) = bid" "h_shard_idx (parse_header (shard_bytes bid i k n s)) = i"
  by (simp_all add: shard_bytes_def parse_header_bytes shard_header_def)

lemma block_messages:
  assumes "block_of f q crypto k i ps ds"
  obtains n L src p0 sel where "rows k L ps src" "k \<le> n" "n \<le> MAX_N" "\<And>j. j < n \<Longrightarrow> coded k L src j (p0 ! j)"
    "map d_bytes ds = map (\<lambda>j. shard_bytes (of_nat i) (of_nat j) (of_nat k) (of_nat n) (encrypted crypto (of_nat i) j (p0 ! j))) sel"
    "set sel \<subseteq> {..<n}" "f \<longrightarrow> sel = [0..<n] \<and> (q \<longrightarrow> k < n)"
proof -
  obtain n L src sel where b: "k \<le> n" "n \<le> MAX_N" "rows k L ps src" "block_sent crypto (of_nat i) k n L src sel ds"
    "f \<longrightarrow> sel = [0..<n] \<and> (q \<longrightarrow> k < n)" using assms unfolding block_of_def by blast
  obtain p0 where p: "\<forall>j < n. coded k L src j (p0 ! j)" "set sel \<subseteq> {..<n}"
    "map d_bytes ds = map (\<lambda>j. shard_bytes (of_nat i) (of_nat j) (of_nat k) (of_nat n) (encrypted crypto (of_nat i) j (p0 ! j))) sel"
    using b(4) unfolding block_sent_def by blast
  show thesis by (rule that[OF b(3,1,2) _ p(3,2) b(5)]) (use p(1) in blast)
qed

text \<open>The messages of a block that reach the receiver are a block on its way.\<close>

lemma block_flow:
  assumes b: "block_of f q crypto k i ps ds" and ip: "\<forall>p \<in> set ps. ip_packet p" and k: "length ps \<le> k" "1 \<le> k" "k \<le> MAX_K"
    and ms: "set ms \<subseteq> d_bytes ` set ds" "enough k ms" and br: "list_all2 (brings g) ms pols"
  obtains fl where "flow_ok crypto fl" "packets_of fl = delivered k ps" "fst fl = of_nat i"
    "list_all2 (\<lambda>(p, m) a. arrival_of (gw_tctx g) (env_of p) m = Some a) (zip pols ms) (arrivals_of fl)"
proof -
  obtain n L src p0 sel where r: "rows k L ps src" "k \<le> n" "n \<le> MAX_N" "\<And>j. j < n \<Longrightarrow> coded k L src j (p0 ! j)"
    and m: "map d_bytes ds = map (\<lambda>j. shard_bytes (of_nat i) (of_nat j) (of_nat k) (of_nat n) (encrypted crypto (of_nat i) j (p0 ! j))) sel"
    and sel: "set sel \<subseteq> {..<n}" by (rule block_messages[OF b]) (rule that)
  have L: "L \<le> MAX_PAYLOAD" "\<forall>i < k. L \<le> length (src ! i)" using r(1) by (auto simp: rows_def)
  have arr: "\<exists>a. arrival_of (gw_tctx g) (env_of p) x = Some a \<and> block_arrival crypto k L src (of_nat i) a (shard_no x) \<and> shard_no x < MAX_N"
    if x: "x \<in> set ms" and bx: "brings g x p" for x p
  proof -
    have "x \<in> set (map d_bytes ds)" using x ms(1) by auto
    then obtain j where j: "j < n" "x = shard_bytes (of_nat i) (of_nat j) (of_nat k) (of_nat n) (encrypted crypto (of_nat i) j (p0 ! j))"
      unfolding m using sel by auto
    have jN: "j < MAX_N" using j(1) r(3) by simp
    then have no: "shard_no x = j" by (simp add: shard_no_def j(2) message_fields unat_of_nat take_bit_nat_eq_self limits)
    obtain a where "arrival_of (gw_tctx g) (env_of p) x = Some a" "block_arrival crypto k L src (of_nat i) a j"
      unfolding j(2) by (rule message_arrives[OF r(4)[OF j(1)] k(3) L(1) jN brings_env[OF bx]])
    then show ?thesis using no jN by blast
  qed
  define get where "get = (\<lambda>(p, x). the (arrival_of (gw_tctx g) (env_of p) x))"
  let ?as = "map get (zip pols ms)" and ?xs = "map shard_no (take k ms)"
  have len: "length pols = length ms" using br by (simp add: list_all2_lengthD)
  have at: "arrival_of (gw_tctx g) (env_of (pols ! l)) (ms ! l) = Some (?as ! l) \<and>
      block_arrival crypto k L src (of_nat i) (?as ! l) (shard_no (ms ! l)) \<and> shard_no (ms ! l) < MAX_N" if l: "l < length ms" for l
  proof -
    have "brings g (ms ! l) (pols ! l)" using br l by (rule list_all2_nthD)
    from arr[OF nth_mem[OF l] this] show ?thesis using l len by (auto simp: get_def)
  qed
  have kl: "k \<le> length ms" using ms(2) by (simp add: enough_def)
  have "list_all2 (\<lambda>a x. block_arrival crypto k L src (of_nat i) a x \<and> x < MAX_N) ?as (map shard_no ms)"
    using at len by (intro list_all2_all_nthI) simp_all
  then have "flow_ok crypto (of_nat i, k, L, src, take k ?as, take k (map shard_no ms), drop k ?as)"
    using k(2,3) kl L ms(2) by (intro flow_of_arrivals) (simp_all add: enough_def take_map filter_map comp_def)
  then have "flow_ok crypto (of_nat i, k, L, src, take k ?as, ?xs, drop k ?as)" by (simp add: take_map)
  moreover have "packets_of (of_nat i, k, L, src, take k ?as, ?xs, drop k ?as) = delivered k ps"
    using rows_delivered[OF r(1) ip k(1)] by simp
  moreover have "list_all2 (\<lambda>(p, m) a. arrival_of (gw_tctx g) (env_of p) m = Some a) (zip pols ms) ?as"
    using at len by (intro list_all2_all_nthI) simp_all
  ultimately show thesis by (intro that[of "(of_nat i, k, L, src, take k ?as, ?xs, drop k ?as)"]) simp_all
qed

text \<open>The blocks of a sender, one after the other.\<close>

lemma numbered_from:
  assumes "\<And>i. i < length fs \<Longrightarrow> fst (fs ! i) = of_nat (b + i)" "b + length fs \<le> H + 1" "H < 2 ^ 30" "1 \<le> ws"
  shows "numbered H ws b fs"
  using assms(1,2)
proof (induction fs arbitrary: b)
  case (Cons fl fs)
  obtain bid rest where fl: "fl = (bid, rest)" by (cases fl)
  have "bid = of_nat b" using Cons.prems(1)[of 0] by (simp add: fl)
  moreover have "b < 2 ^ 32" using Cons.prems(2) assms(3) by simp
  ultimately have bid: "unat bid = b" by (simp add: unat_of_nat take_bit_nat_eq_self)
  have "numbered H ws (b + 1) fs"
  proof (rule Cons.IH)
    show "fst (fs ! i) = of_nat ((b + 1) + i)" if "i < length fs" for i using Cons.prems(1)[of "Suc i"] that by simp
  qed (use Cons.prems(2) in simp)
  then show ?case using bid Cons.prems(2) assms(4) by (simp add: fl)
qed simp

lemma numbered_ids:
  "numbered H ws b fs \<Longrightarrow> \<forall>fl \<in> set fs. flow_ok crypto fl \<Longrightarrow>
     \<forall>(junk, out, hdr, s) \<in> set (concat (map arrivals_of fs)). unat (h_block_id hdr) \<le> H"
proof (induction fs arbitrary: b)
  case (Cons fl fs)
  obtain bid k L src es xs late where fl: "fl = (bid, k, L, src, es, xs, late)" by (metis prod_cases7)
  have "\<forall>(junk, out, hdr, s) \<in> set (es @ late). h_block_id hdr = bid"
    using Cons.prems(2) flow_same_block[of crypto bid k L src es xs late] by (simp add: fl del: flow_ok.simps)
  then have "\<forall>(junk, out, hdr, s) \<in> set (arrivals_of fl). unat (h_block_id hdr) \<le> H"
    using Cons.prems(1) by (fastforce simp: fl)
  then show ?case using Cons.IH[of "unat bid + 1"] Cons.prems by (auto simp: fl simp del: flow_ok.simps arrivals_of.simps)
qed simp

lemma blocks_flows:
  assumes dss: "list_all2 (\<lambda>(i, ps). block_of f q crypto k i ps) (enumerate b bs) dss" and k: "1 \<le> k" "k \<le> MAX_K"
    and bs: "\<forall>ps \<in> set bs. length ps \<le> k \<and> (\<forall>p \<in> set ps. ip_packet p)"
    and ms: "list_all2 (\<lambda>ms ds. enough k ms \<and> set ms \<subseteq> d_bytes ` set ds) mss dss"
    and br: "list_all2 (brings g) (concat mss) pols"
  shows "\<exists>fs. (\<forall>fl \<in> set fs. flow_ok crypto fl) \<and> length fs = length bs \<and> (\<forall>i < length fs. fst (fs ! i) = of_nat (b + i)) \<and>
    concat (map packets_of fs) = concat (map (delivered k) bs) \<and>
    list_all2 (\<lambda>(p, m) a. arrival_of (gw_tctx g) (env_of p) m = Some a) (zip pols (concat mss)) (concat (map arrivals_of fs))"
  using assms(1,4-)
proof (induction bs arbitrary: b dss mss pols)
  case Nil
  then show ?case by (intro exI[of _ "[]"]) auto
next
  case (Cons ps bs)
  obtain ds dss' where ds: "dss = ds # dss'" "block_of f q crypto k b ps ds"
    "list_all2 (\<lambda>(i, ps). block_of f q crypto k i ps) (enumerate (Suc b) bs) dss'" using Cons.prems(1) by (auto simp: list_all2_Cons1)
  obtain ms mss' where ms: "mss = ms # mss'" "enough k ms" "set ms \<subseteq> d_bytes ` set ds"
    "list_all2 (\<lambda>ms ds. enough k ms \<and> set ms \<subseteq> d_bytes ` set ds) mss' dss'" using Cons.prems(3) ds(1) by (auto simp: list_all2_Cons2)
  have ip: "\<forall>p \<in> set ps. ip_packet p" and len: "length ps \<le> k" using Cons.prems(2) by simp_all
  have sp: "list_all2 (brings g) (ms @ concat mss') pols" using Cons.prems(4) by (simp add: ms(1))
  obtain pols1 pols2 where po: "pols = pols1 @ pols2" "length pols1 = length ms" "list_all2 (brings g) ms pols1"
    "list_all2 (brings g) (concat mss') pols2" using sp by (auto simp: list_all2_append1 dest: list_all2_lengthD)
  obtain fl where fl: "flow_ok crypto fl" "packets_of fl = delivered k ps" "fst fl = of_nat b"
    "list_all2 (\<lambda>(p, m) a. arrival_of (gw_tctx g) (env_of p) m = Some a) (zip pols1 ms) (arrivals_of fl)"
    by (rule block_flow[OF ds(2) ip len k ms(3,2) po(3)])
  obtain fs where fs: "\<forall>fl \<in> set fs. flow_ok crypto fl" "length fs = length bs" "\<forall>i < length fs. fst (fs ! i) = of_nat (Suc b + i)"
    "concat (map packets_of fs) = concat (map (delivered k) bs)"
    "list_all2 (\<lambda>(p, m) a. arrival_of (gw_tctx g) (env_of p) m = Some a) (zip pols2 (concat mss')) (concat (map arrivals_of fs))"
    using Cons.IH[OF ds(3) _ ms(4) po(4)] Cons.prems(2) by auto
  have "fst ((fl # fs) ! i) = of_nat (b + i)" if "i < length (fl # fs)" for i
    using that fl(3) fs(3) by (cases i) simp_all
  moreover have "zip pols (concat mss) = zip pols1 ms @ zip pols2 (concat mss')" using po(1,2) by (simp add: ms(1) zip_append)
  ultimately show ?case using fl fs
    by (intro exI[of _ "fl # fs"]) (auto intro: list_all2_appendI)
qed

lemma blocks_numbered:
  assumes "blocks_out f q crypto k bs ds" "length bs < 2 ^ 32"
  obtains dss where "ds = concat dss" "list_all2 (\<lambda>(i, ps). block_of f q crypto k i ps) (enumerate 0 bs) dss"
    "\<And>i d. i < length bs \<Longrightarrow> d \<in> set ds \<Longrightarrow> block_no (d_bytes d) = i \<Longrightarrow> d \<in> set (dss ! i)"
proof -
  obtain dss where d: "ds = concat dss" "list_all2 (\<lambda>(i, ps). block_of f q crypto k i ps) (enumerate 0 bs) dss"
    using assms(1) by (auto simp: blocks_out_def)
  have len: "length dss = length bs" using list_all2_lengthD[OF d(2)] by simp
  have no: "block_no (d_bytes d) = i" if i: "i < length bs" and h: "d \<in> set (dss ! i)" for i d
  proof -
    have "block_of f q crypto k i (bs ! i) (dss ! i)" using list_all2_nthD[OF d(2), of i] i by (simp add: nth_enumerate_eq)
    then obtain n L src p0 sel where
      m: "map d_bytes (dss ! i) = map (\<lambda>j. shard_bytes (of_nat i) (of_nat j) (of_nat k) (of_nat n) (encrypted crypto (of_nat i) j (p0 ! j))) sel"
      by (rule block_messages) (rule that)
    have "d_bytes d \<in> set (map d_bytes (dss ! i))" using h by simp
    then obtain j where "d_bytes d = shard_bytes (of_nat i) (of_nat j) (of_nat k) (of_nat n) (encrypted crypto (of_nat i) j (p0 ! j))"
      unfolding m by auto
    then show ?thesis using i assms(2) by (simp add: block_no_def message_fields unat_of_nat take_bit_nat_eq_self)
  qed
  have "d \<in> set (dss ! i)" if h: "i < length bs" "d \<in> set ds" "block_no (d_bytes d) = i" for i d
  proof -
    obtain x where x: "x \<in> set dss" "d \<in> set x" using h(2) d(1) by auto
    then obtain l where "l < length dss" "dss ! l = x" unfolding in_set_conv_nth by blast
    then have "l < length dss" "d \<in> set (dss ! l)" using x(2) by simp_all
    then show ?thesis using no[of l d] h(3) len by simp
  qed
  then show thesis using that d by blast
qed

lemma started_receiver:
  assumes "gateway_start w h argv = Starts g"
  shows "gw_window g = rx_window_init" "gw_written g = []" "gw_running g" "\<not> gw_reload g"
  using assms by (auto simp: gateway_start_def start_config_def start_loop_def Let_def split: list.splits if_splits load_result.splits option.splits prod.splits)

lemma started_k:
  assumes "gateway_start w h (prog # opt # path # args) = Starts g" "start_ok (ho_files h path)"
  shows "1 \<le> nat (cfg_k (gw_cfg g))" "nat (cfg_k (gw_cfg g)) \<le> MAX_K"
proof -
  have "good False False H [] [] g" for H by (rule started_good[OF assms]) simp
  then have "config_ok (gw_cfg g)" by (simp add: good_def healthy_def)
  then show "1 \<le> nat (cfg_k (gw_cfg g))" "nat (cfg_k (gw_cfg g)) \<le> MAX_K" by (rule config_k)+
qed

lemma started_surplus:
  assumes "gateway_start w h (prog # opt # path # args) = Starts g" "start_ok (ho_files h path)"
    and "flt (Fin 1) (cfg_redundancy_ratio (gw_cfg g))"
  shows "surplus (ts_strategy (gw_out g))"
proof -
  obtain cfg where c: "config_load (ho_files h path) = Loaded cfg" "start_config w h path cfg = Starts g"
    using assms(1) by (auto simp: gateway_start_def split: if_splits load_result.splits)
  obtain crypto tctx tun_fd dev sctx where g: "g = start_loop w h path cfg crypto tun_fd dev tctx sctx" "strategy_init cfg = Some sctx"
    using c(2) by (auto simp: start_config_def Let_def split: option.splits if_splits prod.splits)
  have "sane cfg" using assms(2) c(1) by (simp add: start_ok_def)
  then obtain b where b: "cfg_redundancy_ratio cfg = Fin b" "is_float (Fin b)"
    by (auto simp: sane_def tame_def castable_def config_ok_def config_shape_def)
  then have "r32 b = b" "1 < b" using assms(3) by (simp_all add: is_float_Fin g(1) start_loop_def)
  then show ?thesis using init_base[OF g(2)] b(1) by (simp add: surplus_def g(1) start_loop_def)
qed

lemma window_free: "\<not> occupied rx_window_init i" if "i < MAX_WINDOW"
  using that by (simp add: occupied_def rx_window_init_def zero_block_def)

text \<open>The network between the two: of every block enough messages arrive, block after block.\<close>

definition network :: "nat \<Rightarrow> nat \<Rightarrow> datagram list \<Rightarrow> bytes list list \<Rightarrow> bool" where
  "network k n sent mss \<longleftrightarrow> length mss = n \<and>
     (\<forall>i < n. enough k (mss ! i) \<and> (\<forall>m \<in> set (mss ! i). block_no m = i \<and> (\<exists>d \<in> set sent. is_data d \<and> d_bytes d = m)))"

lemma receiver_writes:
  assumes out: "blocks_out f q crypto k bs (filter is_data sent)" and k: "1 \<le> k" "k \<le> MAX_K"
    and bs: "\<forall>ps \<in> set bs. length ps \<le> k \<and> (\<forall>p \<in> set ps. ip_packet p)" and H: "length bs \<le> H + 1" "H < 2 ^ 30"
    and st: "gateway_start w h (prog # opt # path # args) = Starts g" "start_ok (ho_files h path)" and l: "listening g"
    and key: "gw_crypto g = crypto" and clk: "\<And>c. steady (\<lambda>i. now_us (w_time w i)) c MAX_K"
    and net: "network k (length bs) sent mss" and br: "list_all2 (brings g) (concat mss) pols"
  shows "\<exists>g'. event_loop w pols g = Some g' \<and> gw_written g' = concat (map (delivered k) bs)"
proof -
  obtain dss where d: "list_all2 (\<lambda>(i, ps). block_of f q crypto k i ps) (enumerate 0 bs) dss"
    "\<And>i d. i < length bs \<Longrightarrow> d \<in> set (filter is_data sent) \<Longrightarrow> block_no (d_bytes d) = i \<Longrightarrow> d \<in> set (dss ! i)"
    by (rule blocks_numbered[OF out]) (use H in auto)
  have len: "length dss = length bs" using list_all2_lengthD[OF d(1)] by simp
  have ms: "list_all2 (\<lambda>ms ds. enough k ms \<and> set ms \<subseteq> d_bytes ` set ds) mss dss"
  proof (rule list_all2_all_nthI)
    show "length mss = length dss" using net len by (simp add: network_def)
    fix i assume "i < length mss"
    then have i: "i < length bs" using net by (simp add: network_def)
    have "m \<in> d_bytes ` set (dss ! i)" if m: "m \<in> set (mss ! i)" for m
    proof -
      obtain d where "d \<in> set sent" "is_data d" "d_bytes d = m" "block_no m = i" using net i m by (auto simp: network_def)
      then show ?thesis using d(2)[OF i, of d] by auto
    qed
    then show "enough k (mss ! i) \<and> set (mss ! i) \<subseteq> d_bytes ` set (dss ! i)" using net i by (auto simp: network_def)
  qed
  obtain fs where fs: "\<forall>fl \<in> set fs. flow_ok crypto fl" "length fs = length bs" "\<forall>i < length fs. fst (fs ! i) = of_nat (0 + i)"
    "concat (map packets_of fs) = concat (map (delivered k) bs)"
    "list_all2 (\<lambda>(p, m) a. arrival_of (gw_tctx g) (env_of p) m = Some a) (zip pols (concat mss)) (concat (map arrivals_of fs))"
    using blocks_flows[OF d(1) k bs ms br] by blast
  have "good False False H [] [] g" by (rule started_good[OF st]) simp
  then have h: "healthy False False H g" by (rule good_healthy)
  then have c: "config_ok (gw_cfg g)" and ses: "session H (window_size g) rx_window_init"
    using started_receiver(1)[OF st(1)] by (simp_all add: healthy_def)
  have ws: "1 \<le> window_size g" "window_size g \<le> MAX_WINDOW" using c by (auto simp: config_ok_def window_size_def)
  have q: "quiet_window (window_size g) rx_window_init" "\<exists>i < window_size g. \<not> occupied rx_window_init i"
    using ws window_free by (auto simp: quiet_window_def intro!: exI[of _ 0])
  have "numbered H (window_size g) 0 fs"
    by (rule numbered_from) (use fs(2,3) H ws(1) in simp_all)
  then have num: "numbered H (window_size g) (unat (rw_base_id rx_window_init)) fs" by (simp add: rx_window_init_def)
  obtain win' c' where "rx_run (\<lambda>i. now_us (w_time w i)) crypto (window_size g) (concat (map arrivals_of fs)) (rx_window_init, gw_clock g) =
      Some (win', c', concat (map packets_of fs))"
    using stream_delivered[OF H(2) clk ses q num fs(1)] by blast
  then have "rx_run (\<lambda>i. now_us (w_time w i)) (gw_crypto g) (window_size g) (concat (map arrivals_of fs)) (gw_window g, gw_clock g) =
      Some (win', c', concat (map packets_of fs))" using started_receiver(1)[OF st(1)] key by simp
  from listen_run[OF l br fs(5) this healthy_in_bounds[OF h] H(2) numbered_ids[OF num fs(1)]]
  obtain g' where "event_loop w pols g = Some g'" "gw_written g' = gw_written g @ concat (map packets_of fs)" by blast
  then show ?thesis using started_receiver(2)[OF st(1)] fs(4) by simp
qed

text \<open>When all shards are sent, the messages in the order of sending are such a network.\<close>

lemma full_block:
  assumes b: "block_of True q crypto k i ps ds" and i: "i < 2 ^ 32"
  shows "\<exists>n \<ge> k. map shard_no (map d_bytes ds) = [0..<n] \<and> (q \<longrightarrow> k < n)" "\<forall>m \<in> set (map d_bytes ds). block_no m = i"
proof -
  obtain n L src p0 sel where n: "k \<le> n" "n \<le> MAX_N" and sel: "True \<longrightarrow> sel = [0..<n] \<and> (q \<longrightarrow> k < n)"
    and m: "map d_bytes ds = map (\<lambda>j. shard_bytes (of_nat i) (of_nat j) (of_nat k) (of_nat n) (encrypted crypto (of_nat i) j (p0 ! j))) sel"
    by (rule block_messages[OF b]) (rule that)
  have no: "shard_no (shard_bytes (of_nat i) (of_nat j) (of_nat k) (of_nat n) s) = j" if "j < n" for j s
    using that n(2) by (simp add: shard_no_def message_fields unat_of_nat take_bit_nat_eq_self limits)
  have "map shard_no (map d_bytes ds) = [0..<n]" using sel unfolding m by (intro nth_equalityI) (simp_all add: no)
  then show "\<exists>n \<ge> k. map shard_no (map d_bytes ds) = [0..<n] \<and> (q \<longrightarrow> k < n)" using n(1) sel by blast
  show "\<forall>m \<in> set (map d_bytes ds). block_no m = i"
    using i by (auto simp: m block_no_def message_fields unat_of_nat take_bit_nat_eq_self)
qed

lemma concat_sorted:
  "\<forall>j < length xss. \<forall>x \<in> set (xss ! j). f x = n + j \<Longrightarrow> i < length xss \<Longrightarrow> filter (\<lambda>x. f x = n + i) (concat xss) = xss ! i"
proof (induction xss arbitrary: n i)
  case (Cons xs xss)
  have first: "\<forall>x \<in> set xs. f x = n" using Cons.prems(1) by force
  have rest: "\<forall>j < length xss. \<forall>x \<in> set (xss ! j). f x = Suc n + j" using Cons.prems(1) by force
  show ?case
  proof (cases i)
    case 0
    have "f x \<noteq> n" if x: "x \<in> set (concat xss)" for x
    proof -
      obtain ys where "ys \<in> set xss" "x \<in> set ys" using x by auto
      then obtain j where "j < length xss" "x \<in> set (xss ! j)" by (metis in_set_conv_nth)
      then have "f x = Suc n + j" using rest by blast
      then show ?thesis by simp
    qed
    then have "filter (\<lambda>x. f x = n) (concat xss) = []" by (simp add: filter_empty_conv)
    then show ?thesis using first by (simp add: 0 filter_id_conv)
  next
    case (Suc l)
    have "filter (\<lambda>x. f x = n + i) xs = []" using first by (simp add: Suc filter_empty_conv)
    then show ?thesis using Cons.IH[OF rest, of l] Cons.prems(2) by (simp add: Suc)
  qed
qed simp

text \<open>The messages of block \<open>i\<close>, in the order of sending. When all shards are sent, these are all its shards, and the
  blocks go out one after the other.\<close>

definition sent_block :: "datagram list \<Rightarrow> nat \<Rightarrow> bytes list" where
  "sent_block sent i = filter (\<lambda>m. block_no m = i) (map d_bytes (filter is_data sent))"

lemma all_sent:
  assumes out: "blocks_out True q crypto k bs (filter is_data sent)" and len: "length bs < 2 ^ 32"
  shows "\<And>i. i < length bs \<Longrightarrow> \<exists>n \<ge> k. map shard_no (sent_block sent i) = [0..<n] \<and> (q \<longrightarrow> k < n)"
    "concat (map (sent_block sent) [0..<length bs]) = map d_bytes (filter is_data sent)"
proof -
  obtain dss where d: "filter is_data sent = concat dss" "list_all2 (\<lambda>(i, ps). block_of True q crypto k i ps) (enumerate 0 bs) dss"
    using out by (auto simp: blocks_out_def)
  have l: "length dss = length bs" using list_all2_lengthD[OF d(2)] by simp
  have b: "block_of True q crypto k i (bs ! i) (dss ! i)" if "i < length bs" for i
    using list_all2_nthD[OF d(2), of i] that by (simp add: nth_enumerate_eq)
  have no: "\<forall>i < length (map (map d_bytes) dss). \<forall>m \<in> set (map (map d_bytes) dss ! i). block_no m = 0 + i"
    using full_block(2)[OF b] l len by auto
  have eq: "sent_block sent i = map d_bytes (dss ! i)" if "i < length bs" for i
    using concat_sorted[OF no, of i] that l by (simp add: sent_block_def d(1) map_concat)
  show "\<exists>n \<ge> k. map shard_no (sent_block sent i) = [0..<n] \<and> (q \<longrightarrow> k < n)" if "i < length bs" for i
    using full_block(1)[OF b[OF that]] eq[OF that] that len by simp
  have "map (sent_block sent) [0..<length bs] = map (map d_bytes) dss"
    by (rule nth_equalityI) (simp_all add: l eq)
  then show "concat (map (sent_block sent) [0..<length bs]) = map d_bytes (filter is_data sent)" by (simp add: d(1) map_concat)
qed

text \<open>Losses that the code repairs: \<open>k\<close> messages of a block are left, and at most one of the uncoded shards is lost.\<close>

definition repairable :: "nat \<Rightarrow> bytes list \<Rightarrow> bytes list \<Rightarrow> bool" where
  "repairable k ms ms' \<longleftrightarrow> subseq ms' ms \<and> k \<le> length ms' \<and> k \<le> Suc (length (filter (\<lambda>m. shard_no m < k) ms'))"

lemma sorted_prefix:
  assumes "sorted_wrt (<) xs" "k \<le> Suc (length (filter (\<lambda>x. x < k) xs))" "k \<le> length xs"
  shows "length (filter (\<lambda>x. k \<le> x) (take k xs)) \<le> (1 :: nat)"
proof -
  let ?lo = "filter (\<lambda>x. x < k) xs" and ?hi = "filter (\<lambda>x. \<not> x < k) xs"
  have split: "xs = ?lo @ ?hi"
    using assms(1)
  proof (induction xs)
    case (Cons x xs)
    show ?case
    proof (cases "x < k")
      case False
      then have "\<forall>y \<in> set xs. \<not> y < k" using Cons.prems by auto
      then show ?thesis using False by (simp add: filter_empty_conv filter_id_conv)
    qed (use Cons in simp)
  qed simp
  have "distinct ?lo" using strict_sorted_iff assms(1) by (auto intro: distinct_filter)
  then have "length ?lo = card (set ?lo)" by (simp only: distinct_card)
  also have "\<dots> \<le> card {..<k}" by (intro card_mono) auto
  finally have le: "length ?lo \<le> k" by simp
  have "take k xs = ?lo @ take (k - length ?lo) ?hi" using arg_cong[OF split, of "take k"] le by simp
  then have "filter (\<lambda>x. k \<le> x) (take k xs) = filter (\<lambda>x. k \<le> x) ?lo @ filter (\<lambda>x. k \<le> x) (take (k - length ?lo) ?hi)"
    by (simp only: filter_append)
  moreover have "filter (\<lambda>x. k \<le> x) ?lo = []" by (simp add: filter_empty_conv)
  ultimately have "length (filter (\<lambda>x. k \<le> x) (take k xs)) \<le> k - length ?lo"
    using length_filter_le[of "\<lambda>x. k \<le> x" "take (k - length ?lo) ?hi"] by simp
  then show ?thesis using assms(2) by linarith
qed

lemma subseq_sorted_wrt: "subseq xs ys \<Longrightarrow> sorted_wrt P ys \<Longrightarrow> sorted_wrt P xs"
  by (induction rule: list_emb.induct) (auto dest: list_emb_set)

lemma repairable_enough:
  assumes full: "map shard_no ms = [0..<n]" and r: "repairable k ms ms'"
  shows "enough k ms'" "set ms' \<subseteq> set ms"
proof -
  have "subseq (map shard_no ms') [0..<n]" using r subseq_map[of ms' ms shard_no] full by (simp add: repairable_def)
  then have sorted: "sorted_wrt (<) (map shard_no ms')" using subseq_sorted_wrt sorted_wrt_upt by blast
  then have d: "distinct (map shard_no (take k ms'))" using strict_sorted_iff by (metis distinct_take take_map)
  have "length (filter (\<lambda>x. k \<le> x) (take k (map shard_no ms'))) \<le> 1"
    using r by (intro sorted_prefix[OF sorted]) (simp_all add: repairable_def filter_map o_def)
  then have "length (filter (\<lambda>m. k \<le> shard_no m) (take k ms')) \<le> 1" by (simp add: take_map filter_map o_def)
  then show "enough k ms'" using d r by (simp add: enough_def repairable_def)
  show "set ms' \<subseteq> set ms" using r by (auto simp: repairable_def dest: list_emb_set)
qed

lemma lower_shards:
  assumes full: "map shard_no ms = [0..<n]" and k: "k \<le> n"
  shows "length (filter (\<lambda>m. shard_no m < k) ms) = k"
proof -
  have "length (filter (\<lambda>m. shard_no m < k) ms) = length (filter (\<lambda>x. x < k) (map shard_no ms))" by (simp add: filter_map o_def)
  also have "filter (\<lambda>x. x < k) (map shard_no ms) = [0..<k]" unfolding full using k
    by (induction n) (auto simp: le_Suc_eq filter_id_conv)
  finally show ?thesis by simp
qed

lemma repairable_all: "map shard_no ms = [0..<n] \<Longrightarrow> k \<le> n \<Longrightarrow> repairable k ms ms"
  using lower_shards[of ms n k] length_map[of shard_no ms] by (simp add: repairable_def)

text \<open>When a block has a shard to spare, the loss of any one of its shards is such a loss.\<close>

lemma one_lost_repairable:
  assumes full: "map shard_no ms = [0..<n]" and k: "k < n" and lost: "subseq ms' ms" "length ms \<le> Suc (length ms')"
  shows "repairable k ms ms'"
proof -
  let ?lo = "filter (\<lambda>m. shard_no m < k)" and ?hi = "filter (\<lambda>m. \<not> shard_no m < k)"
  have "length (?hi ms') \<le> length (?hi ms)" by (rule list_emb_length[OF subseq_filter[OF lost(1)]])
  moreover have "length (?lo ms) = k" using lower_shards[OF full] k by simp
  ultimately have "k \<le> Suc (length (?lo ms'))"
    using lost(2) sum_length_filter_compl[of "\<lambda>m. shard_no m < k" ms] sum_length_filter_compl[of "\<lambda>m. shard_no m < k" ms'] by linarith
  then show ?thesis using lost k length_map[of shard_no ms] by (simp add: repairable_def full)
qed

lemma repairable_network:
  assumes out: "blocks_out True q crypto k bs (filter is_data sent)" and len: "length bs < 2 ^ 32"
    and r: "list_all2 (repairable k) (map (sent_block sent) [0..<length bs]) mss"
  shows "network k (length bs) sent mss"
  unfolding network_def
proof (intro conjI allI impI ballI)
  show l: "length mss = length bs" using list_all2_lengthD[OF r] by simp
  fix i assume i: "i < length bs"
  obtain n where n: "map shard_no (sent_block sent i) = [0..<n]" using all_sent(1)[OF out len i] by blast
  have "repairable k (sent_block sent i) (mss ! i)" using list_all2_nthD[OF r, of i] i by simp
  note e = repairable_enough[OF n this]
  show "enough k (mss ! i)" by (rule e(1))
  fix m assume "m \<in> set (mss ! i)"
  then have "m \<in> set (sent_block sent i)" using e(2) by blast
  then show "block_no m = i" "\<exists>d \<in> set sent. is_data d \<and> d_bytes d = m" by (auto simp: sent_block_def)
qed

lemma all_sent_network:
  assumes out: "blocks_out True q crypto k bs (filter is_data sent)" and len: "length bs < 2 ^ 32"
  shows "\<exists>mss. network k (length bs) sent mss \<and> concat mss = map d_bytes (filter is_data sent)"
proof -
  let ?mss = "map (sent_block sent) [0..<length bs]"
  have "list_all2 (repairable k) ?mss ?mss"
    using all_sent(1)[OF out len] by (auto simp: list_all2_conv_all_nth intro: repairable_all)
  from repairable_network[OF out len this] all_sent(2)[OF out len] show ?thesis by blast
qed

lemma blocks_few: "\<forall>b \<in> set bs. b \<noteq> [] \<Longrightarrow> length bs \<le> length (concat bs)"
proof (induction bs)
  case (Cons b bs)
  then show ?case by (cases b) auto
qed simp

lemma single_block: "concat bs = [x] \<Longrightarrow> \<forall>b \<in> set bs. b \<noteq> [] \<Longrightarrow> bs = [[x]]"
proof (cases bs)
  case (Cons b bs')
  assume "concat bs = [x]" "\<forall>b \<in> set bs. b \<noteq> []"
  then have "b = [x]" "concat bs' = []" "\<forall>b \<in> set bs'. b \<noteq> []" using Cons by (auto simp: append_eq_Cons_conv)
  then show ?thesis using Cons by (cases bs') auto
qed simp

section \<open>Two gateways to try\<close>

text \<open>A sender with one path and a receiver, both with the default coding parameters.\<close>

definition demo_text_tx :: string where
  "demo_text_tx = ''[general]'' @ [newline] @ ''tun_addr=1.1.1.1/8'' @ [newline] @ ''[path.a]'' @ [newline] @ ''remote_ip=1.1.1.2'' @ [newline]"

definition demo_text_rx :: string where
  "demo_text_rx = ''[general]'' @ [newline] @ ''mode=rx'' @ [newline] @ ''tun_addr=1.1.1.2/8'' @ [newline]"

definition demo_tx :: "gateway_config" where
  "demo_tx = default_config\<lparr>cfg_tun_addr := ''1.1.1.1/8'',
    cfg_path_count := 1, cfg_paths := zero_path\<lparr>pc_name := ''a'', pc_weight := Fin 1, pc_enabled := True, pc_remote_ip := ''1.1.1.2''\<rparr> # replicate 7 zero_path\<rparr>"

definition demo_rx :: "gateway_config" where
  "demo_rx = default_config\<lparr>cfg_mode := ''rx'', cfg_tun_addr := ''1.1.1.2/8''\<rparr>"

lemma demo_load_tx: "config_load (Some demo_text_tx) = Loaded demo_tx" by code_simp

lemma demo_load_rx: "config_load (Some demo_text_rx) = Loaded demo_rx" by code_simp

lemma f32_near: "0 \<le> x \<Longrightarrow> x \<le> 2 \<Longrightarrow> \<exists>y. f32 x = Fin y \<and> 0 \<le> y \<and> y \<le> 2"
  using f32_in_range[of x 1] by (auto simp: in_range_def)

lemma demo_sane: "sane demo_tx" "sane demo_rx"
proof -
  have t: "tame (f32 (3 / 2))" using f32_near[of "3 / 2"] by (auto simp: tame_def)
  have c: "credit_of (Fin 1) = Some 1" by code_simp
  show "sane demo_tx" "sane demo_rx"
    using default_config_shape t c
    by (auto simp: sane_def castable_def config_ok_def config_shape_def demo_tx_def demo_rx_def default_config_def path_ok_def zero_path_def limits)
qed

definition demo_host :: "string \<Rightarrow> host" where
  "demo_host file = \<lparr>ho_files = (\<lambda>_. Some file), ho_tun = demo_os,
     ho_sockets = \<lparr>os_memory = True, os_recv_fd = 5, os_bind = (\<lambda>_. True), os_path_fd = (\<lambda>i. 6 + int i)\<rparr>, ho_memory = True, ho_metrics = (0, True, True)\<rparr>"

definition demo_world :: world where
  "demo_world = \<lparr>w_time = (\<lambda>_. (0, 0)), w_net = (\<lambda>_. 0), w_rand = (\<lambda>_. 0)\<rparr>"

lemma demo_starts:
  obtains a sctx where "gateway_start demo_world (demo_host demo_text_tx) [[], ''--config'', []] = Starts a"
    "lively (gw_tctx a) (ts_strategy (gw_out a))" "gw_tun_fd a = 3" "tc_recv_fd (gw_tctx a) = 5" "gw_is_tx a" "gw_cfg a = demo_tx"
    "gw_metrics_fd a = -1" "gw_crypto a = crypto_init None" "gw_running a" "\<not> gw_reload a"
proof -
  obtain sctx where s: "strategy_init demo_tx = Some sctx" "scheduler_ok sctx" by (rule init_scheduler_ok[OF demo_sane(1)])
  have cfg: "map_option fst (tun_configure demo_os [] ''1.1.1.1/8'') = Some 0" by code_simp
  obtain tctx where t: "transport_init (ho_sockets (demo_host demo_text_tx)) demo_tx 7000 = Some tctx" "tc_recv_fd tctx = 5"
    by (auto simp: transport_init_def demo_host_def)
  have pton: "inet_pton ''1.1.1.2'' \<noteq> None" by code_simp
  have thr: "\<not> flt (f32 (3 / 10)) (Fin 0)" using f32_near[of "3 / 10"] by auto
  have l: "lively tctx sctx"
    by (rule start_lively[OF demo_sane(1) s(1) t(1)])
      (use pton thr in \<open>auto simp: demo_tx_def default_config_def demo_host_def\<close>)
  obtain dev where "gateway_start demo_world (demo_host demo_text_tx) [[], ''--config'', []] =
    Starts (start_loop demo_world (demo_host demo_text_tx) [] demo_tx (crypto_init None) 3 dev tctx sctx)"
    using demo_load_tx cfg t s(1)
    by (auto simp: gateway_start_def start_config_def demo_host_def demo_tx_def default_config_def init_crypto_def
        tun_open_def demo_os_def Let_def)
  then show thesis by (rule that) (use l t in \<open>simp_all add: start_loop_def demo_tx_def default_config_def\<close>)
qed

lemma demo_listens:
  obtains b where "gateway_start demo_world (demo_host demo_text_rx) [[], ''--config'', []] = Starts b"
    "listening b" "gw_crypto b = crypto_init None" "tc_recv_fd (gw_tctx b) = 5"
proof -
  obtain sctx where s: "strategy_init demo_rx = Some sctx" by (rule init_scheduler_ok[OF demo_sane(2)])
  have cfg: "map_option fst (tun_configure demo_os [] ''1.1.1.2/8'') = Some 0" by code_simp
  obtain tctx where t: "transport_init (ho_sockets (demo_host demo_text_rx)) demo_rx 7000 = Some tctx" "tc_recv_fd tctx = 5"
    by (auto simp: transport_init_def demo_host_def)
  obtain dev where "gateway_start demo_world (demo_host demo_text_rx) [[], ''--config'', []] =
    Starts (start_loop demo_world (demo_host demo_text_rx) [] demo_rx (crypto_init None) 3 dev tctx sctx)"
    using demo_load_rx cfg t s
    by (auto simp: gateway_start_def start_config_def demo_host_def demo_rx_def default_config_def init_crypto_def
        tun_open_def demo_os_def Let_def)
  then show thesis by (rule that) (use t in \<open>simp_all add: start_loop_def demo_rx_def default_config_def listening_def\<close>)
qed

lemma demo_start_ok: "start_ok (ho_files (demo_host demo_text_tx) [])" "start_ok (ho_files (demo_host demo_text_rx) [])"
proof -
  have "split_cidr ''1.1.1.1/8'' \<noteq> None" "split_cidr ''1.1.1.2/8'' \<noteq> None" by code_simp+
  then show "start_ok (ho_files (demo_host demo_text_tx) [])" "start_ok (ho_files (demo_host demo_text_rx) [])"
    using demo_sane by (simp_all add: start_ok_def demo_host_def demo_load_tx demo_load_rx demo_tx_def demo_rx_def)
qed

text \<open>An IPv4 packet of 20 bytes, and passes of the loop.\<close>

definition demo_packet :: bytes where "demo_packet = [0x45, 0, 0, 20] @ replicate 16 0"

definition demo_zero :: shard where "demo_zero = \<lparr>coeffs = replicate MAX_K 0, data = replicate MAX_PAYLOAD 0, len = 0\<rparr>"

definition demo_poll :: "int \<Rightarrow> bytes option \<Rightarrow> (bytes \<times> u32) option \<Rightarrow> poll" where
  "demo_poll fd pkt dgram = \<lparr>po_before = [], po_during = [], po_ret = 1, po_ready = {fd}, po_packet = pkt, po_dgram = dgram, po_conn = 0,
     po_files = (\<lambda>_. None), po_pkt_buf = replicate MAX_PAYLOAD 0, po_shard = demo_zero, po_shards = replicate MAX_N demo_zero,
     po_gj = \<lparr>mat = replicate MAX_K (replicate MAX_K 0), dat = replicate MAX_K (replicate MAX_PAYLOAD 0), dlen = replicate MAX_K 0\<rparr>,
     po_decoded = (replicate MAX_K (replicate MAX_PAYLOAD 0), replicate MAX_K 0)\<rparr>"

lemma demo_poll_ok: "poll_ok f H path (demo_poll fd pkt None)"
  by (auto simp: poll_ok_def demo_poll_def demo_zero_def shard_arrays_def file_ok_def config_load_def)

lemma demo_brings: "tc_recv_fd (gw_tctx g) = fd \<Longrightarrow> brings g m (demo_poll fd None (Some (m, 0)))"
  by (simp add: brings_def demo_poll_def demo_zero_def shard_arrays_def room_def)

lemma demo_read:
  assumes "gw_tun_fd a = 3" "gw_is_tx a" "gw_running a" "\<not> gw_reload a"
  shows "packets_read w [demo_poll 3 (Some demo_packet) None] a = [demo_packet]"
proof -
  have "3 \<in> fst (watched a)" using assms(1,2) by (auto simp: watched_def Let_def split: prod.splits)
  then have "pass_in (demo_poll 3 (Some demo_packet) None) a = [demo_packet]"
    using assms by (simp add: pass_in_def packet_in_def demo_poll_def demo_packet_def limits)
  then show ?thesis using assms(3) by (simp add: demo_poll_def split: option.split)
qed

lemma demo_ip: "ip_packet demo_packet"
  by (simp add: ip_packet_def is_ipv4_def demo_packet_def ipv4_total_def)

lemma demo_steady: "steady (\<lambda>i. now_us (w_time demo_world i)) c n"
  by (simp add: steady_def demo_world_def now_us_def RX_BLOCK_TIMEOUT_US_def)

section \<open>Properties\<close>

text \<open>C1: Two gateways with the same key carry IP packets. Whatever else happens at the sender (probes,
  reloads, time-outs, a shutdown that drains), its run returns and the packets it reads from its device
  are cut into blocks of at most \<open>k\<close>; if of each block \<open>k\<close> different shards reach the receiver, in any
  order inside the block and at most one of them a coded one, possibly followed by more of the block,
  then the receiver writes exactly these packets, in order, unpadded and decrypted. Of a block
  that was flushed with fewer than \<open>k\<close> packets it writes the missing ones as packets of zeros.\<close>

theorem tunnel_carries_packets:
  assumes "gateway_start wa ha (proga # opta # patha # argsa) = Starts a" "start_ok (ho_files ha patha)"
    and "\<forall>p \<in> set pas. poll_ok False H patha p" "poll_ok False H patha last_poll"
    and "\<forall>p \<in> set (packets_read wa pas a). ip_packet p" "length (packets_read wa pas a) \<le> H + 1" "H < 2 ^ 30"
    and "gateway_start wb hb (progb # optb # pathb # argsb) = Starts b" "start_ok (ho_files hb pathb)" "listening b"
    and "gw_crypto b = gw_crypto a" "\<And>c. steady (\<lambda>i. now_us (w_time wb i)) c MAX_K"
  shows "\<exists>a' fds bs. main wa ha (proga # opta # patha # argsa) pas last_poll = Some (Inr (a', fds)) \<and>
    packets_read wa pas a = concat bs \<and> (\<forall>ps \<in> set bs. ps \<noteq> [] \<and> length ps \<le> nat (cfg_k (gw_cfg a))) \<and>
    (\<forall>mss pols. network (nat (cfg_k (gw_cfg a))) (length bs) (ts_sent (gw_out a')) mss \<and> list_all2 (brings b) (concat mss) pols \<longrightarrow>
       (\<exists>b'. event_loop wb pols b = Some b' \<and> gw_written b' = concat (map (delivered (nat (cfg_k (gw_cfg a)))) bs)))"
proof -
  obtain a' fds bs where r: "main wa ha (proga # opta # patha # argsa) pas last_poll = Some (Inr (a', fds))"
    "packets_read wa pas a = concat bs" "\<forall>ps \<in> set bs. ps \<noteq> [] \<and> length ps \<le> nat (cfg_k (gw_cfg a))"
    "blocks_out False False (gw_crypto a) (nat (cfg_k (gw_cfg a))) bs (filter is_data (ts_sent (gw_out a')))"
    by (rule program_run[OF assms(1-4,7)]) (simp, rule that)
  note k = started_k[OF assms(1,2)]
  have "length bs \<le> length (concat bs)" using r(3) by (intro blocks_few) blast
  then have len: "length bs \<le> H + 1" using assms(6) r(2) by simp
  have ip: "\<forall>ps \<in> set bs. length ps \<le> nat (cfg_k (gw_cfg a)) \<and> (\<forall>p \<in> set ps. ip_packet p)" using r(2,3) assms(5) by auto
  show ?thesis
    using r receiver_writes[OF r(4) k ip len assms(7-10,11,12)] by blast
qed

theorem tunnel_carries_packets_witness:
  "\<exists>b pols b'. gateway_start demo_world (demo_host demo_text_rx) [[], ''--config'', []] = Starts b \<and>
    event_loop demo_world pols b = Some b' \<and> gw_written b' = demo_packet # replicate 3 (replicate 20 0)"
proof -
  obtain a where a: "gateway_start demo_world (demo_host demo_text_tx) [[], ''--config'', []] = Starts a"
    "lively (gw_tctx a) (ts_strategy (gw_out a))" "gw_tun_fd a = 3" "gw_is_tx a" "gw_cfg a = demo_tx"
    "gw_crypto a = crypto_init None" "gw_running a" "\<not> gw_reload a" by (rule demo_starts)
  obtain b where b: "gateway_start demo_world (demo_host demo_text_rx) [[], ''--config'', []] = Starts b" "listening b"
    "gw_crypto b = crypto_init None" "tc_recv_fd (gw_tctx b) = 5" by (rule demo_listens)
  let ?ps = "[demo_poll 3 (Some demo_packet) None]" and ?l = "demo_poll 3 None None"
  note rd = demo_read[OF a(3,4,7,8)]
  have k: "nat (cfg_k (gw_cfg a)) = 4" by (simp add: a(5) demo_tx_def default_config_def)
  have "\<exists>a' fds bs. main demo_world (demo_host demo_text_tx) [[], ''--config'', []] ?ps ?l = Some (Inr (a', fds)) \<and>
    packets_read demo_world ?ps a = concat bs \<and> (\<forall>ps \<in> set bs. ps \<noteq> [] \<and> length ps \<le> nat (cfg_k (gw_cfg a))) \<and>
    (\<forall>mss pols. network (nat (cfg_k (gw_cfg a))) (length bs) (ts_sent (gw_out a')) mss \<and> list_all2 (brings b) (concat mss) pols \<longrightarrow>
       (\<exists>b'. event_loop demo_world pols b = Some b' \<and> gw_written b' = concat (map (delivered (nat (cfg_k (gw_cfg a)))) bs)))"
    by (rule tunnel_carries_packets[OF a(1) demo_start_ok(1) _ _ _ _ _ b(1) demo_start_ok(2) b(2), where H = 5])
      (use demo_poll_ok demo_ip demo_steady in \<open>simp_all add: rd a(6) b(3) del: packets_read.simps\<close>)
  then obtain a' fds bs where x: "main demo_world (demo_host demo_text_tx) [[], ''--config'', []] ?ps ?l = Some (Inr (a', fds)) \<and>
    packets_read demo_world ?ps a = concat bs \<and> (\<forall>ps \<in> set bs. ps \<noteq> [] \<and> length ps \<le> nat (cfg_k (gw_cfg a))) \<and>
    (\<forall>mss pols. network (nat (cfg_k (gw_cfg a))) (length bs) (ts_sent (gw_out a')) mss \<and> list_all2 (brings b) (concat mss) pols \<longrightarrow>
       (\<exists>b'. event_loop demo_world pols b = Some b' \<and> gw_written b' = concat (map (delivered (nat (cfg_k (gw_cfg a)))) bs)))"
    by (elim exE) (rule that)
  note m = conjunct1[OF x] conjunct1[OF conjunct2[OF x], unfolded rd, symmetric] conjunct1[OF conjunct2[OF conjunct2[OF x]]]
  note net = conjunct2[OF conjunct2[OF conjunct2[OF x]], unfolded k, rule_format, OF conjI]
  have one: "bs = [[demo_packet]]" by (rule single_block[OF m(2)]) (use m(3) in simp)
  obtain a2 fds2 bs2 where r: "main demo_world (demo_host demo_text_tx) [[], ''--config'', []] ?ps ?l = Some (Inr (a2, fds2))"
    "packets_read demo_world ?ps a = concat bs2" "\<forall>b \<in> set bs2. b \<noteq> [] \<and> length b \<le> nat (cfg_k (gw_cfg a))"
    "blocks_out True False (gw_crypto a) (nat (cfg_k (gw_cfg a))) bs2 (filter is_data (ts_sent (gw_out a2)))"
    by (rule program_run[OF a(1) demo_start_ok(1), where f = True and q = False and H = 5 and ps = ?ps and last_poll = ?l])
      (use demo_poll_ok a(2) in \<open>simp_all add: lively_as_def\<close>)
  have one2: "bs2 = [[demo_packet]]" by (rule single_block[OF trans[OF r(2)[symmetric] rd]]) (use r(3) in simp)
  have eq: "a2 = a'" using trans[OF r(1)[symmetric] m(1)] by simp
  obtain mss where "network 4 (length bs) (ts_sent (gw_out a')) mss"
    using all_sent_network[OF r(4)] unfolding k eq one one2 by (auto simp: limits)
  from net[OF this, of "map (\<lambda>x. demo_poll 5 None (Some (x, 0))) (concat mss)"]
  obtain pols b' where "event_loop demo_world pols b = Some b'" "gw_written b' = concat (map (delivered 4) bs)"
    using demo_brings[OF b(4)] by (auto simp: list_all2_conv_all_nth)
  moreover have "concat (map (delivered 4) bs) = demo_packet # replicate 3 (replicate 20 0)"
    by (simp add: one delivered_def demo_packet_def eval_nat_numeral)
  ultimately show ?thesis using b(1) by metis
qed

text \<open>C4: Losses are repaired, from end to end. When every enabled path has an open socket at the start, the loss
  threshold is not negative and no reload happens, every block is sent as \<open>n >= k\<close> shards, uncoded ones first, block
  after block. Let the network lose any of them, as long as \<open>k\<close> of each block and all but one of its uncoded
  ones are left: the receiver writes every packet that the sender has read, in order. When the configured redundancy
  ratio is above 1, however little, every block has a shard to spare, so that any one lost shard of each block is such a
  loss. In particular nothing is missing when nothing is lost.\<close>

theorem losses_are_repaired:
  assumes "gateway_start wa ha (proga # opta # patha # argsa) = Starts a" "start_ok (ho_files ha patha)"
    and "\<forall>p \<in> set pas. poll_ok True H patha p" "poll_ok True H patha last_poll" "lively (gw_tctx a) (ts_strategy (gw_out a))"
    and "\<forall>p \<in> set (packets_read wa pas a). ip_packet p" "length (packets_read wa pas a) \<le> H + 1" "H < 2 ^ 30"
    and "gateway_start wb hb (progb # optb # pathb # argsb) = Starts b" "start_ok (ho_files hb pathb)" "listening b"
    and "gw_crypto b = gw_crypto a" "\<And>c. steady (\<lambda>i. now_us (w_time wb i)) c MAX_K"
  shows "\<exists>a' fds bs. main wa ha (proga # opta # patha # argsa) pas last_poll = Some (Inr (a', fds)) \<and>
    packets_read wa pas a = concat bs \<and> (\<forall>ps \<in> set bs. ps \<noteq> [] \<and> length ps \<le> nat (cfg_k (gw_cfg a))) \<and>
    (\<forall>i < length bs. \<exists>n \<ge> nat (cfg_k (gw_cfg a)). map shard_no (sent_block (ts_sent (gw_out a')) i) = [0..<n]) \<and>
    concat (map (sent_block (ts_sent (gw_out a'))) [0..<length bs]) = map d_bytes (filter is_data (ts_sent (gw_out a'))) \<and>
    (flt (Fin 1) (cfg_redundancy_ratio (gw_cfg a)) \<longrightarrow> (\<forall>i < length bs. \<forall>ms. subseq ms (sent_block (ts_sent (gw_out a')) i) \<and>
       length (sent_block (ts_sent (gw_out a')) i) \<le> Suc (length ms) \<longrightarrow>
       repairable (nat (cfg_k (gw_cfg a))) (sent_block (ts_sent (gw_out a')) i) ms)) \<and>
    (\<forall>mss pols. list_all2 (repairable (nat (cfg_k (gw_cfg a)))) (map (sent_block (ts_sent (gw_out a'))) [0..<length bs]) mss \<and>
       list_all2 (brings b) (concat mss) pols \<longrightarrow>
       (\<exists>b'. event_loop wb pols b = Some b' \<and> gw_written b' = concat (map (delivered (nat (cfg_k (gw_cfg a)))) bs)))"
proof -
  let ?k = "nat (cfg_k (gw_cfg a))" and ?q = "flt (Fin 1) (cfg_redundancy_ratio (gw_cfg a))"
  have up: "lively_as ?q (gw_tctx a) (ts_strategy (gw_out a))"
    using assms(5) started_surplus[OF assms(1,2)] by (simp add: lively_as_def)
  obtain a' fds bs where r: "main wa ha (proga # opta # patha # argsa) pas last_poll = Some (Inr (a', fds))"
    "packets_read wa pas a = concat bs" "\<forall>ps \<in> set bs. ps \<noteq> [] \<and> length ps \<le> ?k"
    "blocks_out True ?q (gw_crypto a) ?k bs (filter is_data (ts_sent (gw_out a')))"
    by (rule program_run[OF assms(1-4,8)]) (use up in simp, rule that)
  note k = started_k[OF assms(1,2)]
  have "length bs \<le> length (concat bs)" using r(3) by (intro blocks_few) blast
  then have len: "length bs \<le> H + 1" "length bs < 2 ^ 32" using assms(7,8) r(2) by simp_all
  have ip: "\<forall>ps \<in> set bs. length ps \<le> ?k \<and> (\<forall>p \<in> set ps. ip_packet p)" using r(2,3) assms(6) by auto
  let ?sent = "sent_block (ts_sent (gw_out a'))"
  have "\<exists>b'. event_loop wb pols b = Some b' \<and> gw_written b' = concat (map (delivered ?k) bs)"
    if "list_all2 (repairable ?k) (map ?sent [0..<length bs]) mss" "list_all2 (brings b) (concat mss) pols" for mss pols
    by (rule receiver_writes[OF r(4) k ip len(1) assms(8-13) repairable_network[OF r(4) len(2) that(1)] that(2)])
  then have writes: "\<forall>mss pols. list_all2 (repairable ?k) (map ?sent [0..<length bs]) mss \<and> list_all2 (brings b) (concat mss) pols \<longrightarrow>
    (\<exists>b'. event_loop wb pols b = Some b' \<and> gw_written b' = concat (map (delivered ?k) bs))" by blast
  have "repairable ?k (?sent i) ms" if "?q" "i < length bs" "subseq ms (?sent i)" "length (?sent i) \<le> Suc (length ms)" for i ms
  proof -
    note lost = that
    obtain n where "map shard_no (?sent i) = [0..<n]" "?k < n" using all_sent(1)[OF r(4) len(2) lost(2)] lost(1) by blast
    then show ?thesis using lost(3,4) by (rule one_lost_repairable)
  qed
  then have spare: "?q \<longrightarrow> (\<forall>i < length bs. \<forall>ms. subseq ms (?sent i) \<and> length (?sent i) \<le> Suc (length ms) \<longrightarrow> repairable ?k (?sent i) ms)"
    by blast
  have shards: "\<forall>i < length bs. \<exists>n \<ge> ?k. map shard_no (?sent i) = [0..<n]" using all_sent(1)[OF r(4) len(2)] by blast
  show ?thesis by (intro exI conjI) (rule r(1-3) shards all_sent(2)[OF r(4) len(2)] spare writes)+
qed

theorem losses_are_repaired_witness:
  "\<exists>a a' fds b pols b'. main demo_world (demo_host demo_text_tx) [[], ''--config'', []] [demo_poll 3 (Some demo_packet) None]
      (demo_poll 3 None None) = Some (Inr (a', fds)) \<and>
    gateway_start demo_world (demo_host demo_text_rx) [[], ''--config'', []] = Starts b \<and>
    map po_dgram pols = map (\<lambda>m. Some (m, 0)) (tl (sent_block (ts_sent (gw_out a')) 0)) \<and>
    event_loop demo_world pols b = Some b' \<and> gw_written b' = demo_packet # replicate 3 (replicate 20 0)"
proof -
  obtain a where a: "gateway_start demo_world (demo_host demo_text_tx) [[], ''--config'', []] = Starts a"
    "lively (gw_tctx a) (ts_strategy (gw_out a))" "gw_tun_fd a = 3" "gw_is_tx a" "gw_cfg a = demo_tx"
    "gw_crypto a = crypto_init None" "gw_running a" "\<not> gw_reload a" by (rule demo_starts)
  obtain b where b: "gateway_start demo_world (demo_host demo_text_rx) [[], ''--config'', []] = Starts b" "listening b"
    "gw_crypto b = crypto_init None" "tc_recv_fd (gw_tctx b) = 5" by (rule demo_listens)
  let ?ps = "[demo_poll 3 (Some demo_packet) None]"
  note rd = demo_read[OF a(3,4,7,8)]
  have k: "nat (cfg_k (gw_cfg a)) = 4" by (simp add: a(5) demo_tx_def default_config_def)
  have p: "\<forall>p \<in> set ?ps. poll_ok True 5 [] p" using demo_poll_ok by simp
  have ip: "\<forall>p \<in> set (packets_read demo_world ?ps a). ip_packet p" "length (packets_read demo_world ?ps a) \<le> 5 + 1"
    unfolding rd using demo_ip by simp_all
  have key: "gw_crypto b = gw_crypto a" and H: "(5 :: nat) < 2 ^ 30" using a(6) b(3) by simp_all
  obtain a' fds bs where x: "main demo_world (demo_host demo_text_tx) [[], ''--config'', []] ?ps (demo_poll 3 None None) = Some (Inr (a', fds)) \<and>
    [demo_packet] = concat bs \<and> (\<forall>ps \<in> set bs. ps \<noteq> [] \<and> length ps \<le> 4) \<and>
    (\<forall>i < length bs. \<exists>n \<ge> 4. map shard_no (sent_block (ts_sent (gw_out a')) i) = [0..<n]) \<and>
    concat (map (sent_block (ts_sent (gw_out a'))) [0..<length bs]) = map d_bytes (filter is_data (ts_sent (gw_out a'))) \<and>
    (flt (Fin 1) (cfg_redundancy_ratio (gw_cfg a)) \<longrightarrow> (\<forall>i < length bs. \<forall>ms. subseq ms (sent_block (ts_sent (gw_out a')) i) \<and>
       length (sent_block (ts_sent (gw_out a')) i) \<le> Suc (length ms) \<longrightarrow>
       repairable 4 (sent_block (ts_sent (gw_out a')) i) ms)) \<and>
    (\<forall>mss pols. list_all2 (repairable 4) (map (sent_block (ts_sent (gw_out a'))) [0..<length bs]) mss \<and>
       list_all2 (brings b) (concat mss) pols \<longrightarrow>
       (\<exists>b'. event_loop demo_world pols b = Some b' \<and> gw_written b' = concat (map (delivered 4) bs)))"
    using losses_are_repaired[OF a(1) demo_start_ok(1) p demo_poll_ok[of _ _ _ 3 None] a(2) ip H b(1) demo_start_ok(2) b(2) key demo_steady,
        unfolded k rd]
    by (elim exE) (rule that)
  note m = conjunct1[OF x] conjunct1[OF conjunct2[OF x]] conjunct1[OF conjunct2[OF conjunct2[OF x]]]
    conjunct1[OF conjunct2[OF conjunct2[OF conjunct2[OF conjunct2[OF conjunct2[OF x]]]]], rule_format, OF _ _ conjI]
  note net = conjunct2[OF conjunct2[OF conjunct2[OF conjunct2[OF conjunct2[OF conjunct2[OF x]]]]], rule_format, OF conjI]
  have one: "bs = [[demo_packet]]" by (rule single_block[OF m(2)[symmetric]]) (use m(3) in simp)
  let ?ms = "tl (sent_block (ts_sent (gw_out a')) 0)"
  let ?pols = "map (\<lambda>x. demo_poll 5 None (Some (x, 0))) ?ms"
  have "flt (Fin 1) (f32 (3 / 2))" by code_simp
  then have "repairable 4 (sent_block (ts_sent (gw_out a')) 0) ?ms"
    by (intro m(4)) (simp_all add: one a(5) demo_tx_def default_config_def sublist_imp_subseq)
  moreover have "list_all2 (brings b) ?ms ?pols" using demo_brings[OF b(4)] by (simp add: list_all2_conv_all_nth)
  ultimately obtain b' where "event_loop demo_world ?pols b = Some b'" "gw_written b' = concat (map (delivered 4) bs)"
    using net[of "[?ms]" ?pols] one by auto
  moreover have "concat (map (delivered 4) bs) = demo_packet # replicate 3 (replicate 20 0)"
    by (simp add: one delivered_def demo_packet_def eval_nat_numeral)
  moreover have "map po_dgram ?pols = map (\<lambda>m. Some (m, 0)) ?ms" by (simp add: demo_poll_def)
  ultimately show ?thesis using m(1) b(1) by metis
qed

section \<open>A forged datagram\<close>








end
