(* ===== verification/Network.thy ===== *)
theory Network
  imports Window Tunnel
begin

text \<open>
  Two gateways and the network between them, which may lose, delay, reorder and repeat datagrams but not
  make them up. The system is a step relation; each direction is shown to implement an abstract channel
  that carries blocks: it may lose a block, but it delivers blocks whole, in order, and at most once.
\<close>

section \<open>What a block becomes\<close>

text \<open>The padded length of a block of the packets \<open>ps\<close>, its rows, and what the receiver makes of them.\<close>

definition longest :: "bytes list \<Rightarrow> nat" where
  "longest ps = Max (set (map length ps))"

definition block_rows :: "nat \<Rightarrow> bytes list \<Rightarrow> bytes list" where
  "block_rows k ps = map (row_of (longest ps) ps) [0..<k]"

definition written :: "nat \<Rightarrow> bytes list \<Rightarrow> bytes list" where
  "written k ps = map (\<lambda>i. cut (longest ps) (block_rows k ps ! i)) [0..<k]"

lemma row_of_length: "(\<And>i. i < length ps \<Longrightarrow> length (ps ! i) \<le> L) \<Longrightarrow> length (row_of L ps i) = L"
  by (simp add: row_of_def)

lemma rows_canonical:
  assumes "rows k L ps src"
  shows "longest ps = L" "rows k L ps (block_rows k ps)" "\<And>i. i < k \<Longrightarrow> take L (src ! i) = take L (block_rows k ps ! i)"
proof -
  show L: "longest ps = L" using rows_length[OF assms] by (simp add: longest_def)
  have len: "length (row_of L ps i) = L" for i using assms by (intro row_of_length) (simp add: rows_def)
  then show "rows k L ps (block_rows k ps)" using assms by (simp add: rows_def block_rows_def L)
  show "take L (src ! i) = take L (block_rows k ps ! i)" if "i < k" for i
    using assms that len by (simp add: rows_def block_rows_def L)
qed

lemma written_delivered:
  assumes "rows k L ps src" "\<forall>p \<in> set ps. ip_packet p" "length ps \<le> k"
  shows "written k ps = delivered k ps"
  using rows_delivered[OF rows_canonical(2)[OF assms(1)] assms(2,3)] by (simp add: written_def rows_canonical(1)[OF assms(1)])

lemma coded_source:
  assumes "\<And>i. i < k \<Longrightarrow> take L (src ! i) = take L (src' ! i)"
  shows "coded k L src s sh = coded k L src' s sh"
proof -
  have "src ! i ! j = src' ! i ! j" if "i < k" "j < L" for i j
    using arg_cong[OF assms[OF that(1)], of "\<lambda>r. r ! j"] that(2) by simp
  then show ?thesis by (simp add: coded_def carries_def)
qed

text \<open>A shard of the block that is made of \<open>ps\<close>.\<close>

abbreviation shard_of :: "nat \<Rightarrow> bytes list \<Rightarrow> nat \<Rightarrow> shard \<Rightarrow> bool" where
  "shard_of k ps \<equiv> coded k (longest ps) (block_rows k ps)"

abbreviation shard_arrival :: "crypto_ctx \<Rightarrow> nat \<Rightarrow> bytes list \<Rightarrow> u32 \<Rightarrow> arrival \<Rightarrow> nat \<Rightarrow> bool" where
  "shard_arrival crypto k ps \<equiv> block_arrival crypto k (longest ps) (block_rows k ps)"

lemma arrival_source:
  assumes "block_arrival crypto k L src bid a j" "rows k L ps src"
  shows "shard_arrival crypto k ps bid a j"
  using assms(1) coded_source[of k L src "block_rows k ps", OF rows_canonical(3)[OF assms(2)]]
  by (simp add: block_arrival_def rows_canonical(1)[OF assms(2)])

text \<open>Every datagram with data that a sender of the blocks \<open>bs\<close> has sent arrives as a shard of one of them.\<close>

lemma sent_arrives:
  assumes out: "blocks_out f q crypto k bs (filter is_data sent)" and k: "k \<le> MAX_K"
    and m: "d \<in> set sent" "is_data d" and e: "env_ok e"
  obtains i j a ps src where "i < length bs" "j < MAX_N" "arrival_of rctx e (d_bytes d) = Some a"
    "shard_arrival crypto k (bs ! i) (of_nat i) a j" "rows k (longest (bs ! i)) (bs ! i) (block_rows k (bs ! i))"
proof -
  obtain dss where d: "filter is_data sent = concat dss" "list_all2 (\<lambda>(i, ps). block_of f q crypto k i ps) (enumerate 0 bs) dss"
    using out by (auto simp: blocks_out_def)
  have len: "length dss = length bs" using list_all2_lengthD[OF d(2)] by simp
  have "d \<in> set (concat dss)" unfolding d(1)[symmetric] using m by simp
  then obtain ds where "ds \<in> set dss" "d \<in> set ds" by auto
  then obtain i where i: "i < length bs" "d \<in> set (dss ! i)" using len by (metis in_set_conv_nth)
  have "block_of f q crypto k i (bs ! i) (dss ! i)" using list_all2_nthD[OF d(2), of i] i by (simp add: nth_enumerate_eq)
  then obtain n L src p0 sel where r: "rows k L (bs ! i) src" "n \<le> MAX_N" "\<And>j. j < n \<Longrightarrow> coded k L src j (p0 ! j)" "set sel \<subseteq> {..<n}"
    and b: "map d_bytes (dss ! i) = map (\<lambda>j. shard_bytes (of_nat i) (of_nat j) (of_nat k) (of_nat n) (encrypted crypto (of_nat i) j (p0 ! j))) sel"
    by (rule block_messages) (rule that)
  have "d_bytes d \<in> set (map d_bytes (dss ! i))" using i by simp
  then obtain j where j: "j < n" "d_bytes d = shard_bytes (of_nat i) (of_nat j) (of_nat k) (of_nat n) (encrypted crypto (of_nat i) j (p0 ! j))"
    unfolding b using r(4) by auto
  have jN: "j < MAX_N" and L: "L \<le> MAX_PAYLOAD" using j(1) r(1,2) by (simp_all add: rows_def)
  obtain a where a: "arrival_of rctx e (d_bytes d) = Some a" "block_arrival crypto k L src (of_nat i) a j"
    unfolding j(2) by (rule message_arrives[OF r(3)[OF j(1)] k L jN e])
  show thesis
    by (rule that[OF i(1) jN a(1) arrival_source[OF a(2) r(1)]]) (use rows_canonical(1,2)[OF r(1)] in simp)
qed

section \<open>The receiver only holds what was sent\<close>

definition part_of :: "nat \<Rightarrow> bytes list \<Rightarrow> rx_block \<Rightarrow> bool" where
  "part_of k ps b \<longleftrightarrow> rx_block_ok b \<and> (\<forall>j < MAX_N. rb_received b ! j \<longrightarrow> shard_of k ps j (rb_shards b ! j))"

definition holds_sent :: "nat \<Rightarrow> bytes list list \<Rightarrow> block_map \<Rightarrow> bool" where
  "holds_sent k bs m \<longleftrightarrow> (\<forall>bid b. bm_blocks m bid = Some b \<longrightarrow> unat bid < length bs \<and> part_of k (bs ! unat bid) b)"

lemma holds_sent_more: "holds_sent k bs m \<Longrightarrow> holds_sent k (bs @ new) m"
  by (auto simp: holds_sent_def nth_append intro: trans_less_add1)

lemma holds_sent_less: "holds_sent k bs m \<Longrightarrow> bm_blocks m' \<subseteq>\<^sub>m bm_blocks m \<Longrightarrow> holds_sent k bs m'"
  by (auto simp: holds_sent_def map_le_def dom_def)

lemma holds_sent_put:
  "holds_sent k bs m \<Longrightarrow> unat bid < length bs \<Longrightarrow> part_of k (bs ! unat bid) b \<Longrightarrow> holds_sent k bs (put bid b m)"
  by (simp add: holds_sent_def put_def)

lemma empty_part: "part_of k ps (zero_block\<lparr>rb_block_id := bid\<rparr>)"
  using zero_block_ok[of bid] by (simp add: part_of_def zero_block_def)

lemma store_part:
  assumes b: "part_of k ps b" and a: "shard_arrival crypto k ps bid (junk, out, hdr, s) j"
  shows "part_of k ps (fst (store_shard clk crypto hdr s b c))"
proof (cases "accepts b hdr")
  case True
  have s: "shard_arrays s" "unat (h_shard_idx hdr) = j" "shard_of k ps j (decrypted crypto hdr s)" using a by (simp_all add: block_arrival_def)
  have len: "length (rb_received b) = MAX_N" "length (rb_shards b) = MAX_N" using b by (simp_all add: part_of_def rx_block_ok_def)
  have "rx_block_ok (fst (store_shard clk crypto hdr s b c))"
    using store_shard_ok(1)[of b s clk crypto hdr c] b s(1) by (cases "store_shard clk crypto hdr s b c") (simp add: part_of_def)
  then show ?thesis
    using b s len store_shard_accept[OF True, of clk crypto s c] by (auto simp: part_of_def nth_upd split: if_splits)
qed (use b in \<open>simp add: store_shard_reject\<close>)

lemma insert_sent:
  assumes h: "holds_sent k bs m" and i: "unat (h_block_id hdr) < length bs"
    and a: "shard_arrival crypto k (bs ! unat (h_block_id hdr)) bid (junk, out, hdr, s) j"
    and ins: "map_insert clk crypto ws hdr s (m, c) = (m', c')"
  shows "holds_sent k bs m'" "bm_base m' = bm_base m"
proof -
  have old: "part_of k (bs ! unat (h_block_id hdr)) b" if "bm_blocks m (h_block_id hdr) = Some b" for b
    using h that by (simp add: holds_sent_def)
  show "holds_sent k bs m'"
    using ins h old store_part[OF _ a, of _ clk c] empty_part[of k _ "h_block_id hdr"] i
    by (auto simp: map_insert_def Let_def intro!: holds_sent_put split: if_splits option.splits prod.splits) (metis fst_conv)+
  show "bm_base m' = bm_base m"
    using ins by (auto simp: map_insert_def Let_def put_def split: if_splits option.splits prod.splits)
qed

text \<open>Decoding any \<open>k\<close> of the shards yields the packets of the block, if it succeeds.\<close>

lemma collected_part:
  assumes b: "part_of k ps b" and n: "k \<le> rb_recv_count b" "k \<le> MAX_K" and r: "r < k"
  shows "carries k (longest ps) (block_rows k ps) (collect k b ! r)"
proof -
  let ?is = "filter (\<lambda>i. rb_received b ! i) [0..<MAX_N]"
  have "length ?is = rb_recv_count b" using b by (simp add: part_of_def rx_block_ok_def)
  then have len: "r < length ?is" using n r by simp
  then have "?is ! r \<in> set ?is" by (rule nth_mem)
  then have "shard_of k ps (?is ! r) (rb_shards b ! (?is ! r))" using b by (simp add: part_of_def)
  moreover have "collect k b ! r = rb_shards b ! (?is ! r)"
    using len r by (simp add: collect_def Let_def nth_append)
  ultimately show ?thesis by (simp add: coded_def)
qed

lemma decoded_part:
  assumes b: "part_of k ps b" and r: "rows k (longest ps) ps (block_rows k ps)" and k: "k \<le> MAX_K"
    and a: "arrays_ok k (longest ps) junk out" and d: "try_decode junk out k b = (dec, b', pkts)"
  shows "part_of k ps b'" "dec \<Longrightarrow> pkts = written k ps \<and> rb_decoded b'" "\<not> dec \<Longrightarrow> pkts = []"
proof -
  have b': "b' = b \<or> b' = b\<lparr>rb_decoded := True\<rparr>" using d by (auto simp: try_decode_def decodes_now_def split: if_splits option.splits prod.splits)
  then show "part_of k ps b'" using b by (auto simp: part_of_def rx_block_ok_def)
  show "\<not> dec \<Longrightarrow> pkts = []" using d by (auto simp: try_decode_def decodes_now_def split: if_splits option.splits prod.splits)
  assume dec
  then obtain ob ol where n: "k \<le> rb_recv_count b" and dec: "decode_block junk (collect k b) k (fst out, snd out) = Some (ob, ol)"
    and p: "b' = b\<lparr>rb_decoded := True\<rparr>" "pkts = map (\<lambda>i. take (unat (ip_packet_length (ob ! i) (ol ! i))) (ob ! i)) [0..<k]"
    using d by (auto simp: try_decode_def decodes_now_def split: if_splits option.splits)
  have L: "longest ps \<le> MAX_PAYLOAD" using r by (simp add: rows_def)
  have room: "room k (longest ps) junk" "k \<le> length (fst out)" "k \<le> length (snd out)" using a by (simp_all add: arrays_ok_def)
  have "take (unat (ip_packet_length (ob ! i) (ol ! i))) (ob ! i) = cut (longest ps) (block_rows k ps ! i)" if "i < k" for i
  proof (rule cut_eq)
    note rec = decode_recovers[OF dec room(1) L room(2,3) collected_part[OF b n k] that]
    show "unat (ol ! i) = longest ps" "longest ps \<le> length (ob ! i)" using rec by blast+
    show "ob ! i ! j = block_rows k ps ! i ! j" if "j < longest ps" for j using rec(3) that by simp
    show "longest ps \<le> length (block_rows k ps ! i)" using r that by (simp add: rows_def)
    show "longest ps < 2 ^ 16" using L by (simp add: limits)
  qed
  then show "pkts = written k ps \<and> rb_decoded b'" using p by (simp add: written_def)
qed

lemma try_decode_sent:
  assumes h: "holds_sent k bs m" and i: "unat bid < length bs" and k: "1 \<le> k" "k \<le> MAX_K"
    and r: "rows k (longest (bs ! unat bid)) (bs ! unat bid) (block_rows k (bs ! unat bid))"
    and a: "arrays_ok k (longest (bs ! unat bid)) junk out" and d: "map_try_decode junk out ws bid k m = (dec, m', pkts)"
  shows "holds_sent k bs m'" "bm_base m' = bm_base m" "\<not> dec \<Longrightarrow> pkts = []"
    "dec \<Longrightarrow> pkts = written k (bs ! unat bid) \<and> in_reach ws m bid \<and> (\<exists>b. bm_blocks m' bid = Some b \<and> rb_decoded b)"
proof -
  have "holds_sent k bs m' \<and> bm_base m' = bm_base m \<and> (\<not> dec \<longrightarrow> pkts = []) \<and>
    (dec \<longrightarrow> pkts = written k (bs ! unat bid) \<and> in_reach ws m bid \<and> (\<exists>b. bm_blocks m' bid = Some b \<and> rb_decoded b))"
  proof (cases "in_reach ws m bid \<and> bm_blocks m bid \<noteq> None")
    case False
    then have "\<not> dec" "m' = m" "pkts = []" using d k by (auto simp: map_try_decode_def split: option.splits if_splits)
    then show ?thesis using h by simp
  next
    case True
    then obtain b where b: "in_reach ws m bid" "bm_blocks m bid = Some b" by auto
    obtain b' where t: "try_decode junk out k b = (dec, b', pkts)" "m' = put bid b' m"
      using d b by (auto simp: map_try_decode_def split: prod.splits)
    have "part_of k (bs ! unat bid) b" using h b(2) by (simp add: holds_sent_def)
    note p = decoded_part[OF this r k(2) a t(1)]
    show ?thesis using p b(1) holds_sent_put[OF h i p(1)] t(2) by (auto simp: put_def)
  qed
  then show "holds_sent k bs m'" "bm_base m' = bm_base m" "\<not> dec \<Longrightarrow> pkts = []"
    "dec \<Longrightarrow> pkts = written k (bs ! unat bid) \<and> in_reach ws m bid \<and> (\<exists>b. bm_blocks m' bid = Some b \<and> rb_decoded b)" by blast+
qed

text \<open>When the window has settled, a block that was decoded is behind it.\<close>

lemma decoded_block_passed:
  assumes ses: "session H ws win" "session H ws win'" and H: "H < 2 ^ 30" and d: "d \<le> H + 1 - unat (rw_base_id win)"
    and mv: "moved ws d win win'" and nn: "none_newer ws win'" and se: "settled (map_of_window ws win')"
    and b: "stored ws win bid = Some b" "rb_decoded b"
  shows "unat bid < unat (rw_base_id win')"
proof -
  have ok: "window_ok ws win" "window_ok ws win'" using ses by (simp_all add: session_def)
  obtain l where l: "l < ws" "occupied win l" "rw_slots win ! l = b" "rb_block_id b = bid"
    using b(1) by (auto simp: stored_Some[OF ok(1)])
  have "unat bid \<le> H" using ses(1) l by (auto simp: session_def)
  note ah = session_ahead[OF ses(1) H this] session_ahead[OF ses(2) H this]
  show ?thesis
  proof (cases "rw_slots win' ! l = b")
    case True
    then have o: "occupied win' l" using l by (simp add: occupied_def)
    then have "stored ws win' bid = Some b" using l True by (auto simp: stored_Some[OF ok(2)])
    then have "bid \<noteq> rw_base_id win'" using se b(2) by (auto simp: settled_def)
    then have "unat bid \<noteq> unat (rw_base_id win')" by (simp add: word_unat_eq_iff)
    moreover have "ahead win' bid \<le> 0" using nn o l True by (auto simp: none_newer_def)
    ultimately show ?thesis using ah(2) by (simp del: of_nat_unat)
  next
    case False
    then have "ahead win bid < int d" using mv l by (auto simp: moved_def)
    then show ?thesis using ah(1) moved_steps[OF mv ses(1) H d] by (simp del: of_nat_unat)
  qed
qed

text \<open>A shard that was sent arrives: the window still holds only such shards, and what is written is
  nothing, or the block of the shard, which the window then leaves behind.\<close>

lemma receiver_step:
  assumes ses: "session H ws win" and H: "H < 2 ^ 30" and h: "holds_sent k bs (map_of_window ws win)"
    and i: "i < length bs" "length bs \<le> H + 1" and k: "1 \<le> k" "k \<le> MAX_K"
    and r: "rows k (longest (bs ! i)) (bs ! i) (block_rows k (bs ! i))"
    and a: "shard_arrival crypto k (bs ! i) (of_nat i) (junk, out, hdr, s) j"
    and on: "rx_on_shard clk crypto junk out ws hdr s (win, c) = Some (dec, win', c', pkts)"
  shows "session H ws win'" "holds_sent k bs (map_of_window ws win')" "unat (rw_base_id win) \<le> unat (rw_base_id win')"
    "pkts = [] \<or> pkts = written k (bs ! i) \<and> unat (rw_base_id win) \<le> i \<and> i < unat (rw_base_id win')"
proof -
  define bid :: u32 where "bid = of_nat i"
  have bid: "unat bid = i" using i H by (simp add: bid_def unat_of_nat take_bit_nat_eq_self)
  have hdr: "h_block_id hdr = bid" "unat (h_k hdr) = k" and s: "shard_arrays s" and arr: "arrays_ok k (longest (bs ! i)) junk out"
    using a by (simp_all add: block_arrival_def bid_def)
  have iH: "unat (h_block_id hdr) \<le> H" using hdr bid i by simp
  have ok: "window_ok ws win" using ses by (simp add: session_def)
  obtain win1 c1 win2 d where ins: "rx_window_insert clk crypto ws hdr s (win, c) = (win1, c1)"
    and td: "rx_window_try_decode junk out ws bid k win1 = (dec, win2, pkts)"
    and adv: "rx_window_advance clk ws (win2, c1) = Some (win', c')"
    and ok1: "window_ok ws win1" and ses2: "session H ws win2" and mv: "moved ws d win2 win'" and nn: "none_newer ws win'"
    and ses3: "session H ws win'" and d: "d \<le> H + 1 - unat (rw_base_id win2)"
    by (rule on_shard_total[OF ses H s iH, of clk crypto c junk out]) (use on hdr in auto)
  have ok2: "window_ok ws win2" and ok3: "window_ok ws win'" using ses2 ses3 by (simp_all add: session_def)
  have il: "unat (h_block_id hdr) < length bs" using hdr bid i by simp
  note in1 = insert_sent[OF h il _ insert_refines[OF ok s ins], unfolded hdr bid, OF a]
  have il': "unat bid < length bs" using bid i by simp
  note td1 = try_decode_sent[OF in1(1) il' k _ _ try_decode_refines[OF ok1 td], unfolded bid, OF r arr]
  note av = advance_refines_1[OF adv, simplified, OF ok2]
  note se = map_advance_settles[OF conjunct1[OF av], simplified]
  have b2: "rw_base_id win2 = rw_base_id win" using in1(2) td1(2) by simp
  note b3 = moved_steps[OF mv ses2 H d]
  show "session H ws win'" by (rule ses3)
  show "holds_sent k bs (map_of_window ws win')" using holds_sent_less[OF td1(1), of "map_of_window ws win'"] se(2) by simp
  show "unat (rw_base_id win) \<le> unat (rw_base_id win')" using b3 b2 by simp
  show "pkts = [] \<or> pkts = written k (bs ! i) \<and> unat (rw_base_id win) \<le> i \<and> i < unat (rw_base_id win')"
  proof (cases dec)
    case True
    note t = td1(4)[OF True]
    have ah: "ahead win2 bid = int i - int (unat (rw_base_id win2))"
      using session_ahead[OF ses2 H, of bid] bid iH hdr by simp
    have "0 \<le> ahead win1 bid" using t by (simp add: in_reach_def)
    then have "0 \<le> ahead win2 bid" using td1(2) by (simp add: ahead_def)
    then have lo: "unat (rw_base_id win) \<le> i" using ah(1) b2 by (simp del: of_nat_unat)
    obtain b where b: "stored ws win2 bid = Some b" "rb_decoded b" using t by auto
    have "i < unat (rw_base_id win')" using decoded_block_passed[OF ses2 ses3 H d mv nn se(1) b] bid by simp
    then show ?thesis using t lo by simp
  qed (use td1(3) in simp)
qed

section \<open>A pass of the loop, seen from the window\<close>

text \<open>What the steps other than the receiver's leave alone.\<close>

definition rx_part :: "gateway \<Rightarrow> rx_window \<times> bytes list \<times> crypto_ctx \<times> transport_ctx \<times> int" where
  "rx_part g = (gw_window g, gw_written g, gw_crypto g, gw_tctx g, cfg_window_size (gw_cfg g))"

lemma flush_rx: "flush_and_renew w p g = Some g' \<Longrightarrow> rx_part g' = rx_part g"
  by (auto simp: flush_and_renew_def rx_part_def split: Option.bind_splits)

lemma tun_packet_rx: "on_tun_packet w p rfds g = Some g' \<Longrightarrow> rx_part g' = rx_part g"
  by (auto simp: on_tun_packet_def Let_def rx_part_def split: if_splits prod.splits dest!: flush_rx[unfolded rx_part_def])

lemma block_timeout_rx: "on_block_timeout w p g = Some g' \<Longrightarrow> rx_part g' = rx_part g"
  by (auto simp: on_block_timeout_def Let_def rx_part_def split: if_splits dest!: flush_rx[unfolded rx_part_def])

lemma metrics_rx: "on_metrics p rfds g = Some g' \<Longrightarrow> rx_part g' = rx_part g"
  by (auto simp: on_metrics_def Let_def rx_part_def split: if_splits Option.bind_splits)

lemma probe_timer_rx: "on_probe_timer w g = Some g' \<Longrightarrow> rx_part g' = rx_part g"
  by (auto simp: on_probe_timer_def Let_def rx_part_def split: if_splits)

lemma reload_rx: "do_reload files g = Some g' \<Longrightarrow> rx_part g' = rx_part g"
  by (auto simp: do_reload_def Let_def rx_part_def split: load_result.splits Option.bind_splits)

lemma deliver_rx: "rx_part (fold deliver sigs g) = rx_part g"
proof (induction sigs arbitrary: g)
  case (Cons sig sigs)
  have "rx_part (deliver sig g) = rx_part g" by (simp add: deliver_def sig_handler_def sighup_handler_def rx_part_def)
  then show ?case using Cons by simp
qed simp

text \<open>The window and the packets written change with a data shard only.\<close>

definition hears :: "world \<Rightarrow> poll \<Rightarrow> gateway \<Rightarrow> gateway \<Rightarrow> bool" where
  "hears w p g g' \<longleftrightarrow> (\<exists>m sender hdr s path c dec c' pkts. po_dgram p = Some (m, sender) \<and>
     transport_recv (gw_tctx g) (Some (m, sender)) (po_shard p) = Recv_data hdr s path \<and>
     rx_on_shard (\<lambda>i. now_us (w_time w i)) (gw_crypto g) (po_gj p) (po_decoded p) (window_size g) hdr s (gw_window g, c) =
       Some (dec, gw_window g', c', pkts) \<and>
     gw_written g' = gw_written g @ pkts)"

lemma datagram_rx:
  assumes "on_datagram w p rfds g = Some g'"
  shows "rx_part g' = rx_part g \<or> hears w p g g' \<and> snd (snd (rx_part g')) = snd (snd (rx_part g))"
proof (cases "transport_recv (gw_tctx g) (if tc_recv_fd (gw_tctx g) \<in> rfds then po_dgram p else None) (po_shard p)")
  case Recv_none
  then show ?thesis using assms by (simp add: on_datagram_def)
next
  case (Recv_data hdr s path)
  show ?thesis
  proof (cases "gw_is_rx g")
    case True
    obtain dec win c' pkts where o: "rx_on_shard (\<lambda>i. now_us (w_time w i)) (gw_crypto g) (po_gj p) (po_decoded p) (window_size g) hdr s
        (gw_window g, gw_clock g) = Some (dec, win, c', pkts)"
      using assms Recv_data True by (auto simp: on_datagram_def on_data_def window_size_def split: option.splits if_splits)
    obtain m sender where d: "po_dgram p = Some (m, sender)" "tc_recv_fd (gw_tctx g) \<in> rfds"
      using Recv_data by (cases "po_dgram p") (auto simp: transport_recv_def split: if_splits)
    have "gw_window g' = win \<and> gw_written g' = gw_written g @ pkts \<and> snd (snd (rx_part g')) = snd (snd (rx_part g))"
      using assms Recv_data True o by (auto simp: on_datagram_def on_data_def window_size_def Let_def rx_part_def split: if_splits)
    then show ?thesis using o d Recv_data unfolding hears_def by auto
  qed (use assms Recv_data in \<open>simp add: on_datagram_def\<close>)
next
  case Recv_overrun
  then show ?thesis using assms by (simp add: on_datagram_def)
next
  case (Recv_probe path ts)
  then show ?thesis using assms by (auto simp: on_datagram_def rx_part_def split: prod.splits if_splits)
next
  case (Recv_probe_echo path ts)
  then show ?thesis using assms by (auto simp: on_datagram_def rx_part_def Let_def split: if_splits Option.bind_splits)
qed

lemma hears_cong: "rx_part g = rx_part h \<Longrightarrow> rx_part g' = rx_part h' \<Longrightarrow> hears w p g g' = hears w p h h'"
  by (simp add: hears_def rx_part_def window_size_def)

lemma serve_rx:
  assumes "serve w p rfds g = Some g'"
  shows "rx_part g' = rx_part g \<or> hears w p g g' \<and> snd (snd (rx_part g')) = snd (snd (rx_part g))"
proof -
  obtain g1 g2 g3 g4 where s: "on_tun_packet w p rfds g = Some g1" "on_block_timeout w p g1 = Some g2"
    "on_datagram w p rfds g2 = Some g3" "on_metrics p rfds g3 = Some g4" "on_probe_timer w g4 = Some g'"
    using assms by (auto simp: serve_def split: Option.bind_splits)
  have a: "rx_part g2 = rx_part g" using tun_packet_rx[OF s(1)] block_timeout_rx[OF s(2)] by simp
  have b: "rx_part g' = rx_part g3" using metrics_rx[OF s(4)] probe_timer_rx[OF s(5)] by simp
  show ?thesis using datagram_rx[OF s(3)] hears_cong[OF a b[symmetric]] a b by auto
qed

lemma loop_body_rx:
  assumes "loop_body w p g = Some g'"
  shows "rx_part g' = rx_part g \<or> hears w p g g' \<and> snd (snd (rx_part g')) = snd (snd (rx_part g))"
proof -
  let ?g = "fold deliver (po_during p) g"
  note d = deliver_rx[of "po_during p" g]
  show ?thesis
    using assms serve_rx[of w p "po_ready p \<inter> fst (watched g)" ?g g'] reload_rx[of "po_files p" ?g g'] d hears_cong[OF d refl, of w p]
    by (auto simp: loop_body_def Let_def split: if_splits)
qed

lemma stop_rx: "gateway_stop w p g = Some (g', fds) \<Longrightarrow> rx_part g' = rx_part g"
  by (auto simp: gateway_stop_def rx_part_def split: if_splits Option.bind_splits)

section \<open>Two gateways and a network\<close>

text \<open>A gateway, whether it is still up, and the packets it has read so far.\<close>

record endpoint =
  ep_gateway :: gateway
  ep_up :: bool
  ep_read :: "bytes list"

definition sent_by :: "endpoint \<Rightarrow> bytes set" where
  "sent_by e = d_bytes ` set (ts_sent (gw_out (ep_gateway e)))"

text \<open>
  What one gateway may do next to the other: a pass of the loop, in which the datagram, if there is one, is any
  that the other has sent so far, or the end of the program after the loop. Sessions have at most \<open>H + 1\<close> packets.
\<close>

inductive acts :: "world \<Rightarrow> nat \<Rightarrow> endpoint \<Rightarrow> endpoint \<Rightarrow> endpoint \<Rightarrow> bool" for w H other where
  pass: "acts w H other e (e\<lparr>ep_gateway := g, ep_read := ep_read e @ packets_read w [p] (ep_gateway e)\<rparr>)"
    if "ep_up e" "event_loop w [p] (ep_gateway e) = Some g"
      "poll_ok False H (gw_config_path (ep_gateway e)) p" "env_ok (env_of p)"
      "\<And>m sender. po_dgram p = Some (m, sender) \<Longrightarrow> m \<in> sent_by other"
      "length (ep_read e @ packets_read w [p] (ep_gateway e)) \<le> H + 1"
| stop: "acts w H other e (e\<lparr>ep_gateway := g, ep_up := False\<rparr>)"
    if "ep_up e" "\<not> gw_running (ep_gateway e)" "gateway_stop w p (ep_gateway e) = Some (g, fds)"
      "poll_ok False H (gw_config_path (ep_gateway e)) p"

inductive tunnel_step :: "world \<times> world \<Rightarrow> nat \<Rightarrow> endpoint \<times> endpoint \<Rightarrow> endpoint \<times> endpoint \<Rightarrow> bool" for ws H where
  left: "tunnel_step ws H (a, b) (a', b)" if "acts (fst ws) H b a a'"
| right: "tunnel_step ws H (a, b) (a, b')" if "acts (snd ws) H a b b'"

definition started :: "gateway \<Rightarrow> endpoint" where
  "started g = \<lparr>ep_gateway = g, ep_up = True, ep_read = []\<rparr>"

section \<open>The channel\<close>

text \<open>The promise: blocks of at most \<open>k\<close> packets go in; a block comes out whole, or not at all, and after
  it none of those that went in before.\<close>

record channel =
  ch_blocks :: "bytes list list"
  ch_next :: nat
  ch_out :: "bytes list"

inductive channel_step :: "nat \<Rightarrow> channel \<Rightarrow> channel \<Rightarrow> bool" for k where
  put_in: "channel_step k c (c\<lparr>ch_blocks := ch_blocks c @ [ps]\<rparr>)" if "ps \<noteq> []" "length ps \<le> k"
| take_out: "channel_step k c (c\<lparr>ch_next := i + 1, ch_out := ch_out c @ written k (ch_blocks c ! i)\<rparr>)"
    if "ch_next c \<le> i" "i < length (ch_blocks c)"

abbreviation channel_steps :: "nat \<Rightarrow> channel \<Rightarrow> channel \<Rightarrow> bool" where
  "channel_steps k \<equiv> (channel_step k)\<^sup>*\<^sup>*"

definition no_blocks :: channel where
  "no_blocks = \<lparr>ch_blocks = [], ch_next = 0, ch_out = []\<rparr>"

lemma put_all_in:
  assumes "\<forall>b \<in> set new. b \<noteq> [] \<and> length b \<le> k"
  shows "channel_steps k c (c\<lparr>ch_blocks := ch_blocks c @ new\<rparr>)"
  using assms
proof (induction new rule: rev_induct)
  case (snoc ps new)
  then have "channel_steps k c (c\<lparr>ch_blocks := ch_blocks c @ new\<rparr>)" by simp
  moreover have "channel_step k (c\<lparr>ch_blocks := ch_blocks c @ new\<rparr>) (c\<lparr>ch_blocks := ch_blocks c @ new @ [ps]\<rparr>)"
    using put_in[of ps k "c\<lparr>ch_blocks := ch_blocks c @ new\<rparr>"] snoc.prems by simp
  ultimately show ?case by (rule rtranclp.rtrancl_into_rtrancl)
qed simp

text \<open>In order and at most once: what came out are blocks with increasing numbers.\<close>

definition in_order :: "nat \<Rightarrow> channel \<Rightarrow> bool" where
  "in_order k c \<longleftrightarrow> (\<exists>js. sorted_wrt (<) js \<and> (\<forall>j \<in> set js. j < ch_next c \<and> j < length (ch_blocks c)) \<and>
     ch_out c = concat (map (\<lambda>j. written k (ch_blocks c ! j)) js))"

lemma channel_in_order:
  assumes "channel_steps k no_blocks c"
  shows "in_order k c"
  using assms
proof induction
  case base
  show ?case by (auto simp: in_order_def no_blocks_def intro!: exI[of _ "[]"])
next
  case (step c c')
  then obtain js where js: "sorted_wrt (<) js" "\<forall>j \<in> set js. j < ch_next c \<and> j < length (ch_blocks c)"
    "ch_out c = concat (map (\<lambda>j. written k (ch_blocks c ! j)) js)" by (auto simp: in_order_def)
  from step(2) show ?case
  proof cases
    case (put_in ps)
    have "concat (map (\<lambda>j. written k (ch_blocks c ! j)) js) = concat (map (\<lambda>j. written k ((ch_blocks c @ [ps]) ! j)) js)"
      using js(2) by (intro arg_cong[where f = concat] map_cong) (auto simp: nth_append)
    then show ?thesis unfolding in_order_def using js put_in by (intro exI[of _ js]) auto
  next
    case (take_out i)
    then show ?thesis unfolding in_order_def using js by (intro exI[of _ "js @ [i]"]) (auto simp: sorted_wrt_append)
  qed
qed

section \<open>The tunnel implements two channels\<close>

definition sending :: "nat \<Rightarrow> crypto_ctx \<Rightarrow> nat \<Rightarrow> bytes list list \<Rightarrow> endpoint \<Rightarrow> bool" where
  "sending H crypto k bs e \<longleftrightarrow> gw_crypto (ep_gateway e) = crypto \<and> nat (cfg_k (gw_cfg (ep_gateway e))) = k \<and> 1 \<le> k \<and> k \<le> MAX_K \<and>
     length (ep_read e) \<le> H + 1 \<and> (\<forall>b \<in> set bs. b \<noteq> [] \<and> length b \<le> k) \<and>
     blocks_out False False crypto k bs (filter is_data (ts_sent (gw_out (ep_gateway e)))) \<and>
     (if ep_up e then good False False H bs (ep_read e) (ep_gateway e) else ep_read e = concat bs)"

definition hearing :: "nat \<Rightarrow> nat \<Rightarrow> channel \<Rightarrow> endpoint \<Rightarrow> bool" where
  "hearing H k c e \<longleftrightarrow> (let g = ep_gateway e in
     session H (window_size g) (gw_window g) \<and> holds_sent k (ch_blocks c) (map_of_window (window_size g) (gw_window g)) \<and>
     ch_next c \<le> unat (rw_base_id (gw_window g)) \<and> ch_out c = gw_written g)"

text \<open>The channel from \<open>a\<close> to \<open>b\<close>: its blocks are those \<open>a\<close> has cut its packets into, and \<open>b\<close> has written what came out.\<close>

definition implements :: "nat \<Rightarrow> crypto_ctx \<Rightarrow> nat \<Rightarrow> channel \<Rightarrow> endpoint \<Rightarrow> endpoint \<Rightarrow> bool" where
  "implements H crypto k c a b \<longleftrightarrow> sending H crypto k (ch_blocks c) a \<and> hearing H k c b"

lemma good_sends:
  assumes "good f q H bs rd g"
  shows "\<forall>b \<in> set bs. b \<noteq> [] \<and> length b \<le> nat (cfg_k (gw_cfg g))"
    "blocks_out f q (gw_crypto g) (nat (cfg_k (gw_cfg g))) bs (filter is_data (ts_sent (gw_out g)))"
    "\<exists>pend. rd = concat bs @ pend \<and> length pend < nat (cfg_k (gw_cfg g))"
  using assms by (auto simp: good_def sends_def)

lemma sending_blocks:
  assumes "sending H crypto k bs e"
  shows "length bs \<le> H + 1"
proof -
  have "\<exists>pend. ep_read e = concat bs @ pend"
    using assms good_sends(3)[of False False H bs "ep_read e" "ep_gateway e"] by (auto simp: sending_def split: if_splits)
  moreover have "length bs \<le> length (concat bs)" using assms by (intro blocks_few) (auto simp: sending_def)
  ultimately show ?thesis using assms by (auto simp: sending_def)
qed

lemma hearing_more: "hearing H k c e \<Longrightarrow> hearing H k (c\<lparr>ch_blocks := ch_blocks c @ new\<rparr>) e"
  by (simp add: hearing_def Let_def holds_sent_more)

lemma hearing_rx:
  assumes "hearing H k c e" "rx_part (ep_gateway e') = rx_part (ep_gateway e)"
  shows "hearing H k c e'"
  using assms by (simp add: hearing_def Let_def rx_part_def window_size_def)

lemma pass_rx:
  assumes "event_loop w [p] g = Some g'"
  shows "rx_part g' = rx_part g \<or> hears w p g g' \<and> snd (snd (rx_part g')) = snd (snd (rx_part g))"
proof -
  let ?g = "fold deliver (po_before p) g"
  note d = deliver_rx[of "po_before p" g]
  have "g' = ?g \<or> loop_body w p ?g = Some g'" using assms by (auto simp: Let_def split: if_splits option.splits)
  then show ?thesis using loop_body_rx[of w p ?g g'] d hears_cong[OF d refl, of w p] by auto
qed

lemma recv_data_type:
  assumes "transport_recv ctx (Some (b, sender)) junk = Recv_data h s path"
  shows "h_type (parse_header b) = TYPE_DATA"
proof -
  have r: "recv_frame ctx (take RECV_BUF b) sender junk = Recv_data h s path" using assms by (simp add: recv_eq_frame)
  note f = recv_frame_data(1,2,4)[OF r]
  have "14 \<le> length b" "(14 :: nat) \<le> RECV_BUF" using f(1) by (simp_all add: RECV_BUF_eq)
  then show ?thesis using f(2,3) by (simp add: parse_header_take)
qed

text \<open>What is heard comes out of the channel.\<close>

lemma hears_channel:
  assumes a: "hearing H k c e" and b: "sending H crypto k (ch_blocks c) other" and H: "H < 2 ^ 30"
    and key: "gw_crypto (ep_gateway e) = crypto" and env: "env_ok (env_of p)"
    and m: "\<And>m sender. po_dgram p = Some (m, sender) \<Longrightarrow> m \<in> sent_by other"
    and h: "hears w p (ep_gateway e) g'" and ws: "cfg_window_size (gw_cfg g') = cfg_window_size (gw_cfg (ep_gateway e))"
  obtains c' where "channel_steps k c c'" "hearing H k c' (e\<lparr>ep_gateway := g', ep_read := rd\<rparr>)" "ch_blocks c' = ch_blocks c"
proof -
  let ?g = "ep_gateway e"
  obtain msg sender hdr s path cl dec cl' pkts where d: "po_dgram p = Some (msg, sender)"
    and rv: "transport_recv (gw_tctx ?g) (Some (msg, sender)) (po_shard p) = Recv_data hdr s path"
    and on: "rx_on_shard (\<lambda>i. now_us (w_time w i)) crypto (po_gj p) (po_decoded p) (window_size ?g) hdr s (gw_window ?g, cl) =
      Some (dec, gw_window g', cl', pkts)" and wr: "gw_written g' = gw_written ?g @ pkts"
    using h key unfolding hears_def by auto
  obtain dg where dg: "dg \<in> set (ts_sent (gw_out (ep_gateway other)))" "d_bytes dg = msg" using m[OF d] by (auto simp: sent_by_def)
  have isd: "is_data dg" using recv_data_type[OF rv] dg(2) by (simp add: is_data_def)
  have out: "blocks_out False False crypto k (ch_blocks c) (filter is_data (ts_sent (gw_out (ep_gateway other))))" and k: "1 \<le> k" "k \<le> MAX_K"
    using b by (simp_all add: sending_def)
  obtain i j arr where i: "i < length (ch_blocks c)" and arr: "arrival_of (gw_tctx ?g) (env_of p) (d_bytes dg) = Some arr"
    "shard_arrival crypto k (ch_blocks c ! i) (of_nat i) arr j"
    and r: "rows k (longest (ch_blocks c ! i)) (ch_blocks c ! i) (block_rows k (ch_blocks c ! i))"
    by (rule sent_arrives[OF out k(2) dg(1) isd env]) blast
  have "arr = (po_gj p, po_decoded p, hdr, s)" using arr(1) rv d dg(2) by (simp add: arrival_of_def env_of_def)
  note a2 = arr(2)[unfolded this]
  have hr: "session H (window_size ?g) (gw_window ?g)" "holds_sent k (ch_blocks c) (map_of_window (window_size ?g) (gw_window ?g))"
    "ch_next c \<le> unat (rw_base_id (gw_window ?g))" "ch_out c = gw_written ?g" using a by (simp_all add: hearing_def Let_def)
  have wsz: "window_size g' = window_size ?g" using ws by (simp add: window_size_def)
  note st = receiver_step[OF hr(1) H hr(2) i sending_blocks[OF b] k r a2 on]
  show thesis
  proof (cases "pkts = []")
    case True
    show thesis by (rule that[of c]) (use st(1-3) hr(3,4) wr wsz True in \<open>simp_all add: hearing_def Let_def\<close>)
  next
    case False
    then have p: "pkts = written k (ch_blocks c ! i)" "unat (rw_base_id (gw_window ?g)) \<le> i" "i < unat (rw_base_id (gw_window g'))" using st(4) by simp_all
    let ?c = "c\<lparr>ch_next := i + 1, ch_out := ch_out c @ written k (ch_blocks c ! i)\<rparr>"
    have "channel_step k c ?c" using take_out hr(3) p(2) i by (meson order_trans)
    then have "channel_steps k c ?c" by blast
    then show thesis
      by (rule that) (use st(1,2) p hr(4) wr wsz in \<open>simp_all add: hearing_def Let_def\<close>)
  qed
qed

text \<open>One endpoint acts: it hears from the one channel and sends into the other.\<close>

lemma acts_implements:
  assumes act: "acts w H other e e'" and H: "H < 2 ^ 30"
    and out: "sending H crypto k (ch_blocks c) e" and inn: "hearing H k' d e" "sending H crypto k' (ch_blocks d) other"
    and other: "hearing H k c other"
  obtains c' d' where "channel_steps k c c'" "channel_steps k' d d'" "implements H crypto k c' e' other" "implements H crypto k' d' other e'"
  using act
proof cases
  case (pass p g)
  let ?g = "ep_gateway e"
  have key: "gw_crypto ?g = crypto" "nat (cfg_k (gw_cfg ?g)) = k" and gd: "good False False H (ch_blocks c) (ep_read e) ?g"
    using out pass(2) by (simp_all add: sending_def)
  obtain new where gd': "good False False H (ch_blocks c @ new) (ep_read e @ packets_read w [p] ?g) g" "fixed g = fixed ?g"
    using event_loop_good[OF gd _ H, of "[p]" w] pass(3,4) by auto
  note gs = good_sends[OF gd'(1)]
  let ?c = "c\<lparr>ch_blocks := ch_blocks c @ new\<rparr>"
  have same: "gw_crypto g = crypto" "nat (cfg_k (gw_cfg g)) = k" using gd'(2) key by simp_all
  have s': "sending H crypto k (ch_blocks ?c) e'"
    using out pass(2,7) gs(1,2) gd'(1) same by (simp add: sending_def pass(1))
  have "channel_steps k c ?c" by (rule put_all_in) (use gs(1) same in simp)
  moreover have "implements H crypto k ?c e' other" using s' hearing_more[OF other, of new] by (simp add: implements_def)
  moreover obtain d' where "channel_steps k' d d'" "implements H crypto k' d' other e'"
    using pass_rx[OF pass(3)]
  proof
    assume "rx_part g = rx_part ?g"
    then have "hearing H k' d e'" using hearing_rx[OF inn(1), of e'] pass(1) by simp
    then show thesis using that[of d] inn(2) by (simp add: implements_def)
  next
    assume h: "hears w p ?g g \<and> snd (snd (rx_part g)) = snd (snd (rx_part ?g))"
    then have "cfg_window_size (gw_cfg g) = cfg_window_size (gw_cfg ?g)" by (simp add: rx_part_def)
    then obtain d' where "channel_steps k' d d'" "ch_blocks d' = ch_blocks d"
      "hearing H k' d' (e\<lparr>ep_gateway := g, ep_read := ep_read e @ packets_read w [p] ?g\<rparr>)"
      using hears_channel[OF inn H key(1) pass(5) _ conjunct1[OF h]] pass(6) by metis
    then show thesis using that[of d'] inn(2) pass(1) by (simp add: implements_def)
  qed
  ultimately show thesis using that by blast
next
  case (stop p g fds)
  let ?g = "ep_gateway e"
  have key: "gw_crypto ?g = crypto" "nat (cfg_k (gw_cfg ?g)) = k" and gd: "good False False H (ch_blocks c) (ep_read e) ?g"
    using out stop(2) by (simp_all add: sending_def)
  obtain new where st: "ep_read e = concat (ch_blocks c @ new)" "\<forall>b \<in> set (ch_blocks c @ new). b \<noteq> [] \<and> length b \<le> k"
    "blocks_out False False crypto k (ch_blocks c @ new) (filter is_data (ts_sent (gw_out g)))" "gw_cfg g = gw_cfg ?g" "gw_crypto g = gw_crypto ?g"
    by (rule stop_good[OF gd stop(5), of w]) (use stop(4) key in auto)
  let ?c = "c\<lparr>ch_blocks := ch_blocks c @ new\<rparr>"
  have "sending H crypto k (ch_blocks ?c) e'" using out st by (simp add: sending_def stop(1))
  then have "implements H crypto k ?c e' other" using hearing_more[OF other, of new] by (simp add: implements_def)
  moreover have "channel_steps k c ?c" by (rule put_all_in) (use st(2) in simp)
  moreover have "implements H crypto k' d other e'"
    using hearing_rx[OF inn(1), of e'] stop_rx[OF stop(4)] stop(1) inn(2) by (simp add: implements_def)
  ultimately show thesis using that by blast
qed

text \<open>The simulation.\<close>

definition both_implement :: "nat \<Rightarrow> crypto_ctx \<Rightarrow> nat \<Rightarrow> nat \<Rightarrow> endpoint \<times> endpoint \<Rightarrow> channel \<times> channel \<Rightarrow> bool" where
  "both_implement H crypto ka kb s cs \<longleftrightarrow>
     implements H crypto ka (fst cs) (fst s) (snd s) \<and> implements H crypto kb (snd cs) (snd s) (fst s)"

text \<open>The two channels side by side.\<close>

inductive channels_step :: "nat \<Rightarrow> nat \<Rightarrow> channel \<times> channel \<Rightarrow> channel \<times> channel \<Rightarrow> bool" for ka kb where
  first: "channels_step ka kb (c, d) (c', d)" if "channel_step ka c c'"
| second: "channels_step ka kb (c, d) (c, d')" if "channel_step kb d d'"

inductive_cases channels_stepE: "channels_step ka kb (c, d) cs'"

lemma channels_both:
  assumes "channel_steps ka c c'" "channel_steps kb d d'"
  shows "(channels_step ka kb)\<^sup>*\<^sup>* (c, d) (c', d')"
proof -
  have "(channels_step ka kb)\<^sup>*\<^sup>* (c, d) (c', d)" using assms(1) by induction (auto intro: first rtranclp.rtrancl_into_rtrancl)
  moreover have "(channels_step ka kb)\<^sup>*\<^sup>* (c', d) (c', d')" using assms(2) by induction (auto intro: second rtranclp.rtrancl_into_rtrancl)
  ultimately show ?thesis by simp
qed

lemma channels_each:
  assumes "(channels_step ka kb)\<^sup>*\<^sup>* cs cs'"
  shows "channel_steps ka (fst cs) (fst cs') \<and> channel_steps kb (snd cs) (snd cs')"
  using assms by induction (auto elim!: channels_step.cases intro: rtranclp.rtrancl_into_rtrancl)

interpretation tunnel: simulation "tunnel_step ws H" "channels_step ka kb"
  "\<lambda>s cs. H < 2 ^ 30 \<and> both_implement H crypto ka kb s cs" for ws H ka kb crypto
proof
  fix s s' cs
  assume step: "tunnel_step ws H s s'" and r: "H < 2 ^ 30 \<and> both_implement H crypto ka kb s cs"
  then have H: "H < 2 ^ 30" and i: "implements H crypto ka (fst cs) (fst s) (snd s)" "implements H crypto kb (snd cs) (snd s) (fst s)"
    by (simp_all add: both_implement_def)
  have "\<exists>c' d'. channel_steps ka (fst cs) c' \<and> channel_steps kb (snd cs) d' \<and> both_implement H crypto ka kb s' (c', d')"
    using step
  proof cases
    case (left b a a')
    obtain c' d' where "channel_steps ka (fst cs) c'" "channel_steps kb (snd cs) d'" "implements H crypto ka c' a' b" "implements H crypto kb d' b a'"
      using i left(1) by (auto simp: implements_def intro: acts_implements[OF left(3) H])
    then show ?thesis using left(2) by (auto simp: both_implement_def)
  next
    case (right a b b')
    obtain d' c' where "channel_steps kb (snd cs) d'" "channel_steps ka (fst cs) c'" "implements H crypto kb d' b' a" "implements H crypto ka c' a b'"
      using i right(1) by (auto simp: implements_def intro: acts_implements[OF right(3) H])
    then show ?thesis using right(2) by (auto simp: both_implement_def)
  qed
  then show "\<exists>cs'. (channels_step ka kb)\<^sup>*\<^sup>* cs cs' \<and> H < 2 ^ 30 \<and> both_implement H crypto ka kb s' cs'"
    using H channels_both[of ka "fst cs" _ kb "snd cs"] by auto
qed

section \<open>Properties\<close>

lemma started_sending:
  assumes "gateway_start w h (prog # opt # path # args) = Starts g" "start_ok (ho_files h path)"
  shows "sending H (gw_crypto g) (nat (cfg_k (gw_cfg g))) [] (started g)"
proof -
  have g: "good False False H [] [] g" by (rule started_good(1)[OF assms]) simp
  have c: "config_ok (gw_cfg g)" using good_healthy[OF g] by (simp add: healthy_def)
  show ?thesis using config_k(1,2)[OF c] good_sends(2)[OF g] g by (simp add: sending_def started_def)
qed

lemma started_hearing:
  assumes "gateway_start w h (prog # opt # path # args) = Starts g" "start_ok (ho_files h path)"
  shows "hearing H k no_blocks (started g)"
proof -
  have g: "good False False H [] [] g" by (rule started_good(1)[OF assms]) simp
  have s: "session H (window_size g) (gw_window g)" using good_healthy[OF g] by (simp add: healthy_def)
  then have "window_size g \<le> MAX_WINDOW" by (simp add: session_def window_ok_def)
  then show ?thesis
    using s started_receiver(1,2)[OF assms(1)] by (simp add: hearing_def Let_def started_def no_blocks_def holds_sent_def map_of_init)
qed

lemma started_implement:
  assumes "gateway_start wa ha (proga # opta # patha # argsa) = Starts a" "start_ok (ho_files ha patha)"
    and "gateway_start wb hb (progb # optb # pathb # argsb) = Starts b" "start_ok (ho_files hb pathb)" and "gw_crypto b = gw_crypto a"
  shows "both_implement H (gw_crypto a) (nat (cfg_k (gw_cfg a))) (nat (cfg_k (gw_cfg b))) (started a, started b) (no_blocks, no_blocks)"
  using started_sending[OF assms(1,2)] started_sending[OF assms(3,4)] started_hearing[OF assms(1,2)] started_hearing[OF assms(3,4)] assms(5)
  by (simp add: both_implement_def implements_def) (simp add: no_blocks_def)

lemma sending_read:
  assumes "sending H crypto k bs e"
  obtains pend where "ep_read e = concat bs @ pend" "length pend < k" "ep_up e \<or> pend = []"
  using assms good_sends(3)[of False False H bs "ep_read e" "ep_gateway e"] by (cases "ep_up e") (auto simp: sending_def)

lemma blocks_out_rows:
  assumes "blocks_out f q crypto k bs ds" "b \<in> set bs"
  obtains L src where "rows k L b src"
proof -
  obtain dss where d: "list_all2 (\<lambda>(i, ps). block_of f q crypto k i ps) (enumerate 0 bs) dss" using assms(1) by (auto simp: blocks_out_def)
  obtain i where i: "i < length bs" "bs ! i = b" using assms(2) by (auto simp: in_set_conv_nth)
  have "block_of f q crypto k i b (dss ! i)" using list_all2_nthD[OF d, of i] i by (simp add: nth_enumerate_eq)
  then show thesis by (rule block_messages) (rule that)
qed

lemma demo_network:
  obtains a b a' where "gateway_start demo_world (demo_host demo_text_tx) [[], ''--config'', []] = Starts a"
    "gateway_start demo_world (demo_host demo_text_rx) [[], ''--config'', []] = Starts b" "gw_crypto b = gw_crypto a"
    "(tunnel_step (demo_world, demo_world) 5)\<^sup>*\<^sup>* (started a, started b) (a', started b)" "ep_read a' = [demo_packet]"
proof -
  obtain a where a: "gateway_start demo_world (demo_host demo_text_tx) [[], ''--config'', []] = Starts a"
    "gw_tun_fd a = 3" "gw_is_tx a" "gw_crypto a = crypto_init None" "gw_running a" "\<not> gw_reload a" by (rule demo_starts)
  obtain b where b: "gateway_start demo_world (demo_host demo_text_rx) [[], ''--config'', []] = Starts b" "gw_crypto b = crypto_init None"
    by (rule demo_listens)
  let ?p = "demo_poll 3 (Some demo_packet) None"
  note rd = demo_read[OF a(2,3,5,6), of demo_world]
  have good: "good False False 5 [] [] a" by (rule started_good(1)[OF a(1) demo_start_ok(1)]) simp
  obtain g where g: "event_loop demo_world [?p] a = Some g"
    using event_loop_good[OF good, of "[?p]" demo_world] demo_poll_ok by auto
  have env: "env_ok (env_of ?p)" by (simp add: env_ok_def env_of_def demo_poll_def demo_zero_def shard_arrays_def room_def)
  let ?a = "(started a)\<lparr>ep_gateway := g, ep_read := ep_read (started a) @ packets_read demo_world [?p] (ep_gateway (started a))\<rparr>"
  have read: "ep_read ?a = [demo_packet]" using rd by (simp add: started_def del: packets_read.simps)
  have "acts demo_world 5 (started b) (started a) ?a"
  proof (rule acts.pass)
    show "length (ep_read (started a) @ packets_read demo_world [?p] (ep_gateway (started a))) \<le> 5 + 1"
      using rd by (simp add: started_def del: packets_read.simps)
    show "m \<in> sent_by (started b)" if "po_dgram ?p = Some (m, sender)" for m sender using that by (simp add: demo_poll_def)
    show "event_loop demo_world [?p] (ep_gateway (started a)) = Some g" using g by (simp add: started_def del: event_loop.simps)
  qed (simp_all add: started_def demo_poll_ok env)
  then have "tunnel_step (demo_world, demo_world) 5 (started a, started b) (?a, started b)" by (intro tunnel_step.left) simp
  then have "(tunnel_step (demo_world, demo_world) 5)\<^sup>*\<^sup>* (started a, started b) (?a, started b)" by blast
  then show thesis using that[OF a(1) b(1)] a(4) b(2) read by metis
qed

text \<open>C2: Two gateways with the same key that read IP packets, in whatever modes, with a network between them that loses, delays,
  reorders and repeats the datagrams they send (and brings no forged ones), are two channels: every step of either gateway (reading a packet, a time-out, a
  datagram, a reload, a signal, the end) is a sequence of steps of the abstract channels. At every moment each
  gateway has cut what it has read into the blocks of its channel, up to less than \<open>k\<close> packets not yet in a block and
  none after its end, and what the other has written to its device is what came out of the channel.\<close>

theorem tunnel_implements_channels:
  assumes "gateway_start wa ha (proga # opta # patha # argsa) = Starts a" "start_ok (ho_files ha patha)"
    and "gateway_start wb hb (progb # optb # pathb # argsb) = Starts b" "start_ok (ho_files hb pathb)"
    and "gw_crypto b = gw_crypto a" "H < 2 ^ 30" "(tunnel_step (wa, wb) H)\<^sup>*\<^sup>* (started a, started b) (a', b')"
  shows "\<exists>c d pa pb. channel_steps (nat (cfg_k (gw_cfg a))) no_blocks c \<and> channel_steps (nat (cfg_k (gw_cfg b))) no_blocks d \<and>
    ch_out c = gw_written (ep_gateway b') \<and> ch_out d = gw_written (ep_gateway a') \<and>
    ep_read a' = concat (ch_blocks c) @ pa \<and> length pa < nat (cfg_k (gw_cfg a)) \<and> (ep_up a' \<or> pa = []) \<and>
    ep_read b' = concat (ch_blocks d) @ pb \<and> length pb < nat (cfg_k (gw_cfg b)) \<and> (ep_up b' \<or> pb = [])"
proof -
  obtain c d where s: "channel_steps (nat (cfg_k (gw_cfg a))) no_blocks c" "channel_steps (nat (cfg_k (gw_cfg b))) no_blocks d"
    and i: "both_implement H (gw_crypto a) (nat (cfg_k (gw_cfg a))) (nat (cfg_k (gw_cfg b))) (a', b') (c, d)"
    using tunnel.runs[OF assms(7) conjI[OF assms(6) started_implement[OF assms(1-5)]]] channels_each by fastforce
  have snd: "sending H (gw_crypto a) (nat (cfg_k (gw_cfg a))) (ch_blocks c) a'" "sending H (gw_crypto a) (nat (cfg_k (gw_cfg b))) (ch_blocks d) b'"
    and out: "ch_out c = gw_written (ep_gateway b')" "ch_out d = gw_written (ep_gateway a')"
    using i by (simp_all add: both_implement_def implements_def hearing_def Let_def)
  obtain pa where pa: "ep_read a' = concat (ch_blocks c) @ pa" "length pa < nat (cfg_k (gw_cfg a))" "ep_up a' \<or> pa = []"
    by (rule sending_read[OF snd(1)])
  obtain pb where pb: "ep_read b' = concat (ch_blocks d) @ pb" "length pb < nat (cfg_k (gw_cfg b))" "ep_up b' \<or> pb = []"
    by (rule sending_read[OF snd(2)])
  show ?thesis using s out pa pb by blast
qed

theorem tunnel_implements_channels_witness:
  "\<exists>a b a' c pa. (tunnel_step (demo_world, demo_world) 5)\<^sup>*\<^sup>* (started a, started b) (a', started b) \<and>
    channel_steps (nat (cfg_k (gw_cfg a))) no_blocks c \<and> ch_out c = [] \<and> [demo_packet] = concat (ch_blocks c) @ pa"
proof -
  obtain a b a' where d: "gateway_start demo_world (demo_host demo_text_tx) [[], ''--config'', []] = Starts a"
    "gateway_start demo_world (demo_host demo_text_rx) [[], ''--config'', []] = Starts b" "gw_crypto b = gw_crypto a"
    "(tunnel_step (demo_world, demo_world) 5)\<^sup>*\<^sup>* (started a, started b) (a', started b)" "ep_read a' = [demo_packet]"
    by (rule demo_network)
  have "gw_written (ep_gateway (started b)) = []" using started_receiver(2)[OF d(2)] by (simp add: started_def)
  then show ?thesis
    using tunnel_implements_channels[OF d(1) demo_start_ok(1) d(2) demo_start_ok(2) d(3) _ d(4)] d(4,5) by (simp, metis)
qed

text \<open>C3: With the same key at both gateways, IP packets as input and no forged datagrams, no packet is damaged, invented,
  doubled or out of order by the tunnel, whatever is lost, delayed, reordered or repeated: what a
  gateway has written to its device are packets the other has read, block by block with increasing block numbers
  (a block that was not filled is followed by packets of zeros).\<close>

theorem tunnel_keeps_order:
  assumes "gateway_start wa ha (proga # opta # patha # argsa) = Starts a" "start_ok (ho_files ha patha)"
    and "gateway_start wb hb (progb # optb # pathb # argsb) = Starts b" "start_ok (ho_files hb pathb)"
    and "gw_crypto b = gw_crypto a" "H < 2 ^ 30" "(tunnel_step (wa, wb) H)\<^sup>*\<^sup>* (started a, started b) (a', b')"
    and "\<forall>p \<in> set (ep_read a'). ip_packet p"
  shows "\<exists>bs pend js. ep_read a' = concat bs @ pend \<and> (\<forall>ps \<in> set bs. ps \<noteq> [] \<and> length ps \<le> nat (cfg_k (gw_cfg a))) \<and>
    sorted_wrt (<) js \<and> set js \<subseteq> {..<length bs} \<and>
    gw_written (ep_gateway b') = concat (map (\<lambda>j. delivered (nat (cfg_k (gw_cfg a))) (bs ! j)) js)"
proof -
  let ?k = "nat (cfg_k (gw_cfg a))"
  obtain c d where s: "channel_steps ?k no_blocks c"
    and i: "both_implement H (gw_crypto a) ?k (nat (cfg_k (gw_cfg b))) (a', b') (c, d)"
    using tunnel.runs[OF assms(7) conjI[OF assms(6) started_implement[OF assms(1-5)]]] channels_each by fastforce
  have snd: "sending H (gw_crypto a) ?k (ch_blocks c) a'" and out: "ch_out c = gw_written (ep_gateway b')"
    using i by (simp_all add: both_implement_def implements_def hearing_def Let_def)
  obtain pend where pend: "ep_read a' = concat (ch_blocks c) @ pend" by (rule sending_read[OF snd])
  have bs: "\<forall>b \<in> set (ch_blocks c). b \<noteq> [] \<and> length b \<le> ?k"
    "blocks_out False False (gw_crypto a) ?k (ch_blocks c) (filter is_data (ts_sent (gw_out (ep_gateway a'))))"
    using snd by (simp_all add: sending_def)
  have del: "written ?k b = delivered ?k b" if b: "b \<in> set (ch_blocks c)" for b
  proof -
    obtain L src where "rows ?k L b src" by (rule blocks_out_rows[OF bs(2) b])
    then show ?thesis using assms(8) bs(1) b pend by (intro written_delivered) auto
  qed
  obtain js where js: "sorted_wrt (<) js" "\<forall>j \<in> set js. j < ch_next c \<and> j < length (ch_blocks c)"
    "ch_out c = concat (map (\<lambda>j. written ?k (ch_blocks c ! j)) js)" using channel_in_order[OF s] by (auto simp: in_order_def)
  have "concat (map (\<lambda>j. written ?k (ch_blocks c ! j)) js) = concat (map (\<lambda>j. delivered ?k (ch_blocks c ! j)) js)"
    using js(2) del by (intro arg_cong[where f = concat] map_cong) auto
  then show ?thesis using pend bs(1) js out by (intro exI[of _ "ch_blocks c"] exI[of _ pend] exI[of _ js]) auto
qed

theorem tunnel_keeps_order_witness:
  "\<exists>a b a' bs pend js. (tunnel_step (demo_world, demo_world) 5)\<^sup>*\<^sup>* (started a, started b) (a', started b) \<and>
    [demo_packet] = concat bs @ pend \<and> sorted_wrt (<) js \<and> set js \<subseteq> {..<length bs} \<and>
    gw_written (ep_gateway (started b)) = concat (map (\<lambda>j. delivered (nat (cfg_k (gw_cfg a))) (bs ! j)) js)"
proof -
  obtain a b a' where d: "gateway_start demo_world (demo_host demo_text_tx) [[], ''--config'', []] = Starts a"
    "gateway_start demo_world (demo_host demo_text_rx) [[], ''--config'', []] = Starts b" "gw_crypto b = gw_crypto a"
    "(tunnel_step (demo_world, demo_world) 5)\<^sup>*\<^sup>* (started a, started b) (a', started b)" "ep_read a' = [demo_packet]"
    by (rule demo_network)
  show ?thesis
    using tunnel_keeps_order[OF d(1) demo_start_ok(1) d(2) demo_start_ok(2) d(3) _ d(4)] d(4,5) demo_ip by (simp, metis)
qed

end
