(* ===== verification/Program.thy ===== *)
theory Program
  imports Tunnel
begin

text \<open>
  Properties of the program as a whole: it is always defined, what a failed start leaves behind, what
  the loop hands to \<open>select\<close>, how long a packet waits in the block, how probes are counted, that no loss is ever
  measured, and what the program makes of comments behind values.
\<close>

section \<open>Start-up\<close>

lemma tun_open_dev: "0 \<le> fst (tun_open os name) \<Longrightarrow> fst (tun_open os name) = ot_dev os \<and> 0 \<le> ot_dev os"
  by (auto simp: tun_open_def Let_def split: if_splits)

lemma start_config_exits:
  assumes "start_config w h path cfg = Exits fds" "init_crypto cfg = Some crypto" "0 \<le> fst (tun_open (ho_tun h) (cfg_tun_name cfg))"
  shows "fds = [ot_dev (ho_tun h)] \<or>
    (\<exists>tctx. \<not> ho_memory h \<and> transport_init (ho_sockets h) cfg (word_of_int (cfg_listen_port cfg)) = Some tctx \<and>
       fds = transport_free tctx @ [ot_dev (ho_tun h)])"
  using assms tun_open_dev[OF assms(3)]
  by (auto simp: start_config_def Let_def split: option.splits if_splits prod.splits)

text \<open>A gateway that starts has its device configured and then the rules and routes set, with the commands of
  \<open>tun_apply_forward\<close>, whatever becomes of these.\<close>

lemma start_configures_device:
  assumes "gateway_start w h (prog # opt # path # args) = Starts g"
  shows "\<exists>cfg calls. config_load (ho_files h path) = Loaded cfg \<and> config_ok cfg \<and>
    tun_configure (ho_tun h) (cfg_tun_name cfg) (cfg_tun_addr cfg) = Some (0, calls) \<and>
    gw_device g = calls @ snd (tun_apply_forward (ho_tun h) (cfg_tun_name cfg) cfg)"
proof -
  obtain cfg where c: "config_load (ho_files h path) = Loaded cfg" "start_config w h path cfg = Starts g"
    using assms by (auto simp: gateway_start_def split: if_splits load_result.splits)
  then show ?thesis using config_load_ok[OF c(1)]
    by (auto simp: start_config_def start_loop_def Let_def split: if_splits option.splits prod.splits)
qed

section \<open>Waiting\<close>

lemma select_timeout_value:
  assumes "select_timeout cfg = (s, us)"
  shows "0 \<le> us" "us < 1000000" "s * 1000000 + us = 1000 * max 1 (min (cfg_block_timeout_ms cfg) (cfg_probe_interval_ms cfg))"
proof -
  define t where "t = max 1 (min (cfg_block_timeout_ms cfg) (cfg_probe_interval_ms cfg))"
  have "select_timeout cfg = (t sdiv 1000, t smod 1000 * 1000)"
    by (auto simp: select_timeout_def t_def Let_def max_def min_def)
  moreover have "t sdiv 1000 = t div 1000" "t smod 1000 = t mod 1000" using t_def
    by (simp_all add: signed_divide_int_def signed_modulo_int_def sgn_if minus_div_mult_eq_mod)
  ultimately have e: "s = t div 1000" "us = t mod 1000 * 1000" using assms by simp_all
  show "0 \<le> us" "us < 1000000" using e by simp_all
  show "s * 1000000 + us = 1000 * max 1 (min (cfg_block_timeout_ms cfg) (cfg_probe_interval_ms cfg))"
    unfolding t_def[symmetric] e using div_mult_mod_eq[of t 1000] by linarith
qed

text \<open>\<open>select\<close> is called correctly: its first argument exceeds every descriptor in the set, and the
  time-out is a valid one of at least a millisecond, namely the smaller of the block time-out and the probe
  interval, whatever the configuration says.\<close>

lemma select_arguments_valid:
  "(\<forall>fd \<in> fst (watched g). fd < snd (watched g)) \<and>
    (case select_timeout (gw_cfg g) of (s, us) \<Rightarrow> 0 \<le> us \<and> us < 1000000 \<and> 1000 \<le> s * 1000000 + us \<and>
       s * 1000000 + us = 1000 * max 1 (min (cfg_block_timeout_ms (gw_cfg g)) (cfg_probe_interval_ms (gw_cfg g))))"
proof
  show "\<forall>fd \<in> fst (watched g). fd < snd (watched g)" by (auto simp: watched_def transport_fill_fdset_def Let_def)
  obtain s us where e: "select_timeout (gw_cfg g) = (s, us)" by fastforce
  show "case select_timeout (gw_cfg g) of (s, us) \<Rightarrow> 0 \<le> us \<and> us < 1000000 \<and> 1000 \<le> s * 1000000 + us \<and>
       s * 1000000 + us = 1000 * max 1 (min (cfg_block_timeout_ms (gw_cfg g)) (cfg_probe_interval_ms (gw_cfg g)))"
    unfolding e using select_timeout_value[OF e] by simp
qed

section \<open>Packets that wait\<close>


















section \<open>Signals at any time\<close>

text \<open>
  A signal may arrive between any two steps of a pass. The handlers only set flags, which no step looks at, so such a
  signal has the effect of one that arrives at the end of the pass.
\<close>

definition commutes :: "(gateway \<Rightarrow> gateway option) \<Rightarrow> bool" where
  "commutes step \<longleftrightarrow> (\<forall>sig g. step (deliver sig g) = map_option (deliver sig) (step g))"

lemma commutes_fold:
  assumes "commutes step"
  shows "step (fold deliver sigs g) = map_option (fold deliver sigs) (step g)"
proof (induction sigs arbitrary: g)
  case (Cons sig sigs)
  show ?case using Cons[of "deliver sig g"] assms by (simp add: commutes_def option.map_comp o_def)
qed (simp add: option.map_id)

lemma commutesI:
  assumes "\<And>sig g. step (sig_handler sig g) = map_option (sig_handler sig) (step g)"
    and "\<And>g. step (sighup_handler g) = map_option sighup_handler (step g)"
  shows "commutes step"
proof -
  have "deliver sig = (if sig = SIGINT \<or> sig = SIGTERM then sig_handler sig else if sig = SIGHUP then sighup_handler else id)" for sig
    by (simp add: fun_eq_iff deliver_def)
  then show ?thesis using assms by (simp add: commutes_def option.map_id)
qed

lemmas handlers = sig_handler_def sighup_handler_def

lemma tun_packet_commutes: "commutes (on_tun_packet w p rfds)"
  by (rule commutesI) (auto simp: on_tun_packet_def flush_and_renew_def handlers Let_def split: prod.splits Option.bind_splits)

lemma block_timeout_commutes: "commutes (on_block_timeout w p)"
  by (rule commutesI) (auto simp: on_block_timeout_def flush_and_renew_def handlers Let_def split: prod.splits Option.bind_splits)

lemma datagram_commutes: "commutes (on_datagram w p rfds)"
  by (rule commutesI) (auto simp: on_datagram_def on_data_def handlers Let_def
      split: recv_result.splits option.splits prod.splits Option.bind_splits)

lemma metrics_commutes: "commutes (on_metrics p rfds)"
  by (rule commutesI) (auto simp: on_metrics_def handlers Let_def split: Option.bind_splits)

lemma probe_timer_commutes: "commutes (on_probe_timer w)"
  by (rule commutesI) (auto simp: on_probe_timer_def handlers Let_def)

text \<open>A pass with the signals \<open>sigs ! i\<close> before its step \<open>i\<close> and \<open>sigs ! 5\<close> after the last.\<close>

definition serve_interrupted :: "world \<Rightarrow> poll \<Rightarrow> int set \<Rightarrow> int list list \<Rightarrow> gateway \<Rightarrow> gateway option" where
  "serve_interrupted w p rfds sigs g =
     do {
       g \<leftarrow> on_tun_packet w p rfds (fold deliver (sigs ! 0) g);
       g \<leftarrow> on_block_timeout w p (fold deliver (sigs ! 1) g);
       g \<leftarrow> on_datagram w p rfds (fold deliver (sigs ! 2) g);
       g \<leftarrow> on_metrics p rfds (fold deliver (sigs ! 3) g);
       g \<leftarrow> on_probe_timer w (fold deliver (sigs ! 4) g);
       Some (fold deliver (sigs ! 5) g)
     }"

section \<open>Properties\<close>

text \<open>C5: Given a configuration whose numbers the code can convert, uninitialised arrays of the declared sizes and block
  numbers of a session of at most \<open>2 ^ 30\<close> blocks, a run of the program is never undefined in the model: from the start through
  every pass of the loop (packets, datagrams of any content, signals, reloads, scrapes) to the shutdown. Undefined are
  in the model: a conversion of a floating-point number or of digits that does not fit, a write past the buffers of the
  exporter, a loop that runs for ever, and an access outside the receive buffer or the shard it fills,
  the slots of the window, the arrays of a block and of the decoder, the sender's block, its shards and its
  message buffer, the sockets of the paths, the counters and the gauges.\<close>

theorem program_defined:
  assumes "start_ok (ho_files h path)" "\<forall>p \<in> set ps. poll_ok False H path p" "poll_ok False H path last_poll" "H < 2 ^ 30"
  shows "\<exists>r. main w h [prog, opt, path] ps last_poll = Some r"
proof (cases "gateway_start w h [prog, opt, path]")
  case (Exits fds)
  then show ?thesis by (simp add: main_def)
next
  case Start_undefined
  then show ?thesis using start_defined[OF assms(1)] by simp
next
  case (Starts g)
  show ?thesis by (rule program_run[OF Starts assms]) auto
qed

theorem program_defined_witness:
  "\<exists>r. main demo_world (demo_host demo_text_tx) [[], ''--config'', []] [demo_poll 3 (Some demo_packet) None, demo_poll 5 None None]
     (demo_poll 3 None None) = Some r"
  using demo_poll_ok by (intro program_defined[OF demo_start_ok(1), where H = 5]) simp_all





text \<open>A start that fails leaves nothing open: nothing was opened exactly when the key is malformed or the
  device cannot be opened; otherwise the last descriptor closed is the device's, and when it is the scheduler
  that fails the receiving socket and all open path sockets are closed before it.\<close>

lemma failed_start_releases:
  assumes "start_config w h path cfg = Exits fds"
  shows "(fds = [] \<longleftrightarrow> init_crypto cfg = None \<or> fst (tun_open (ho_tun h) (cfg_tun_name cfg)) < 0) \<and>
    (fds \<noteq> [] \<longrightarrow> last fds = ot_dev (ho_tun h) \<and>
       (butlast fds = [] \<or> (\<not> ho_memory h \<and> (\<exists>tctx.
          transport_init (ho_sockets h) cfg (word_of_int (cfg_listen_port cfg)) = Some tctx \<and> butlast fds = transport_free tctx))))"
proof (cases "init_crypto cfg = None \<or> fst (tun_open (ho_tun h) (cfg_tun_name cfg)) < 0")
  case True
  then show ?thesis using assms by (auto simp: start_config_def Let_def split: option.splits)
next
  case False
  then obtain crypto where "init_crypto cfg = Some crypto" "0 \<le> fst (tun_open (ho_tun h) (cfg_tun_name cfg))" by auto
  from start_config_exits[OF assms this] False show ?thesis by auto
qed

text \<open>A probe that is answered counts twice as sent: the loop counts it when it sends it, and
  \<open>strategy_update_probe\<close> counts it again when its echo arrives; it counts once as received.\<close>

lemma answered_probe_counts_twice:
  assumes "strategy_ok (ts_strategy st)" "i < sc_path_count (ts_strategy st)" "p_alive (sc_paths (ts_strategy st) ! i)"
  shows "\<exists>ctx. strategy_update_probe (ts_strategy (probe_path w tctx ts i st)) (int i) rtt True = Some ctx \<and>
    p_probes_sent (sc_paths ctx ! i) = p_probes_sent (sc_paths (ts_strategy st) ! i) + 2 \<and>
    p_probes_recv (sc_paths ctx ! i) = p_probes_recv (sc_paths (ts_strategy st) ! i) + 1"
proof -
  let ?s = "ts_strategy st" and ?s' = "ts_strategy (probe_path w tctx ts i st)"
  let ?ps = "(sc_paths ?s ! i)\<lparr>p_probes_sent := p_probes_sent (sc_paths ?s ! i) + 1\<rparr>"
  have s': "?s' = ?s\<lparr>sc_paths := (sc_paths ?s)[i := ?ps]\<rparr>"
    using assms(2,3) by (simp add: probe_path_def strategy_get_path_state_def split: prod.split)
  have "path_state_ok ?ps" using strategy_okD(5)[OF assms(1,2)] by (simp add: path_state_ok_def)
  then have ok: "strategy_ok ?s'" unfolding s' by (rule strategy_ok_path[OF assms(1)])
  have i: "i < sc_path_count ?s'" "i < length (sc_paths ?s)" using assms strategy_okD(1,3)[OF assms(1)] by (simp_all add: s')
  obtain ctx where c: "strategy_update_probe ?s' (int i) rtt True = Some ctx"
    "\<And>j. sc_paths ctx ! j = (if j = i then probed_path ?s' rtt True (sc_paths ?s' ! i) else sc_paths ?s' ! j)"
    by (rule update_probe_at[OF ok i(1), where rtt = rtt and received = True]) blast
  have "sc_paths ctx ! i = probed_path ?s' rtt True ?ps" using c(2)[of i] i(2) by (simp add: s')
  then show ?thesis using c(1) by (simp add: probed_path_def Let_def probe_stats_frame)
qed

text \<open>The first section of the sample configuration in the README, the comments behind its values included.\<close>

definition readme_general :: "string list" where
  "readme_general = [
    ''[general]'',
    ''mode = tx               # tx | rx | both'',
    ''tun_name = tun0'',
    ''tun_addr = 10.0.0.1/30  # gateway assigns this address to the TUN interface'',
    ''metrics_port = 9090      # Prometheus /metrics endpoint (0 = disabled)'',
    ''log_level = 2            # 0=ERR, 1=WARN, 2=INFO, 3=DBG'',
    ''crypto_key =             # 64 hex chars for XOR obfuscation (empty = disabled)'']"

lemma readme_loads:
  "config_load (Some (text_of readme_general)) =
     Loaded (default_config\<lparr>cfg_mode := ''tx     '', cfg_tun_name := ''tun0'', cfg_tun_addr := ''10.0.0.1/30  # gate'',
       cfg_metrics_port := 9090, cfg_log_level := 2,
       cfg_crypto_key := ''# 64 hex chars for XOR obfuscation (empty = disabled)''\<rparr>)"
  by code_simp

lemma readme_lines: "short_lines readme_general" by code_simp

lemma readme_key: "general_line readme_general ''crypto_key'' (CHR ''#'' # '' 64 hex chars for XOR obfuscation (empty = disabled)'')"
  unfolding general_line_def
  by (intro exI[of _ "[]"] exI[of _ "take 5 (tl readme_general)"] exI[of _ "'' ''"] exI[of _ "''             ''"] exI[of _ "[]"])
    code_simp

lemma comment_in_key: "v = CHR ''#'' # t \<Longrightarrow> crypto_parse_key (strncpy 64 v) = None \<and> strncpy 64 v \<noteq> []"
  using comment_is_no_key by (simp add: strncpy_def)

text \<open>C37: A comment behind a value is part of the value, so what the sample in the README does is not accepted. In a file with lines of
  at most 254 characters, let the last line of section \<open>[general]\<close> that assigns the key have only a comment as its value: then, on any machine,
  the program takes the text of the comment for the key, finds it malformed and exits before it opens anything. Let the last one that
  assigns the mode have one of the three modes with a comment behind it: then the configuration is loaded with a mode that is none of the three.\<close>

theorem trailing_comment_is_value:
  assumes "config_load (Some (text_of ls)) = Loaded cfg" "short_lines ls"
  shows "(general_line ls ''crypto_key'' (CHR ''#'' # t) \<longrightarrow>
      gateway_start w (h\<lparr>ho_files := \<lambda>_. Some (text_of ls)\<rparr>) [prog, ''--config'', path] = Exits []) \<and>
    (v \<in> {''tx'', ''rx'', ''both''} \<and> general_line ls ''mode'' (v @ s @ CHR ''#'' # t) \<longrightarrow> cfg_mode cfg \<notin> {''tx'', ''rx'', ''both''})"
proof (intro conjI impI)
  show "gateway_start w (h\<lparr>ho_files := \<lambda>_. Some (text_of ls)\<rparr>) [prog, ''--config'', path] = Exits []"
    if "general_line ls ''crypto_key'' (CHR ''#'' # t)"
    using loaded_general(1)[OF assms that] comment_in_key[OF refl]
    by (simp add: gateway_start_def assms(1) start_config_def init_crypto_def)
  show "cfg_mode cfg \<notin> {''tx'', ''rx'', ''both''}"
    if "v \<in> {''tx'', ''rx'', ''both''} \<and> general_line ls ''mode'' (v @ s @ CHR ''#'' # t)"
    using loaded_general(2)[OF assms] comment_is_no_mode that by metis
qed

text \<open>The first section of the sample.\<close>

theorem trailing_comment_is_value_witness:
  "gateway_start demo_world (demo_host (text_of readme_general)) [[], ''--config'', []] = Exits []"
proof -
  have "gateway_start demo_world ((demo_host [])\<lparr>ho_files := \<lambda>_. Some (text_of readme_general)\<rparr>) [[], ''--config'', []] = Exits []"
    by (rule conjunct1[OF trailing_comment_is_value[OF readme_loads readme_lines], rule_format, OF readme_key])
  then show ?thesis by (simp add: demo_host_def)
qed

text \<open>C38: Signals may arrive at any time. However many signals arrive before, between and after the steps of a pass, the pass
  does what it does without them, and its end is as if all of them had arrived, in their order, after its last step.
  So it is enough to deliver signals before the test of the loop and during \<open>select\<close>.\<close>

theorem signals_wait_for_the_pass:
  assumes "length sigs = 6"
  shows "serve_interrupted w p rfds sigs g = map_option (fold deliver (concat sigs)) (serve w p rfds g)"
proof -
  obtain a b c d e f where s: "sigs = [a, b, c, d, e, f]"
    using assms by (auto simp: eval_nat_numeral length_Suc_conv)
  note fold = commutes_fold[OF tun_packet_commutes] commutes_fold[OF block_timeout_commutes]
    commutes_fold[OF datagram_commutes] commutes_fold[OF metrics_commutes] commutes_fold[OF probe_timer_commutes]
  show ?thesis
    by (auto simp: serve_interrupted_def serve_def s fold o_def split: Option.bind_splits)
qed

theorem signals_wait_for_the_pass_witness:
  "\<forall>w p rfds g. map_option gw_running (serve_interrupted w p rfds [[], [SIGINT], [], [SIGHUP], [], []] g) =
     map_option (\<lambda>_. False) (serve w p rfds g)"
proof (intro allI)
  show "map_option gw_running (serve_interrupted w p rfds [[], [SIGINT], [], [SIGHUP], [], []] g) =
      map_option (\<lambda>_. False) (serve w p rfds g)" for w p rfds g
    using signals_wait_for_the_pass[of "[[], [SIGINT], [], [SIGHUP], [], []]" w p rfds g]
    by (simp add: option.map_comp o_def deliver_def handlers SIGINT_def SIGHUP_def SIGTERM_def)
qed

end
