(* ===== verification/Descriptors.thy ===== *)
theory Descriptors
  imports Program "HOL-Library.Multiset"
begin

text \<open>
  The descriptors of the program: which are open after each step of the start, and that the program closes every one
  of them exactly once, whether the start fails or the loop runs and ends. The descriptors that the loop opens and closes
  in one pass (a connection of the exporter) and those of \<open>fopen\<close> are not counted.
\<close>

section \<open>Open descriptors\<close>

text \<open>The open descriptors after a sequence of events; \<open>None\<close> when one is closed that is not open.\<close>

fun open_fds :: "fd_event list \<Rightarrow> int multiset \<Rightarrow> int multiset option" where
  "open_fds [] s = Some s"
| "open_fds (Opens fd # es) s = open_fds es (add_mset fd s)"
| "open_fds (Closes fd # es) s = (if fd \<in># s then open_fds es (s - {#fd#}) else None)"

lemma open_fds_append: "open_fds (es @ fs) s = Option.bind (open_fds es s) (open_fds fs)"
  by (induction es s rule: open_fds.induct) simp_all

lemma open_fds_close_all: "open_fds (map Closes fds) (mset fds) = Some {#}"
  by (induction fds) simp_all

lemma open_fds_frame: "open_fds es s = Some s' \<Longrightarrow> open_fds es (s + t) = Some (s' + t)"
proof (induction es s rule: open_fds.induct)
  case (3 fd es s)
  then have s: "fd \<in># s" "open_fds es (s - {#fd#} + t) = Some (s' + t)" by (simp_all split: if_splits)
  have "s + t - {#fd#} = s - {#fd#} + t" using diff_union_single_conv[OF s(1), of t] by (metis add.commute)
  then show ?case using s by simp
qed simp_all

lemma path_events_open:
  "open_fds (path_events os i p) s = Some (s + mset (filter (\<lambda>fd. 0 \<le> fd) [s_fd (init_sock os i p zero_sock)]))"
  by (simp add: path_events_def init_sock_def Let_def split: option.split)

lemma paths_events_open:
  "open_fds (concat (map (\<lambda>i. path_events os i (c ! i)) is)) s =
     Some (s + mset (filter (\<lambda>fd. 0 \<le> fd) (map (\<lambda>i. s_fd (init_sock os i (c ! i) zero_sock)) is)))"
proof (induction "is" arbitrary: s)
  case (Cons i "is")
  have "open_fds (concat (map (\<lambda>i. path_events os i (c ! i)) (i # is))) s =
      Option.bind (open_fds (path_events os i (c ! i)) s) (open_fds (concat (map (\<lambda>i. path_events os i (c ! i)) is)))"
    by (simp add: open_fds_append)
  then show ?case using Cons by (simp add: path_events_open)
qed simp

text \<open>After \<open>transport_init\<close> exactly the descriptors that \<open>transport_free\<close> closes are open; none when it failed.\<close>

lemma init_leaves_open:
  assumes "cfg_path_count cfg \<le> MAX_PATHS"
  shows "open_fds (transport_init_events os cfg port) {#} =
    Some (case transport_init os cfg port of None \<Rightarrow> {#} | Some ctx \<Rightarrow> mset (transport_free ctx))"
proof (cases "transport_init os cfg port")
  case None
  then show ?thesis by (auto simp: transport_init_def transport_init_events_def split: if_splits)
next
  case (Some ctx)
  then have os: "os_memory os" "0 \<le> os_recv_fd os" "os_bind os port" "tc_recv_fd ctx = os_recv_fd os"
    by (auto simp: transport_init_def split: if_splits)
  have n: "tc_path_count ctx = cfg_path_count cfg" using Some by (auto simp: transport_init_def split: if_splits)
  have eq: "map (\<lambda>i. s_fd (tc_paths ctx ! i)) [0..<cfg_path_count cfg] =
      map (\<lambda>i. s_fd (init_sock os i (cfg_paths cfg ! i) zero_sock)) [0..<cfg_path_count cfg]"
    using transport_init_path(1)[OF Some _ assms] by simp
  have "mset (transport_free ctx) = {#os_recv_fd os#} +
      mset (filter (\<lambda>fd. 0 \<le> fd) (map (\<lambda>i. s_fd (init_sock os i (cfg_paths cfg ! i) zero_sock)) [0..<cfg_path_count cfg]))"
    unfolding transport_free_def n eq using os by simp
  then show ?thesis using os by (simp add: transport_init_events_def paths_events_open Some)
qed

section \<open>What the start opens\<close>

text \<open>A descriptor that is opened (if it is not negative) and the \<open>close\<close> calls among the calls that follow.\<close>

definition close_event :: "tun_call \<Rightarrow> fd_event option" where
  "close_event c = (case c of Close fd \<Rightarrow> Some (Closes fd) | _ \<Rightarrow> None)"

definition tun_events :: "int \<Rightarrow> tun_call list \<Rightarrow> fd_event list" where
  "tun_events fd calls = (if fd < 0 then [] else Opens fd # List.map_filter close_event calls)"

definition metrics_events :: "int \<times> bool \<times> bool \<Rightarrow> fd_event list" where
  "metrics_events m = (case m of (sock, bound, listens) \<Rightarrow>
     if sock < 0 then [] else if \<not> bound then [Opens sock, Closes sock]
     else if \<not> listens then [Opens sock, Closes sock] else [Opens sock])"

text \<open>The start, step by step as \<open>start_config\<close> does it, up to the step that fails.\<close>

definition start_events :: "host \<Rightarrow> gateway_config \<Rightarrow> fd_event list" where
  "start_events h cfg =
     (let port = word_of_int (cfg_listen_port cfg); (tun_fd, calls) = tun_open (ho_tun h) (cfg_tun_name cfg) in
      if init_crypto cfg = None then []
      else tun_events (ot_dev (ho_tun h)) calls @
        (if tun_fd < 0 then []
         else case tun_configure (ho_tun h) (cfg_tun_name cfg) (cfg_tun_addr cfg) of
           None \<Rightarrow> []
         | Some (rc, calls) \<Rightarrow> tun_events (ot_sock (ho_tun h)) calls @
             (if rc \<noteq> 0 then []
              else transport_init_events (ho_sockets h) cfg port @
                (if transport_init (ho_sockets h) cfg port = None \<or> \<not> ho_memory h \<or> cfg_metrics_port cfg \<le> 0 then []
                 else metrics_events (ho_metrics h)))))"

definition main_events :: "host \<Rightarrow> string list \<Rightarrow> fd_event list" where
  "main_events h argv =
     (case argv of
        _ # opt # config_path # _ \<Rightarrow>
          if opt \<noteq> ''--config'' then []
          else (case config_load (ho_files h config_path) of Loaded cfg \<Rightarrow> start_events h cfg | _ \<Rightarrow> [])
      | _ \<Rightarrow> [])"

lemma close_event_simps [simp]:
  "close_event (Ioctl r) = None" "close_event (Close fd) = Some (Closes fd)" "close_event (Proc_write t) = None" "close_event (Shell t) = None"
  by (simp_all add: close_event_def)

lemma tun_open_events:
  "open_fds (tun_events (ot_dev os) (snd (tun_open os name))) s =
     Some (if fst (tun_open os name) < 0 then s else add_mset (ot_dev os) s)"
  by (simp add: tun_events_def tun_open_def Let_def)

text \<open>The control socket of \<open>tun_configure\<close> is closed once, at the first request that fails or at the end.\<close>

abbreviation closings :: "tun_call list \<Rightarrow> fd_event list" where
  "closings \<equiv> List.map_filter close_event"

definition closes_socket :: "os_tun \<Rightarrow> (tun_call list \<Rightarrow> int \<times> tun_call list) \<Rightarrow> bool" where
  "closes_socket os cont \<longleftrightarrow> (\<forall>calls. closings calls = [] \<longrightarrow> closings (snd (cont calls)) = [Closes (ot_sock os)])"

lemma closings_append: "closings (xs @ ys) = closings xs @ closings ys"
  by (simp add: List.map_filter_def)

lemma attempt_closes: "closes_socket os cont \<Longrightarrow> closes_socket os (\<lambda>calls. attempt os r calls cont)"
  by (simp add: closes_socket_def attempt_def closings_append)

lemma last_closes: "closes_socket os (\<lambda>calls. (0, calls @ [Ioctl r, Close (ot_sock os)]))"
  by (simp add: closes_socket_def closings_append)

lemma configure_events:
  assumes "tun_configure os name addr = Some (rc, calls)"
  shows "open_fds (tun_events (ot_sock os) calls) s = Some s"
proof (cases "ot_sock os < 0")
  case False
  obtain ip prefix where c: "split_cidr addr = Some (ip, prefix)" using assms by (auto simp: tun_configure_def split: option.splits)
  have "closings calls = [Closes (ot_sock os)]"
  proof (cases "inet_pton ip")
    case None
    then show ?thesis using assms False c by (auto simp: tun_configure_def Let_def)
  next
    case (Some a)
    let ?n = "strncpy (IFNAMSIZ - 1) name"
    have "closes_socket os (\<lambda>calls. attempt os (SIOCSIFADDR ?n a) calls (\<lambda>calls. attempt os (SIOCSIFNETMASK ?n (netmask prefix)) calls
        (\<lambda>calls. attempt os (SIOCGIFFLAGS ?n) calls (\<lambda>calls. attempt os (SIOCSIFFLAGS ?n (ot_flags os OR (IFF_UP OR IFF_RUNNING))) calls
        (\<lambda>calls. (0, calls @ [Ioctl (SIOCSIFMTU ?n MAX_PAYLOAD), Close (ot_sock os)]))))))"
      by (intro attempt_closes last_closes)
    then have "closings (snd (the (tun_configure os name addr))) = [Closes (ot_sock os)]"
      using False c Some unfolding closes_socket_def by (simp add: tun_configure_def Let_def)
    then show ?thesis using assms by simp
  qed
  then show ?thesis using False by (simp add: tun_events_def)
qed (simp add: tun_events_def)

lemma metrics_events_open:
  "open_fds (metrics_events (sock, bound, listens)) s =
     Some (if metrics_listen sock bound listens < 0 then s else add_mset (metrics_listen sock bound listens) s)"
  by (simp add: metrics_events_def metrics_listen_def)

text \<open>What the start leaves open is what the failed start, or the gateway at its end, closes.\<close>

definition owned :: "gateway \<Rightarrow> int list" where
  "owned g = (if gw_metrics_fd g \<ge> 0 then [gw_metrics_fd g] else []) @ transport_free (gw_tctx g) @ [gw_tun_fd g]"

definition left_to_close :: "startup \<Rightarrow> int list" where
  "left_to_close s = (case s of Exits fds \<Rightarrow> fds | Start_undefined \<Rightarrow> [] | Starts g \<Rightarrow> owned g)"

lemma start_leaves_open:
  assumes n: "cfg_path_count cfg \<le> MAX_PATHS" and d: "start_config w h path cfg \<noteq> Start_undefined"
  shows "open_fds (start_events h cfg) {#} = Some (mset (left_to_close (start_config w h path cfg)))"
proof (cases "init_crypto cfg")
  case None
  then show ?thesis by (simp add: start_events_def start_config_def left_to_close_def split: prod.split)
next
  case (Some crypto)
  let ?os = "ho_tun h" and ?port = "word_of_int (cfg_listen_port cfg)"
  let ?init = "transport_init (ho_sockets h) cfg ?port"
  obtain fd calls where o: "tun_open ?os (cfg_tun_name cfg) = (fd, calls)" by fastforce
  have ev: "open_fds (tun_events (ot_dev ?os) calls) {#} = Some (if fd < 0 then {#} else {#ot_dev ?os#})"
    using tun_open_events[of ?os "cfg_tun_name cfg" "{#}"] by (simp add: o)
  show ?thesis
  proof (cases "fd < 0")
    case True
    then show ?thesis using Some o ev by (simp add: start_events_def start_config_def left_to_close_def)
  next
    case False
    then have dev: "fd = ot_dev ?os" using tun_open_dev[of ?os "cfg_tun_name cfg"] o by simp
    obtain rc cs where c: "tun_configure ?os (cfg_tun_name cfg) (cfg_tun_addr cfg) = Some (rc, cs)"
      using d Some o False by (cases "tun_configure ?os (cfg_tun_name cfg) (cfg_tun_addr cfg)") (auto simp: start_config_def)
    note cev = configure_events[OF c] and iev = init_leaves_open[OF n, of "ho_sockets h" ?port]
    have add: "open_fds (transport_init_events (ho_sockets h) cfg ?port) s =
        Some (s + (case ?init of None \<Rightarrow> {#} | Some ctx \<Rightarrow> mset (transport_free ctx)))" for s
      using open_fds_frame[OF iev, of s] by (simp add: add.commute)
    obtain sock bound listens where m: "ho_metrics h = (sock, bound, listens)" by (metis prod_cases3)
    show ?thesis
      using Some o False ev c cev add dev d m
      by (auto simp: start_events_def start_config_def left_to_close_def owned_def start_loop_def open_fds_append
          metrics_events_open Let_def split: option.splits)
  qed
qed

section \<open>The loop keeps them\<close>

definition handles :: "gateway \<Rightarrow> int \<times> transport_ctx \<times> int" where
  "handles g = (gw_metrics_fd g, gw_tctx g, gw_tun_fd g)"

lemma owned_handles: "handles g' = handles g \<Longrightarrow> owned g' = owned g"
  by (simp add: handles_def owned_def)

lemma flush_handles: "flush_and_renew w p g = Some g' \<Longrightarrow> handles g' = handles g"
  by (auto simp: flush_and_renew_def handles_def split: Option.bind_splits)

lemma tun_packet_handles: "on_tun_packet w p rfds g = Some g' \<Longrightarrow> handles g' = handles g"
  by (auto simp: on_tun_packet_def Let_def handles_def split: if_splits prod.splits dest!: flush_handles[unfolded handles_def])

lemma block_timeout_handles: "on_block_timeout w p g = Some g' \<Longrightarrow> handles g' = handles g"
  by (auto simp: on_block_timeout_def Let_def handles_def split: if_splits dest!: flush_handles[unfolded handles_def])

lemma datagram_handles: "on_datagram w p rfds g = Some g' \<Longrightarrow> handles g' = handles g"
  by (auto simp: on_datagram_def on_data_def Let_def handles_def
      split: recv_result.splits option.splits Option.bind_splits prod.splits if_splits)

lemma metrics_handles: "on_metrics p rfds g = Some g' \<Longrightarrow> handles g' = handles g"
  by (auto simp: on_metrics_def Let_def handles_def split: if_splits Option.bind_splits)

lemma probe_timer_handles: "on_probe_timer w g = Some g' \<Longrightarrow> handles g' = handles g"
  by (auto simp: on_probe_timer_def Let_def handles_def split: if_splits)

lemma reload_handles: "do_reload files g = Some g' \<Longrightarrow> handles g' = handles g"
  by (auto simp: do_reload_def Let_def handles_def split: load_result.splits Option.bind_splits)

lemma deliver_handles: "handles (fold deliver sigs g) = handles g"
  by (induction sigs arbitrary: g) (simp_all add: deliver_def sig_handler_def sighup_handler_def handles_def)

lemma serve_handles:
  assumes "serve w p rfds g = Some g'"
  shows "handles g' = handles g"
  using assms tun_packet_handles block_timeout_handles datagram_handles metrics_handles probe_timer_handles
  by (fastforce simp: serve_def bind_eq_Some_conv)

lemma loop_body_handles: "loop_body w p g = Some g' \<Longrightarrow> handles g' = handles g"
  by (auto simp: loop_body_def Let_def deliver_handles split: if_splits dest!: serve_handles reload_handles)

lemma event_loop_handles: "event_loop w ps g = Some g' \<Longrightarrow> handles g' = handles g"
proof (induction ps arbitrary: g)
  case (Cons p ps)
  then show ?case
    using loop_body_handles[of w p "fold deliver (po_before p) g"] by (auto simp: Let_def deliver_handles split: if_splits option.splits)
qed simp

lemma stop_closes: "gateway_stop w p g = Some (g', fds) \<Longrightarrow> fds = owned g"
  by (auto simp: gateway_stop_def owned_def split: if_splits Option.bind_splits)

section \<open>Properties\<close>

text \<open>C39: The program closes what it opens: in every run, whether it ends in a start that fails at any step or after
  any number of passes of the loop, every descriptor that was opened for the device, the control socket, the sockets
  of transport and the exporter is closed exactly once, and none is closed that is not open. (The connections that the exporter
  accepts and closes within one pass are not counted.)\<close>

theorem descriptors_are_released:
  assumes "main w h argv ps last_poll = Some r"
  shows "open_fds (main_events h argv @ map Closes (case r of Inl fds \<Rightarrow> fds | Inr (g, fds) \<Rightarrow> fds)) {#} = Some {#}"
proof -
  have start: "gateway_start w h argv \<noteq> Start_undefined" using assms by (auto simp: main_def)
  have "open_fds (main_events h argv) {#} = Some (mset (left_to_close (gateway_start w h argv)))"
  proof (cases "\<exists>prog path args cfg. argv = prog # ''--config'' # path # args \<and> config_load (ho_files h path) = Loaded cfg")
    case True
    then obtain prog path args cfg where c: "argv = prog # ''--config'' # path # args" "config_load (ho_files h path) = Loaded cfg" by blast
    have "cfg_path_count cfg \<le> MAX_PATHS" using config_load_ok[OF c(2)] by (simp add: config_ok_def config_shape_def)
    moreover have s: "gateway_start w h argv = start_config w h path cfg" by (simp add: gateway_start_def c)
    ultimately show ?thesis using start_leaves_open start by (simp add: main_events_def c(1) c(2) s[unfolded c(1)])
  next
    case False
    then have "main_events h argv = [] \<and> (gateway_start w h argv = Exits [] \<or> gateway_start w h argv = Start_undefined)"
      by (auto simp: main_events_def gateway_start_def split: list.splits load_result.splits)
    then show ?thesis using start by (auto simp: left_to_close_def)
  qed
  moreover have "left_to_close (gateway_start w h argv) = (case r of Inl fds \<Rightarrow> fds | Inr (g, fds) \<Rightarrow> fds)"
  proof (cases "gateway_start w h argv")
    case (Starts g)
    then obtain g1 g2 fds where "event_loop w ps g = Some g1" "gateway_stop w last_poll g1 = Some (g2, fds)" "r = Inr (g2, fds)"
      using assms by (auto simp: main_def split: Option.bind_splits)
    then show ?thesis using owned_handles[OF event_loop_handles] stop_closes by (fastforce simp: left_to_close_def Starts)
  qed (use assms in \<open>auto simp: main_def left_to_close_def\<close>)
  ultimately show ?thesis by (simp add: open_fds_append open_fds_close_all)
qed

theorem descriptors_are_released_witness:
  "main demo_world (demo_host demo_text_tx\<lparr>ho_memory := False\<rparr>) [[], ''--config'', []] [] (demo_poll 3 None None) = Some (Inl [5, 6, 3]) \<and>
   open_fds (main_events (demo_host demo_text_tx\<lparr>ho_memory := False\<rparr>) [[], ''--config'', []] @ [Closes 5, Closes 6, Closes 3]) {#} = Some {#}"
proof -
  let ?h = "demo_host demo_text_tx\<lparr>ho_memory := False\<rparr>"
  have cfg: "map_option fst (tun_configure demo_os [] ''1.1.1.1/8'') = Some 0" by code_simp
  obtain a where pton: "inet_pton ''1.1.1.2'' = Some a" by (cases "inet_pton ''1.1.1.2''") (code_simp, simp)
  have "start_config demo_world ?h [] demo_tx = Exits [5, 6, 3]"
    using cfg pton
    by (auto simp: start_config_def demo_host_def demo_tx_def default_config_def init_crypto_def tun_open_def demo_os_def Let_def
        transport_init_def transport_free_def init_sock_def zero_sock_def limits)
  moreover have "config_load (ho_files ?h []) = Loaded demo_tx" by (simp add: demo_host_def demo_load_tx)
  ultimately have m: "main demo_world ?h [[], ''--config'', []] [] (demo_poll 3 None None) = Some (Inl [5, 6, 3])"
    by (simp add: main_def gateway_start_def)
  from descriptors_are_released[OF this] m show ?thesis by simp
qed

end
