(* ===== verification/Spec2Isabelle.thy ===== *)
theory Spec2Isabelle
  imports GF256 Codec CFloat CString Crypto Config Strategy Transport Metrics Tx Rx Window Delivery Tun Gateway Run Tunnel Network Program Descriptors
begin

text \<open>
  \<^bold>\<open>The program.\<close> \<open>coding-gateway\<close> is a user-space tunnel in C. The sending side reads IP packets from
  a TUN device, collects up to \<open>k\<close> of them in a block, pads them to one length, encodes the block into
  \<open>n >= k\<close> shards over GF(256) (the first \<open>k\<close> are the packets themselves, the others random linear
  combinations), encrypts each shard with a stream cipher, and sends the shards over UDP, each on the path
  that a weighted scheduler picks. The receiving side collects the shards of a block in a window of slots,
  decodes a block once \<open>k\<close> of its shards are there, cuts the padding and writes the packets to its TUN
  device. Probes and their echoes measure the paths; a signal reloads the tuning parameters; an exporter
  answers with counters.

  \<^bold>\<open>Theories and sources\<close> (file names are those of \<open>src/src\<close> and \<open>src/include\<close>; a definition has
  the name of the C function, type or macro it models, or names a stretch of a function).

  \<^item> \<open>Prelude\<close>: the limits and the clock of \<open>common.h\<close>, \<open>memset\<close>, \<open>memcpy\<close>, counted loops with
    their invariant rules, and the locales \<open>state_machine\<close> (an invariant that every admissible event keeps)
    and \<open>simulation\<close> (a system that implements its specification step by step).
  \<^item> \<open>GF256\<close>: \<open>gf256.c\<close>. The tables are computed as \<open>gf256_init\<close> does, and shown to be the field of
    order 256 (carry-less product modulo the polynomial).
  \<^item> \<open>Codec\<close>: \<open>codec.c\<close>, \<open>codec.h\<close>. \<open>encode_block\<close>, and \<open>decode_block\<close> as Gauss-Jordan elimination
    on the arrays of the code, row by row.
  \<^item> \<open>CFloat\<close>, \<open>CString\<close>: what the program uses of the C language and library: IEEE single and double
    precision on rationals with infinities and NaN, \<open>roundf\<close>, \<open>ceilf\<close>, conversion to \<open>int\<close>;
    \<open>fgets\<close>, \<open>strchr\<close>, \<open>strncpy\<close>, \<open>atoi\<close>, \<open>atof\<close>.
  \<^item> \<open>Crypto\<close>: \<open>crypto.c\<close>. Seed, xorshift keystream, \<open>crypto_xor\<close>, \<open>crypto_parse_key\<close>; the locale
    \<open>stream_cipher\<close> is the contract that the receiver relies on.
  \<^item> \<open>Config\<close>: \<open>config.c\<close>, \<open>config.h\<close>, from the characters of the file to the validated record.
  \<^item> \<open>Strategy\<close>: \<open>strategy.c\<close>. Scheduler with credits, number of shards, loss estimate, reload.
  \<^item> \<open>Transport\<close>: \<open>transport.c\<close>. Wire format, sockets, sending, receiving; the locale \<open>wire_format\<close>
    is the contract of a message format, interpreted for shards and for probes.
  \<^item> \<open>Metrics\<close>: \<open>metrics.c\<close>. Counters, histogram, the text of the response.
  \<^item> \<open>Tx\<close>: \<open>tx.c\<close>. \<open>tx_block_add_pkt\<close>, \<open>tx_block_needs_flush\<close>, \<open>tx_block_flush\<close>; the lemma \<open>flush_spec\<close>
    says what a flush sends.
  \<^item> \<open>Rx\<close>: \<open>rx.c\<close>. The window, insertion, decoding, the loop that advances the window (a
    \<open>partial_function\<close>, since it need not end), and \<open>rx_on_shard\<close>, the lines of \<open>main.c\<close> that call them;
    the receiver as a \<open>state_machine\<close> whose invariant includes that slots left behind never fill the window.
  \<^item> \<open>Window\<close>: the contract of the window, a map from block numbers to blocks with operations of its own,
    and the proof that the array of slots implements it, operation by operation and run by run.
  \<^item> \<open>Delivery\<close>: the receiver delivers blocks whose shards arrive, one block or a stream of them; two ways in
    which a block is not delivered although enough arrives (dependent shards here, a forged shard in \<open>Tunnel\<close>).
  \<^item> \<open>Tun\<close>: \<open>tun.c\<close>, the Linux branch.
  \<^item> \<open>Gateway\<close>: \<open>main.c\<close>: signal handlers, each step of a pass of the event loop, the loop, the reload,
    the start with its error exits, the shutdown that drains, and \<open>main\<close>.
  \<^item> \<open>Run\<close>: the invariant of the loop (\<open>good\<close>) and that every step keeps it: nothing undefined happens,
    and the packets read are the packets in the blocks flushed and in the block being collected.
  \<^item> \<open>Tunnel\<close>: the end-to-end statements, from the packets one gateway reads to those the other writes, and
    which losses the code repairs (\<open>repairable\<close>): one shard of every block as soon as the redundancy is above 1.
  \<^item> \<open>Network\<close>: two gateways in any modes and a network that loses, delays, reorders and repeats datagrams,
    as a step relation (\<open>acts\<close>, \<open>tunnel_step\<close>); an abstract channel of blocks for each direction
    (\<open>channel_step\<close>), and a forward simulation between them (\<open>tunnel\<close>, an interpretation of the
    locale \<open>simulation\<close>).
  \<^item> \<open>Program\<close>: properties of the whole program: start-up and its failures, waiting (\<open>select\<close>, packets that wait
    in the block), definedness, the loss that is never measured, comments behind the values of a configuration.
  \<^item> \<open>Descriptors\<close>: the descriptors that the start opens (\<open>main_events\<close>, \<open>transport_init_events\<close>), and that the
    program closes each of them once, however it ends.

  \<^bold>\<open>How the parts meet.\<close> \<open>main\<close> owns all state. The record \<open>gateway\<close> holds the local variables of
  \<open>main\<close> and the globals: the configuration, the scheduler, the datagrams sent, the counters and the position
  in the stream of random numbers (together the record \<open>tx_state\<close>, which a flush changes), the block, the
  window, the packets written. A pass of the loop gets a \<open>poll\<close>, the answers of the operating system in that
  pass, and runs the steps in the order of the code: packet from the device, time-out of the block, datagram,
  exporter, probes.

  \<^bold>\<open>Undefined behaviour and failure.\<close> \<open>None\<close> is undefined behaviour (a float converted to an \<open>int\<close> that
  cannot hold it, \<open>atoi\<close> out of range, a write position past a buffer, an access outside an array) or a loop that does not end. The
  return value -1 of the code is a value of the model. The accesses to arrays are guarded where the index or the length comes
  from outside or depends on the state: in \<open>transport_recv\<close> (its result \<open>Recv_overrun\<close>) and in the steps of the loop (the
  predicate \<open>inside\<close> and its compounds \<open>add_inside\<close>, \<open>message_inside\<close>, \<open>flush_inside\<close>, \<open>rx_inside\<close>); the
  definitions of \<open>Codec\<close> and \<open>Rx\<close> themselves are total functions on lists, and \<open>rx_inside\<close> is evaluated before they run.
  The loops of the scheduler stay below its number of paths, which \<open>strategy_ok\<close> bounds by the arrays; the parser keeps
  its counters and texts inside the arrays (\<open>config_ok\<close>).

  \<^bold>\<open>What is proved.\<close> The codec inverts itself for every block that reaches it and fails exactly when the
  shards are dependent; the receiver returns for every sequence of datagrams and delivers every block of which
  enough arrives; whatever the network does, the tunnel delivers blocks whole, in order and at most once; the
  sender cuts what it reads into blocks, numbers them, and sends what the receiver needs; the scheduler is fair and its estimates stay in range; formats round-trip; buffers are large enough; the whole
  program is defined, and inside its arrays, for every configuration whose numbers are of a sane size. Some properties state what the
  code does where that is not what it means to do; they are listed as findings beside the manifest.

  \<^bold>\<open>Bounds.\<close> Block numbers are compared as signed 32-bit differences; the statements about runs assume a
  session of at most \<open>2 ^ 30\<close> blocks, so that no difference overflows. Redundancy is assumed to be at most
  \<open>2 ^ 20\<close> and weights to fit an \<open>int\<close>, otherwise the conversions of the code are undefined. Delivery assumes
  that readings of the clock during one block are less than the time-out of 50 ms apart, that blocks do not
  overlap at the receiver (the window passes an incomplete block as soon as a newer one shows up), and at
  most one coded shard among the first \<open>k\<close> (with two or more the coefficients are random and the decoder may
  find them dependent; then it fails, which is proved too). The simulation of \<open>Network\<close> needs none of the three:
  it holds for every clock, every interleaving and every selection of shards, with sessions of at most
  \<open>H + 1\<close> packets in each direction and no forged datagrams.

  \<^bold>\<open>Parameters.\<close> The clock (\<open>clk\<close>, \<open>w_time\<close>), the values of \<open>sendto\<close> (\<open>net\<close>), the values of \<open>rand\<close>
  (\<open>rnd\<close>), the answers of sockets, \<open>select\<close>, \<open>ioctl\<close>, \<open>system\<close> and the device, the files, and
  uninitialised local arrays (\<open>junk\<close>, \<open>po_gj\<close> and others) are arguments; the theorems hold for all of them,
  with the arrays of the sizes that their declarations give.

  \<^bold>\<open>Not modelled.\<close> Log output, which nothing depends on; signals between two instructions of one step of a pass (between the steps they are:
  \<open>serve_interrupted\<close> in \<open>Program\<close>, where they are shown to have the effect of signals at the end of the pass); the branch of \<open>tun.c\<close> for
  other platforms, which returns -1; the contents of the kernel's routing and firewall tables. The unit tests, the
  containers, dashboards, scripts and packaging hold no logic of the program. A list of passes that is used up ends the loop
  of the model and the shutdown follows, so that the statements about \<open>main\<close> cover every moment at which a run may be looked at; a
  real run ends when a signal clears the flag. Descriptors are assumed to be below \<open>FD_SETSIZE\<close>.
\<close>

end
